(* ===== verification/Prelude.thy ===== *)
theory Prelude
  imports Main "HOL-Library.Word" "HOL-Library.Sublist" "HOL-Library.Code_Target_Nat"
begin

text \<open>
  Shared vocabulary of the development: the machine integers of the code, byte order
  conversions, checked slice access (Rust's \<open>get\<close>), the association-list view of a
  \<open>HashMap\<close>, and the collections of rewrite rules the component theories extend.
  Nothing here is specific to a component.
\<close>

section \<open>Collections of rewrite rules\<close>

named_theorems wire_simps \<open>facts on byte-level encoders and decoders\<close>
named_theorems str_simps \<open>facts on the string functions of the Rust standard library\<close>
named_theorems cfg_simps \<open>facts on settings and manifest records\<close>

section \<open>Machine integers\<close>

type_synonym u8 = "8 word"
type_synonym u16 = "16 word"
type_synonym u32 = "32 word"
type_synonym bytes = "u8 list"

definition to_be16 :: "u16 \<Rightarrow> bytes" where
  "to_be16 w = [word_of_nat (unat w div 256), word_of_nat (unat w mod 256)]"

definition from_be16 :: "u8 \<Rightarrow> u8 \<Rightarrow> u16" where
  "from_be16 a b = word_of_nat (unat a * 256 + unat b)"

definition from_be32 :: "u8 \<Rightarrow> u8 \<Rightarrow> u8 \<Rightarrow> u8 \<Rightarrow> u32" where
  "from_be32 a b c d =
     word_of_nat (unat a * 16777216 + unat b * 65536 + unat c * 256 + unat d)"

definition to_be32 :: "u32 \<Rightarrow> bytes" where
  "to_be32 w = [word_of_nat (unat w div 16777216), word_of_nat (unat w div 65536 mod 256),
     word_of_nat (unat w div 256 mod 256), word_of_nat (unat w mod 256)]"

definition to_le32 :: "u32 \<Rightarrow> bytes" where
  "to_le32 w = rev (to_be32 w)"

definition from_le32 :: "u8 \<Rightarrow> u8 \<Rightarrow> u8 \<Rightarrow> u8 \<Rightarrow> u32" where
  "from_le32 a b c d = from_be32 d c b a"

lemma unat_u8_less [simp]: "unat (b :: u8) < 256"
  using unsigned_less [of b] by simp

lemma unat_u16_less [simp]: "unat (w :: u16) < 65536"
  using unsigned_less [of w] by simp

lemma unat_u32_less [simp]: "unat (w :: u32) < 4294967296"
  using unsigned_less [of w] by simp

lemma unat_word_of_nat_u8 [simp]: "n < 256 \<Longrightarrow> unat (word_of_nat n :: u8) = n"
  by (simp add: unat_of_nat take_bit_nat_eq_self)

lemma unat_word_of_nat_u16 [simp]: "n < 65536 \<Longrightarrow> unat (word_of_nat n :: u16) = n"
  by (simp add: unat_of_nat take_bit_nat_eq_self)

lemma unat_word_of_nat_u32 [simp]: "n < 4294967296 \<Longrightarrow> unat (word_of_nat n :: u32) = n"
  by (simp add: unat_of_nat take_bit_nat_eq_self)

lemma u16_div_256: "unat (w :: u16) div 256 < 256"
  using unat_u16_less [of w] by linarith

lemma unat_from_be16 [wire_simps]: "unat (from_be16 a b) = unat a * 256 + unat b"
proof -
  have "unat a * 256 + unat b < 65536"
    using unat_u8_less [of a] unat_u8_less [of b] by linarith
  then show ?thesis unfolding from_be16_def by (rule unat_word_of_nat_u16)
qed

lemma length_to_be16 [simp]: "length (to_be16 w) = 2"
  by (simp add: to_be16_def)

lemma length_to_be32 [simp]: "length (to_be32 w) = 4"
  by (simp add: to_be32_def)

lemma length_to_le32 [simp]: "length (to_le32 w) = 4"
  by (simp add: to_le32_def)

lemma from_be16_to_be16 [wire_simps]:
  "from_be16 (word_of_nat (unat w div 256)) (word_of_nat (unat w mod 256)) = w"
proof -
  have "unat (word_of_nat (unat w div 256) :: u8) = unat w div 256"
    by (rule unat_word_of_nat_u8) (rule u16_div_256)
  moreover have "unat (word_of_nat (unat w mod 256) :: u8) = unat w mod 256"
    by (rule unat_word_of_nat_u8) simp
  ultimately have "unat (from_be16 (word_of_nat (unat w div 256)) (word_of_nat (unat w mod 256))) = unat w"
    by (simp only: unat_from_be16 div_mult_mod_eq)
  then show ?thesis by (rule unsigned_word_eqI)
qed

lemma to_be16_nth [wire_simps]:
  "to_be16 w ! 0 = word_of_nat (unat w div 256)" "to_be16 w ! Suc 0 = word_of_nat (unat w mod 256)"
  by (simp_all add: to_be16_def)

lemma u32_bytes_join:
  "n div 16777216 * 16777216 + n div 65536 mod 256 * 65536 + n div 256 mod 256 * 256 + n mod 256
     = (n :: nat)"
proof -
  have "n div 256 = n div 65536 * 256 + n div 256 mod 256"
    using div_mult_mod_eq [of "n div 256" 256] by (simp add: div_mult2_eq [symmetric])
  moreover have "n div 65536 = n div 16777216 * 256 + n div 65536 mod 256"
    using div_mult_mod_eq [of "n div 65536" 256] by (simp add: div_mult2_eq [symmetric])
  moreover have "n = n div 256 * 256 + n mod 256" by simp
  ultimately show ?thesis by linarith
qed

lemma from_be32_to_be32 [wire_simps]:
  "from_be32 (word_of_nat (unat w div 16777216)) (word_of_nat (unat w div 65536 mod 256))
     (word_of_nat (unat w div 256 mod 256)) (word_of_nat (unat w mod 256)) = w"
proof -
  have a: "unat w div 16777216 < 256"
    using unat_u32_less [of w] by linarith
  have u: "unat (word_of_nat (unat w div 16777216) :: u8) = unat w div 16777216"
    "unat (word_of_nat (unat w div 65536 mod 256) :: u8) = unat w div 65536 mod 256"
    "unat (word_of_nat (unat w div 256 mod 256) :: u8) = unat w div 256 mod 256"
    "unat (word_of_nat (unat w mod 256) :: u8) = unat w mod 256"
    using a by (intro unat_word_of_nat_u8; simp)+
  show ?thesis
    unfolding from_be32_def u u32_bytes_join by simp
qed

section \<open>Checked access to slices\<close>

text \<open>\<open>s.get(i)\<close>, \<open>s.get(a..b)\<close> and \<open>s.get(a..)\<close> of the Rust slice API.\<close>

definition get_at :: "nat \<Rightarrow> 'a list \<Rightarrow> 'a option" where
  "get_at i xs = (if i < length xs then Some (xs ! i) else None)"

definition get_range :: "nat \<Rightarrow> nat \<Rightarrow> 'a list \<Rightarrow> 'a list option" where
  "get_range a b xs = (if a \<le> b \<and> b \<le> length xs then Some (take (b - a) (drop a xs)) else None)"

definition get_from :: "nat \<Rightarrow> 'a list \<Rightarrow> 'a list option" where
  "get_from a xs = (if a \<le> length xs then Some (drop a xs) else None)"

text \<open>Overwriting a range in place: \<open>xs[i..i+n].copy_from_slice(ys)\<close> with \<open>n = ys.len()\<close>.\<close>

definition put_slice :: "nat \<Rightarrow> 'a list \<Rightarrow> 'a list \<Rightarrow> 'a list" where
  "put_slice i ys xs = take i xs @ ys @ drop (i + length ys) xs"

lemma length_put_slice [simp]: "i + length ys \<le> length xs \<Longrightarrow> length (put_slice i ys xs) = length xs"
  by (simp add: put_slice_def)

lemma nth_put_slice:
  assumes "i + length ys \<le> length xs" "k < length xs"
  shows "put_slice i ys xs ! k =
    (if k < i then xs ! k else if k < i + length ys then ys ! (k - i) else xs ! k)"
  using assms by (auto simp add: put_slice_def nth_append less_diff_conv2)

lemma get_at_append_left [simp]: "i < length xs \<Longrightarrow> get_at i (xs @ ys) = Some (xs ! i)"
  by (simp add: get_at_def nth_append)

lemma get_at_append_right [simp]: "get_at (length xs) (xs @ y # ys) = Some y"
  by (simp add: get_at_def)

lemma get_range_append_mid [simp]:
  "get_range (length xs) (length xs + length ys) (xs @ ys @ zs) = Some ys"
  by (simp add: get_range_def)

lemma get_at_Some_iff: "get_at i xs = Some x \<longleftrightarrow> i < length xs \<and> xs ! i = x"
  by (simp add: get_at_def)

section \<open>A HashMap as an association list in iteration order\<close>

text \<open>
  A \<open>HashMap\<close> is iterated in an unspecified order. Where the code iterates one, the model
  takes an association list with distinct keys: every such list is a possible iteration
  order. Where the code only looks up and inserts, the model uses a map.
\<close>

definition wf_alist :: "('k \<times> 'v) list \<Rightarrow> bool" where
  "wf_alist al \<longleftrightarrow> distinct (map fst al)"

text \<open>\<open>out.contains(x)\<close> before \<open>out.push(x)\<close>: the accumulate-if-new loop used all over the code.\<close>

fun push_new :: "'a list \<Rightarrow> 'a list \<Rightarrow> 'a list" where
  "push_new out [] = out"
| "push_new out (x # xs) = push_new (if x \<in> set out then out else out @ [x]) xs"

lemma set_push_new [simp]: "set (push_new out xs) = set out \<union> set xs"
  by (induction xs arbitrary: out) auto

lemma distinct_push_new: "distinct out \<Longrightarrow> distinct (push_new out xs)"
  by (induction xs arbitrary: out) auto

lemma push_new_prefix: "prefix out (push_new out xs)"
proof (induction xs arbitrary: out)
  case Nil
  then show ?case by simp
next
  case (Cons x xs)
  have "prefix out (if x \<in> set out then out else out @ [x])" by simp
  also have "prefix \<dots> (push_new out (x # xs))"
    unfolding push_new.simps by (rule Cons.IH)
  finally show ?case .
qed

lemma push_new_append: "push_new out (xs @ ys) = push_new (push_new out xs) ys"
  by (induction xs arbitrary: out) auto

lemma push_new_fresh:
  "distinct xs \<Longrightarrow> set out \<inter> set xs = {} \<Longrightarrow> push_new out xs = out @ xs"
  by (induction xs arbitrary: out) auto

lemma push_new_old: "set xs \<subseteq> set out \<Longrightarrow> push_new out xs = out"
  by (induction xs) auto

text \<open>The first element satisfying a predicate, as the \<open>for ... if ... return\<close> loops find it.\<close>

lemma find_Some_split:
  "List.find P xs = Some x \<Longrightarrow> \<exists>us vs. xs = us @ x # vs \<and> P x \<and> (\<forall>u\<in>set us. \<not> P u)"
proof (induction xs)
  case Nil
  then show ?case by simp
next
  case (Cons y ys)
  show ?case
  proof (cases "P y")
    case True
    with Cons.prems show ?thesis by (intro exI [of _ "[]"] exI [of _ ys]) simp
  next
    case False
    with Cons.prems obtain us vs where "ys = us @ x # vs" "P x" "\<forall>u\<in>set us. \<not> P u"
      using Cons.IH by auto
    with False show ?thesis by (intro exI [of _ "y # us"] exI [of _ vs]) simp
  qed
qed

end
