(* ===== verification/RustStr.thy ===== *)
theory RustStr
  imports Prelude
begin

text \<open>
  The functions of the Rust standard library on \<open>str\<close> and \<open>String\<close> that the code uses.
  A Rust string is modelled by its UTF-8 bytes as a \<^typ>\<open>string\<close>; a byte stream of a text
  protocol is a \<^typ>\<open>string\<close> as well. The ASCII part of every function is exact. Two
  functions consult Unicode tables in Rust: \<open>to_lowercase\<close> leaves every byte above 127
  unchanged here (so the model agrees with the code on strings without non-ASCII capital
  letters), and \<open>trim\<close>, \<open>split_whitespace\<close> know the ASCII white space only.
\<close>

section \<open>Characters\<close>

abbreviation CR :: char where "CR \<equiv> CHR 0x0D"
abbreviation LF :: char where "LF \<equiv> CHR 0x0A"
abbreviation crlf :: string where "crlf \<equiv> [CR, LF]"

definition code_of :: "char \<Rightarrow> nat" where
  "code_of c = of_char c"

definition lower_char :: "char \<Rightarrow> char" where
  "lower_char c = (if 65 \<le> code_of c \<and> code_of c \<le> 90 then char_of (code_of c + 32) else c)"

definition upper_char :: "char \<Rightarrow> char" where
  "upper_char c = (if 97 \<le> code_of c \<and> code_of c \<le> 122 then char_of (code_of c - 32) else c)"

text \<open>\<open>char::is_whitespace\<close> on ASCII: tab, line feed, vertical tab, form feed, CR, space.\<close>

definition is_ws :: "char \<Rightarrow> bool" where
  "is_ws c = (code_of c = 32 \<or> (9 \<le> code_of c \<and> code_of c \<le> 13))"

definition is_digit :: "char \<Rightarrow> bool" where
  "is_digit c = (48 \<le> code_of c \<and> code_of c \<le> 57)"

definition to_lower :: "string \<Rightarrow> string" where
  "to_lower = map lower_char"

definition to_upper :: "string \<Rightarrow> string" where
  "to_upper = map upper_char"

definition eq_ignore_case :: "string \<Rightarrow> string \<Rightarrow> bool" where
  "eq_ignore_case s t = (to_lower s = to_lower t)"

definition is_ascii :: "string \<Rightarrow> bool" where
  "is_ascii s = list_all (\<lambda>c. code_of c < 128) s"

lemma code_of_less [simp]: "code_of c < 256"
  by (simp add: code_of_def)

lemma code_of_char_of [simp]: "n < 256 \<Longrightarrow> code_of (char_of n) = n"
  by (simp add: code_of_def)

lemma code_of_inject [simp]: "code_of c = code_of d \<longleftrightarrow> c = d"
  by (simp add: code_of_def)

lemma lower_char_idem [simp]: "lower_char (lower_char c) = lower_char c"
  by (simp add: lower_char_def)

lemma to_lower_idem [simp, str_simps]: "to_lower (to_lower s) = to_lower s"
  by (simp add: to_lower_def)

lemma to_lower_Nil [simp]: "to_lower [] = []" and to_lower_append [simp]: "to_lower (s @ t) = to_lower s @ to_lower t"
  and length_to_lower [simp]: "length (to_lower s) = length s"
  and to_lower_eq_Nil [simp]: "to_lower s = [] \<longleftrightarrow> s = []"
  and to_lower_Cons [simp]: "to_lower (c # s) = lower_char c # to_lower s"
  by (simp_all add: to_lower_def)

lemma is_ws_lower [simp]: "is_ws (lower_char c) = is_ws c"
  by (auto simp: is_ws_def lower_char_def)

lemma lower_char_fixed: "lower_char c = d \<Longrightarrow> code_of d < 97 \<or> 122 < code_of d \<Longrightarrow> c = d"
  by (auto simp: lower_char_def split: if_splits)

lemma lower_char_literals [simp]:
  "lower_char CHR ''A'' = CHR ''a''" "lower_char CHR ''B'' = CHR ''b''"
  "lower_char CHR ''C'' = CHR ''c''" "lower_char CHR ''D'' = CHR ''d''"
  "lower_char CHR ''E'' = CHR ''e''" "lower_char CHR ''F'' = CHR ''f''"
  "lower_char CHR ''G'' = CHR ''g''" "lower_char CHR ''H'' = CHR ''h''"
  "lower_char CHR ''I'' = CHR ''i''" "lower_char CHR ''J'' = CHR ''j''"
  "lower_char CHR ''K'' = CHR ''k''" "lower_char CHR ''L'' = CHR ''l''"
  "lower_char CHR ''M'' = CHR ''m''" "lower_char CHR ''N'' = CHR ''n''"
  "lower_char CHR ''O'' = CHR ''o''" "lower_char CHR ''P'' = CHR ''p''"
  "lower_char CHR ''Q'' = CHR ''q''" "lower_char CHR ''R'' = CHR ''r''"
  "lower_char CHR ''S'' = CHR ''s''" "lower_char CHR ''T'' = CHR ''t''"
  "lower_char CHR ''U'' = CHR ''u''" "lower_char CHR ''V'' = CHR ''v''"
  "lower_char CHR ''W'' = CHR ''w''" "lower_char CHR ''X'' = CHR ''x''"
  "lower_char CHR ''Y'' = CHR ''y''" "lower_char CHR ''Z'' = CHR ''z''"
  "lower_char CHR ''a'' = CHR ''a''" "lower_char CHR ''b'' = CHR ''b''"
  "lower_char CHR ''c'' = CHR ''c''" "lower_char CHR ''d'' = CHR ''d''"
  "lower_char CHR ''e'' = CHR ''e''" "lower_char CHR ''f'' = CHR ''f''"
  "lower_char CHR ''g'' = CHR ''g''" "lower_char CHR ''h'' = CHR ''h''"
  "lower_char CHR ''i'' = CHR ''i''" "lower_char CHR ''j'' = CHR ''j''"
  "lower_char CHR ''k'' = CHR ''k''" "lower_char CHR ''l'' = CHR ''l''"
  "lower_char CHR ''m'' = CHR ''m''" "lower_char CHR ''n'' = CHR ''n''"
  "lower_char CHR ''o'' = CHR ''o''" "lower_char CHR ''p'' = CHR ''p''"
  "lower_char CHR ''q'' = CHR ''q''" "lower_char CHR ''r'' = CHR ''r''"
  "lower_char CHR ''s'' = CHR ''s''" "lower_char CHR ''t'' = CHR ''t''"
  "lower_char CHR ''u'' = CHR ''u''" "lower_char CHR ''v'' = CHR ''v''"
  "lower_char CHR ''w'' = CHR ''w''" "lower_char CHR ''x'' = CHR ''x''"
  "lower_char CHR ''y'' = CHR ''y''" "lower_char CHR ''z'' = CHR ''z''"
  "lower_char CHR ''0'' = CHR ''0''" "lower_char CHR ''1'' = CHR ''1''"
  "lower_char CHR ''2'' = CHR ''2''" "lower_char CHR ''3'' = CHR ''3''"
  "lower_char CHR ''4'' = CHR ''4''" "lower_char CHR ''5'' = CHR ''5''"
  "lower_char CHR ''6'' = CHR ''6''" "lower_char CHR ''7'' = CHR ''7''"
  "lower_char CHR ''8'' = CHR ''8''" "lower_char CHR ''9'' = CHR ''9''"
  "lower_char CHR ''-'' = CHR ''-''" "lower_char CHR ''.'' = CHR ''.''"
  "lower_char CHR ''*'' = CHR ''*''" "lower_char CHR ''/'' = CHR ''/''"
  "lower_char CHR '':'' = CHR '':''" "lower_char CHR ''_'' = CHR ''_''"
  "lower_char CHR ''#'' = CHR ''#''" "lower_char CHR '' '' = CHR '' ''"
  by code_simp+

section \<open>Trimming\<close>

definition trim_start :: "string \<Rightarrow> string" where
  "trim_start = dropWhile is_ws"

definition trim_end :: "string \<Rightarrow> string" where
  "trim_end s = rev (dropWhile is_ws (rev s))"

definition trim :: "string \<Rightarrow> string" where
  "trim s = trim_end (trim_start s)"

text \<open>\<open>trim_end_matches(c)\<close> and \<open>trim_start_matches(c)\<close> for one character.\<close>

definition trim_end_matches :: "char \<Rightarrow> string \<Rightarrow> string" where
  "trim_end_matches c s = rev (dropWhile (\<lambda>d. d = c) (rev s))"

definition trim_start_matches :: "char \<Rightarrow> string \<Rightarrow> string" where
  "trim_start_matches c s = dropWhile (\<lambda>d. d = c) s"

text \<open>A string that trimming leaves alone.\<close>

definition trimmed :: "string \<Rightarrow> bool" where
  "trimmed s = (trim s = s)"

lemma trim_Nil [simp]: "trim [] = []"
  by (simp add: trim_def trim_start_def trim_end_def)

lemma trim_end_Nil_iff: "trim_end s = [] \<longleftrightarrow> (\<forall>c\<in>set s. is_ws c)"
  by (simp add: trim_end_def dropWhile_eq_Nil_conv)

lemma trim_Nil_iff: "trim s = [] \<longleftrightarrow> (\<forall>c\<in>set s. is_ws c)"
proof -
  have "(\<forall>c\<in>set (dropWhile is_ws s). is_ws c) \<longleftrightarrow> (\<forall>c\<in>set s. is_ws c)"
    by (induction s) auto
  then show ?thesis by (simp add: trim_def trim_start_def trim_end_Nil_iff)
qed

lemma trim_nonempty_iff:
  assumes "s \<noteq> []"
  shows "trim s = s \<longleftrightarrow> \<not> is_ws (hd s) \<and> \<not> is_ws (last s)"
proof
  assume eq: "trim s = s"
  have "length (trim_end t) \<le> length t" for t
    by (simp add: trim_end_def) (metis length_dropWhile_le length_rev)
  moreover have "length (trim_start s) \<le> length s"
    by (simp add: trim_start_def length_dropWhile_le)
  ultimately have "length (trim_start s) = length s"
    using eq by (metis trim_def le_antisym)
  then have ts: "trim_start s = s"
    by (metis trim_start_def append_eq_append_conv append_self_conv2 takeWhile_dropWhile_id)
  then have h: "\<not> is_ws (hd s)"
    using assms by (metis trim_start_def hd_dropWhile dropWhile_eq_Nil_conv)
  have "rev (dropWhile is_ws (rev s)) = s"
    using eq ts by (simp add: trim_def trim_end_def)
  then have "dropWhile is_ws (rev s) = rev s" by (metis rev_rev_ident)
  then have "\<not> is_ws (hd (rev s))"
    using assms by (metis dropWhile_eq_Nil_conv hd_dropWhile rev_is_Nil_conv)
  with h assms show "\<not> is_ws (hd s) \<and> \<not> is_ws (last s)" by (simp add: hd_rev)
next
  assume a: "\<not> is_ws (hd s) \<and> \<not> is_ws (last s)"
  then have "trim_start s = s"
    using assms by (cases s) (simp_all add: trim_start_def)
  moreover have "dropWhile is_ws (rev s) = rev s"
    using a assms by (cases s rule: rev_cases) simp_all
  ultimately show "trim s = s" by (simp add: trim_def trim_end_def)
qed

lemma trim_cases: "trim s = [] \<or> (\<not> is_ws (hd (trim s)) \<and> \<not> is_ws (last (trim s)))"
proof (cases "trim s = []")
  case False
  let ?t = "dropWhile is_ws s"
  have t: "?t \<noteq> []"
    using False unfolding trim_def trim_start_def trim_end_def by fastforce
  then have h: "\<not> is_ws (hd ?t)" by (metis hd_dropWhile)
  have r: "dropWhile is_ws (rev ?t) \<noteq> []"
    using False by (simp add: trim_def trim_start_def trim_end_def)
  then have l: "\<not> is_ws (hd (dropWhile is_ws (rev ?t)))" by (metis hd_dropWhile)
  obtain w where w: "rev ?t = w @ dropWhile is_ws (rev ?t)"
    by (metis takeWhile_dropWhile_id)
  then have "?t = rev (dropWhile is_ws (rev ?t)) @ rev w"
    by (metis rev_append rev_rev_ident)
  then have "hd ?t = hd (rev (dropWhile is_ws (rev ?t)))"
    using r by (metis hd_append2 rev_is_Nil_conv)
  with h l r show ?thesis
    by (simp add: trim_def trim_start_def trim_end_def last_rev)
qed simp

lemma trim_idem [simp, str_simps]: "trim (trim s) = trim s"
  using trim_cases [of s] trim_nonempty_iff [of "trim s"] by (cases "trim s = []") simp_all

lemma trim_to_lower [simp, str_simps]: "trim (to_lower s) = to_lower (trim s)"
proof -
  have d: "dropWhile is_ws (map lower_char t) = map lower_char (dropWhile is_ws t)" for t
    by (induction t) auto
  show ?thesis
    by (simp add: trim_def trim_start_def trim_end_def to_lower_def d rev_map)
qed

section \<open>Prefixes, suffixes, searching\<close>

text \<open>\<open>starts_with\<close>, \<open>ends_with\<close>, \<open>contains\<close> of a string pattern are the library's prefix,
  suffix and sublist; the stripping and searching functions return options as in Rust.\<close>

abbreviation starts_with :: "string \<Rightarrow> string \<Rightarrow> bool" where
  "starts_with s p \<equiv> prefix p s"

abbreviation ends_with :: "string \<Rightarrow> string \<Rightarrow> bool" where
  "ends_with s p \<equiv> suffix p s"

abbreviation contains :: "string \<Rightarrow> string \<Rightarrow> bool" where
  "contains s p \<equiv> sublist p s"

definition strip_prefix :: "string \<Rightarrow> string \<Rightarrow> string option" where
  "strip_prefix p s = (if prefix p s then Some (drop (length p) s) else None)"

text \<open>\<open>s.find(c)\<close>, \<open>s.split_once(c)\<close> and \<open>s.rsplit_once(c)\<close> of a character.\<close>

fun find_char :: "char \<Rightarrow> string \<Rightarrow> nat option" where
  "find_char c [] = None"
| "find_char c (d # s) = (if d = c then Some 0 else map_option Suc (find_char c s))"

definition split_once :: "char \<Rightarrow> string \<Rightarrow> (string \<times> string) option" where
  "split_once c s = (if c \<in> set s
     then Some (takeWhile (\<lambda>d. d \<noteq> c) s, tl (dropWhile (\<lambda>d. d \<noteq> c) s)) else None)"

definition rsplit_once :: "char \<Rightarrow> string \<Rightarrow> (string \<times> string) option" where
  "rsplit_once c s = (case split_once c (rev s) of
     None \<Rightarrow> None | Some (a, b) \<Rightarrow> Some (rev b, rev a))"

lemma strip_prefix_append [simp]: "strip_prefix p (p @ s) = Some s"
  by (simp add: strip_prefix_def)

lemma strip_prefix_Some_iff: "strip_prefix p s = Some r \<longleftrightarrow> s = p @ r"
  by (auto simp: strip_prefix_def prefix_def)

lemma find_char_Some:
  "find_char c s = Some i \<Longrightarrow> i < length s \<and> s ! i = c \<and> c \<notin> set (take i s)"
  by (induction s arbitrary: i) (auto split: if_splits simp: nth_Cons')

lemma find_char_None_iff: "find_char c s = None \<longleftrightarrow> c \<notin> set s"
  by (induction s) auto

lemma find_char_append [simp]: "c \<notin> set s \<Longrightarrow> find_char c (s @ c # t) = Some (length s)"
  by (induction s) auto

lemma split_once_append [simp]:
  "c \<notin> set a \<Longrightarrow> split_once c (a @ c # b) = Some (a, b)"
  unfolding split_once_def by (induction a) auto

lemma split_once_None [simp]: "c \<notin> set s \<Longrightarrow> split_once c s = None"
  by (simp add: split_once_def)

lemma split_once_SomeD:
  "split_once c s = Some (a, b) \<Longrightarrow> s = a @ c # b \<and> c \<notin> set a"
proof -
  assume a: "split_once c s = Some (a, b)"
  then have "c \<in> set s" by (auto simp: split_once_def split: if_splits)
  then obtain u v where "s = u @ c # v" "c \<notin> set u"
    by (meson split_list_first)
  with a show ?thesis by simp
qed

lemma rsplit_once_append [simp]:
  "c \<notin> set b \<Longrightarrow> rsplit_once c (a @ c # b) = Some (a, b)"
  by (simp add: rsplit_once_def)

lemma rsplit_once_None [simp]: "c \<notin> set s \<Longrightarrow> rsplit_once c s = None"
  by (simp add: rsplit_once_def)

section \<open>Splitting and joining\<close>

text \<open>\<open>s.split(c)\<close>: the pieces between the occurrences of a character, never empty.\<close>

fun split_on :: "char \<Rightarrow> string \<Rightarrow> string list" where
  "split_on c [] = [[]]"
| "split_on c (d # s) =
     (if d = c then [] # split_on c s
      else (case split_on c s of [] \<Rightarrow> [[d]] | p # ps \<Rightarrow> (d # p) # ps))"

text \<open>\<open>s.split_whitespace()\<close>: the maximal runs of other characters.\<close>

fun split_ws_acc :: "string \<Rightarrow> string \<Rightarrow> string list" where
  "split_ws_acc acc [] = (if acc = [] then [] else [rev acc])"
| "split_ws_acc acc (c # s) =
     (if is_ws c then (if acc = [] then split_ws_acc [] s else rev acc # split_ws_acc [] s)
      else split_ws_acc (c # acc) s)"

definition split_ws :: "string \<Rightarrow> string list" where
  "split_ws s = split_ws_acc [] s"

text \<open>\<open>s.splitn(n, c)\<close>: at most \<open>n\<close> pieces, the last one unsplit.\<close>

fun splitn :: "nat \<Rightarrow> char \<Rightarrow> string \<Rightarrow> string list" where
  "splitn 0 c s = []"
| "splitn (Suc 0) c s = [s]"
| "splitn (Suc (Suc n)) c s = (case split_once c s of
     None \<Rightarrow> [s] | Some (a, b) \<Rightarrow> a # splitn (Suc n) c b)"

text \<open>\<open>s.lines()\<close>: pieces ended by a line feed, which is dropped together with one carriage
  return before it; a last piece without a line feed is a line when it is not empty.\<close>

definition strip_cr :: "string \<Rightarrow> string" where
  "strip_cr s = (if s \<noteq> [] \<and> last s = CR then butlast s else s)"

fun lines_acc :: "string \<Rightarrow> string \<Rightarrow> string list" where
  "lines_acc acc [] = (if acc = [] then [] else [rev acc])"
| "lines_acc acc (c # s) =
     (if c = LF then strip_cr (rev acc) # lines_acc [] s else lines_acc (c # acc) s)"

definition lines :: "string \<Rightarrow> string list" where
  "lines s = lines_acc [] s"

text \<open>\<open>parts.join(sep)\<close>.\<close>

fun join :: "string \<Rightarrow> string list \<Rightarrow> string" where
  "join sep [] = []"
| "join sep [s] = s"
| "join sep (s # t # ts) = s @ sep @ join sep (t # ts)"

lemma split_on_nonempty [simp]: "split_on c s \<noteq> []"
  by (cases s) (auto split: list.splits)

lemma split_on_append [simp]:
  "c \<notin> set a \<Longrightarrow> split_on c (a @ c # b) = a # split_on c b"
  by (induction a) auto

lemma split_on_single [simp]: "c \<notin> set a \<Longrightarrow> split_on c a = [a]"
  by (induction a) auto

lemma split_on_no_sep: "p \<in> set (split_on c s) \<Longrightarrow> c \<notin> set p"
proof (induction s arbitrary: p)
  case (Cons d s)
  then show ?case by (cases "split_on c s") (auto split: if_splits)
qed simp

lemma set_split_on: "p \<in> set (split_on c s) \<Longrightarrow> set p \<subseteq> set s"
proof -
  have "\<forall>p\<in>set (split_on c s). set p \<subseteq> set s" by (induction s) (auto split: list.splits)
  then show "p \<in> set (split_on c s) \<Longrightarrow> set p \<subseteq> set s" by blast
qed

lemma split_on_join:
  "ls \<noteq> [] \<Longrightarrow> \<forall>l\<in>set ls. c \<notin> set l \<Longrightarrow> split_on c (join [c] ls) = ls"
  by (induction "[c]" ls rule: join.induct) auto

lemma join_split_on [simp]: "join [c] (split_on c s) = s"
proof (induction s)
  case (Cons d s)
  obtain p ps where ps: "split_on c s = p # ps" by (cases "split_on c s") auto
  with Cons show ?case by (cases ps) auto
qed simp

lemma lines_acc_prefix:
  "LF \<notin> set l \<Longrightarrow> lines_acc acc (l @ LF # s) = strip_cr (rev acc @ l) # lines_acc [] s"
  by (induction l arbitrary: acc) auto

lemma lines_crlf [simp, str_simps]:
  "LF \<notin> set l \<Longrightarrow> lines (l @ CR # LF # s) = l # lines s"
  using lines_acc_prefix [of "l @ [CR]" "[]" s] by (simp add: lines_def strip_cr_def)

lemma lines_crlf_list:
  "\<forall>l\<in>set ls. LF \<notin> set l \<Longrightarrow> lines (concat (map (\<lambda>l. l @ crlf) ls) @ s) = ls @ lines s"
  by (induction ls) simp_all

lemma lines_Nil [simp]: "lines [] = []"
  by (simp add: lines_def)

lemma join_crlf_terminated:
  "ls \<noteq> [] \<Longrightarrow> join sep ls @ sep = concat (map (\<lambda>l. l @ sep) ls)"
  by (induction sep ls rule: join.induct) auto

lemma lines_no_LF_acc: "l \<in> set (lines_acc acc s) \<Longrightarrow> LF \<notin> set acc \<Longrightarrow> LF \<notin> set l"
proof (induction acc s rule: lines_acc.induct)
  case (2 acc c s)
  have "set (strip_cr (rev acc)) \<subseteq> set acc"
    by (auto simp: strip_cr_def dest: in_set_butlastD list.set_sel(2))
  with 2 show ?case by (auto split: if_splits)
qed (auto split: if_splits)

lemma lines_no_LF: "l \<in> set (lines s) \<Longrightarrow> LF \<notin> set l"
  using lines_no_LF_acc [of l "[]" s] by (simp add: lines_def)

section \<open>Numbers as text\<close>

text \<open>Decimal \<open>Display\<close> of an unsigned integer, and \<open>parse\<close> into a type with largest value
  \<open>mx\<close>: one optional plus sign, at least one digit, nothing else, no overflow.\<close>

definition digit_char :: "nat \<Rightarrow> char" where
  "digit_char n = char_of (48 + n)"

fun show_nat :: "nat \<Rightarrow> string" where
  "show_nat n = (if n < 10 then [digit_char n] else show_nat (n div 10) @ [digit_char (n mod 10)])"

declare show_nat.simps [simp del]

definition digits_value :: "nat \<Rightarrow> string \<Rightarrow> nat" where
  "digits_value = foldl (\<lambda>v c. v * 10 + (code_of c - 48))"

definition parse_uint :: "nat \<Rightarrow> string \<Rightarrow> nat option" where
  "parse_uint mx s = (let d = (case s of [] \<Rightarrow> [] | c # t \<Rightarrow> if c = CHR ''+'' then t else s) in
     if d \<noteq> [] \<and> list_all is_digit d \<and> digits_value 0 d \<le> mx then Some (digits_value 0 d) else None)"

abbreviation "u16_max \<equiv> (65535 :: nat)"
abbreviation "u64_max \<equiv> (18446744073709551615 :: nat)"

definition parse_u16 :: "string \<Rightarrow> u16 option" where
  "parse_u16 s = map_option word_of_nat (parse_uint u16_max s)"

definition show_u16 :: "u16 \<Rightarrow> string" where
  "show_u16 w = show_nat (unat w)"

lemma is_digit_digit_char [simp]: "n < 10 \<Longrightarrow> is_digit (digit_char n)"
  by (simp add: is_digit_def digit_char_def)

lemma code_of_digit_char [simp]: "n < 10 \<Longrightarrow> code_of (digit_char n) = 48 + n"
  by (simp add: digit_char_def)

lemma show_nat_nonempty [simp]: "show_nat n \<noteq> []"
  by (subst show_nat.simps) simp

lemma show_nat_digits: "list_all is_digit (show_nat n)"
proof (induction n rule: show_nat.induct)
  case (1 n)
  then show ?case by (subst show_nat.simps) simp
qed

lemma show_nat_digit: "c \<in> set (show_nat n) \<Longrightarrow> is_digit c"
  using show_nat_digits [of n] by (simp add: list_all_iff)

lemma digits_value_show_nat [simp]: "digits_value 0 (show_nat n) = n"
proof (induction n rule: show_nat.induct)
  case (1 n)
  show ?case
  proof (cases "n < 10")
    case True
    then show ?thesis by (subst show_nat.simps) (simp add: digits_value_def)
  next
    case False
    with 1 have "digits_value 0 (show_nat (n div 10)) = n div 10" by simp
    with False show ?thesis by (subst show_nat.simps) (simp add: digits_value_def)
  qed
qed

lemma show_nat_no_plus: "show_nat n = c # t \<Longrightarrow> c \<noteq> CHR ''+''"
  using show_nat_digit [of c n] by (auto simp: is_digit_def code_of_def)

lemma parse_uint_show [simp, str_simps]: "n \<le> mx \<Longrightarrow> parse_uint mx (show_nat n) = Some n"
proof -
  assume n: "n \<le> mx"
  obtain c t where ct: "show_nat n = c # t" by (cases "show_nat n") auto
  have d: "(case show_nat n of [] \<Rightarrow> [] | c # t \<Rightarrow> if c = CHR ''+'' then t else show_nat n) = show_nat n"
    using show_nat_no_plus [OF ct] by (simp add: ct)
  show ?thesis unfolding parse_uint_def Let_def d using n by (simp add: show_nat_digits)
qed

lemma parse_uint_bound: "parse_uint mx s = Some n \<Longrightarrow> n \<le> mx"
  by (auto simp: parse_uint_def Let_def split: if_splits)

lemma parse_u16_show [simp, str_simps]: "parse_u16 (show_u16 w) = Some w"
proof -
  have "unat w \<le> u16_max" using unat_u16_less [of w] by linarith
  then show ?thesis by (simp add: parse_u16_def show_u16_def)
qed

text \<open>\<open>from_str_radix(s, 16)\<close> of an unsigned type.\<close>

definition hex_value :: "char \<Rightarrow> nat option" where
  "hex_value c = (let n = code_of c in
     if 48 \<le> n \<and> n \<le> 57 then Some (n - 48)
     else if 97 \<le> n \<and> n \<le> 102 then Some (n - 87)
     else if 65 \<le> n \<and> n \<le> 70 then Some (n - 55) else None)"

fun hex_digits_value :: "nat \<Rightarrow> string \<Rightarrow> nat option" where
  "hex_digits_value v [] = Some v"
| "hex_digits_value v (c # s) = (case hex_value c of
     None \<Rightarrow> None | Some d \<Rightarrow> hex_digits_value (v * 16 + d) s)"

definition parse_hex :: "nat \<Rightarrow> string \<Rightarrow> nat option" where
  "parse_hex mx s = (let d = (case s of [] \<Rightarrow> [] | c # t \<Rightarrow> if c = CHR ''+'' then t else s) in
     if d = [] then None else (case hex_digits_value 0 d of
       None \<Rightarrow> None | Some v \<Rightarrow> if v \<le> mx then Some v else None))"

section \<open>UTF-8\<close>

text \<open>
  The decoder behind \<open>String::from_utf8_lossy\<close> and \<open>str::from_utf8\<close>: \<open>utf8_chunk\<close> gives, for
  a non-empty byte string, whether the first sequence is well formed and how many bytes it (or
  the maximal invalid prefix that is replaced by one U+FFFD) takes.
\<close>

definition in_rng :: "nat \<Rightarrow> nat \<Rightarrow> string \<Rightarrow> nat \<Rightarrow> bool" where
  "in_rng lo hi s i = (i < length s \<and> lo \<le> code_of (s ! i) \<and> code_of (s ! i) \<le> hi)"

definition utf8_chunk :: "string \<Rightarrow> bool \<times> nat" where
  "utf8_chunk s = (let b = code_of (hd s) in
     if b < 128 then (True, 1)
     else if 194 \<le> b \<and> b \<le> 223 then (if in_rng 128 191 s 1 then (True, 2) else (False, 1))
     else if 224 \<le> b \<and> b \<le> 239 then
       (let lo = (if b = 224 then 160 else 128); hi = (if b = 237 then 159 else 191) in
        if \<not> in_rng lo hi s 1 then (False, 1)
        else if \<not> in_rng 128 191 s 2 then (False, 2) else (True, 3))
     else if 240 \<le> b \<and> b \<le> 244 then
       (let lo = (if b = 240 then 144 else 128); hi = (if b = 244 then 143 else 191) in
        if \<not> in_rng lo hi s 1 then (False, 1)
        else if \<not> in_rng 128 191 s 2 then (False, 2)
        else if \<not> in_rng 128 191 s 3 then (False, 3) else (True, 4))
     else (False, 1))"

lemma utf8_chunk_pos: "0 < snd (utf8_chunk s)"
  by (simp add: utf8_chunk_def Let_def)

definition replacement :: string where
  "replacement = [CHR 0xEF, CHR 0xBF, CHR 0xBD]"

function utf8_lossy :: "string \<Rightarrow> string" where
  "utf8_lossy s = (if s = [] then [] else
     (case utf8_chunk s of (ok, n) \<Rightarrow>
       (if ok then take n s else replacement) @ utf8_lossy (drop n s)))"
  by pat_completeness auto
termination
proof (relation "measure length", goal_cases)
  case (2 s ok n)
  then have "0 < n" using utf8_chunk_pos [of s] by (metis snd_conv)
  with 2 show ?case by (cases s) auto
qed simp

function utf8_valid :: "string \<Rightarrow> bool" where
  "utf8_valid s = (if s = [] then True else
     (case utf8_chunk s of (ok, n) \<Rightarrow> if ok then utf8_valid (drop n s) else False))"
  by pat_completeness auto
termination
proof (relation "measure length", goal_cases)
  case (2 s ok n)
  then have "0 < n" using utf8_chunk_pos [of s] by (metis snd_conv)
  with 2 show ?case by (cases s) auto
qed simp

declare utf8_lossy.simps [simp del] utf8_valid.simps [simp del]

lemma utf8_lossy_valid [str_simps]: "utf8_valid s \<Longrightarrow> utf8_lossy s = s"
proof (induction s rule: utf8_lossy.induct)
  case (1 s)
  show ?case
  proof (cases "s = []")
    case True
    then show ?thesis by (simp add: utf8_lossy.simps)
  next
    case False
    obtain ok n where c: "utf8_chunk s = (ok, n)" by (cases "utf8_chunk s")
    with 1(2) False have "ok" "utf8_valid (drop n s)"
      by (auto simp: utf8_valid.simps [of s] split: if_splits)
    with 1(1) False c show ?thesis by (simp add: utf8_lossy.simps [of s])
  qed
qed

lemma utf8_chunk_ascii: "code_of c < 128 \<Longrightarrow> utf8_chunk (c # s) = (True, 1)"
  by (simp add: utf8_chunk_def)

lemma utf8_valid_ascii: "is_ascii s \<Longrightarrow> utf8_valid s"
proof (induction s)
  case Nil
  then show ?case by (simp add: utf8_valid.simps)
next
  case (Cons c s)
  then have "utf8_chunk (c # s) = (True, 1)" "utf8_valid s"
    by (simp_all add: utf8_chunk_ascii is_ascii_def)
  then show ?case by (simp add: utf8_valid.simps [of "c # s"])
qed

lemma utf8_lossy_ascii [str_simps]: "is_ascii s \<Longrightarrow> utf8_lossy s = s"
  by (simp add: utf8_lossy_valid utf8_valid_ascii)

section \<open>Strings as bytes\<close>

definition bytes_of :: "string \<Rightarrow> bytes" where
  "bytes_of = map (\<lambda>c. word_of_nat (code_of c))"

definition str_of :: "bytes \<Rightarrow> string" where
  "str_of = map (\<lambda>b. char_of (unat b))"

lemma str_of_bytes_of [simp, wire_simps]: "str_of (bytes_of s) = s"
  by (simp add: str_of_def bytes_of_def comp_def code_of_def unat_of_nat take_bit_nat_eq_self)

lemma bytes_of_str_of [simp, wire_simps]: "bytes_of (str_of b) = b"
proof -
  have "unat (word_of_nat (code_of (char_of (unat w))) :: u8) = unat w" for w :: u8
    using unat_u8_less [of w] by (simp only: code_of_char_of unat_word_of_nat_u8)
  then have "word_of_nat (code_of (char_of (unat w))) = w" for w :: u8
    by (rule unsigned_word_eqI)
  then show ?thesis by (simp add: str_of_def bytes_of_def comp_def)
qed

lemma length_bytes_of [simp]: "length (bytes_of s) = length s"
  and length_str_of [simp]: "length (str_of b) = length b"
  and bytes_of_append [simp]: "bytes_of (s @ t) = bytes_of s @ bytes_of t"
  and bytes_of_Nil [simp]: "bytes_of [] = []"
  by (simp_all add: bytes_of_def str_of_def)

end
