(* ===== verification/RustNet.thy ===== *)
theory RustNet
  imports RustStr
begin

text \<open>
  Addresses of the Rust standard library: \<open>IpAddr\<close>, its \<open>FromStr\<close> parser (dotted IPv4 without
  leading zeros, IPv6 with one \<open>::\<close> and an optional embedded IPv4 tail), its \<open>Display\<close>, and the
  tests \<open>is_loopback\<close>, \<open>is_unspecified\<close>. An address holds its octets, most significant first.
\<close>

section \<open>Addresses\<close>

datatype ipaddr = V4 (octets: bytes) | V6 (octets: bytes)

type_synonym sockaddr = "ipaddr \<times> u16"

abbreviation sa_ip :: "sockaddr \<Rightarrow> ipaddr" where "sa_ip \<equiv> fst"
abbreviation sa_port :: "sockaddr \<Rightarrow> u16" where "sa_port \<equiv> snd"

definition wf_ip :: "ipaddr \<Rightarrow> bool" where
  "wf_ip ip = (case ip of V4 b \<Rightarrow> length b = 4 | V6 b \<Rightarrow> length b = 16)"

definition is_ipv4 :: "ipaddr \<Rightarrow> bool" where
  "is_ipv4 ip = (case ip of V4 _ \<Rightarrow> True | V6 _ \<Rightarrow> False)"

definition ip4 :: "u8 \<Rightarrow> u8 \<Rightarrow> u8 \<Rightarrow> u8 \<Rightarrow> ipaddr" where
  "ip4 a b c d = V4 [a, b, c, d]"

definition is_loopback :: "ipaddr \<Rightarrow> bool" where
  "is_loopback ip = (case ip of V4 b \<Rightarrow> get_at 0 b = Some 127 | V6 b \<Rightarrow> b = replicate 15 0 @ [1])"

definition is_unspecified :: "ipaddr \<Rightarrow> bool" where
  "is_unspecified ip = (case ip of V4 b \<Rightarrow> b = replicate 4 0 | V6 b \<Rightarrow> b = replicate 16 0)"

abbreviation loopback4 :: ipaddr where "loopback4 \<equiv> ip4 127 0 0 1"
abbreviation unspecified4 :: ipaddr where "unspecified4 \<equiv> ip4 0 0 0 0"

lemma is_loopback_ip4 [simp]: "is_loopback (ip4 a b c d) \<longleftrightarrow> a = 127"
  by (simp add: is_loopback_def ip4_def get_at_def)

section \<open>Parsing\<close>

text \<open>\<open>read_number(radix, Some(max_digits), allow_zero_prefix)\<close> followed by the conversion into
  a type with largest value \<open>mx\<close>: every digit is consumed before the length is judged.\<close>

definition is_radix_digit :: "nat \<Rightarrow> char \<Rightarrow> bool" where
  "is_radix_digit radix c = (case hex_value c of None \<Rightarrow> False | Some d \<Rightarrow> d < radix)"

definition radix_value :: "nat \<Rightarrow> string \<Rightarrow> nat" where
  "radix_value radix = foldl (\<lambda>v c. v * radix + the (hex_value c)) 0"

definition read_number :: "nat \<Rightarrow> nat \<Rightarrow> bool \<Rightarrow> nat \<Rightarrow> string \<Rightarrow> (nat \<times> string) option" where
  "read_number radix max_digits zero_prefix mx s =
     (let ds = takeWhile (is_radix_digit radix) s; v = radix_value radix ds in
      if ds = [] \<or> max_digits < length ds then None
      else if \<not> zero_prefix \<and> hd ds = CHR ''0'' \<and> 1 < length ds then None
      else if mx < v then None else Some (v, drop (length ds) s))"

definition read_given :: "char \<Rightarrow> string \<Rightarrow> string option" where
  "read_given c s = (case s of [] \<Rightarrow> None | d # t \<Rightarrow> if d = c then Some t else None)"

definition read_sep :: "char \<Rightarrow> nat \<Rightarrow> (string \<Rightarrow> ('a \<times> string) option) \<Rightarrow> string \<Rightarrow> ('a \<times> string) option" where
  "read_sep c i p s = (if i = 0 then p s else
     (case read_given c s of None \<Rightarrow> None | Some t \<Rightarrow> p t))"

definition read_octet :: "string \<Rightarrow> (nat \<times> string) option" where
  "read_octet = read_number 10 3 False 255"

definition read_ipv4 :: "string \<Rightarrow> (nat list \<times> string) option" where
  "read_ipv4 s =
     (case read_octet s of None \<Rightarrow> None | Some (a, s1) \<Rightarrow>
     (case read_sep CHR ''.'' 1 read_octet s1 of None \<Rightarrow> None | Some (b, s2) \<Rightarrow>
     (case read_sep CHR ''.'' 1 read_octet s2 of None \<Rightarrow> None | Some (c, s3) \<Rightarrow>
     (case read_sep CHR ''.'' 1 read_octet s3 of None \<Rightarrow> None | Some (d, s4) \<Rightarrow>
       Some ([a, b, c, d], s4)))))"

text \<open>\<open>read_groups\<close>: \<open>k\<close> groups still to read, \<open>i\<close> already read. The result carries the groups
  and whether they end in an embedded IPv4 address.\<close>

fun read_groups :: "nat \<Rightarrow> nat \<Rightarrow> string \<Rightarrow> nat list \<times> bool \<times> string" where
  "read_groups 0 i s = ([], False, s)"
| "read_groups (Suc k) i s =
     (case (if 0 < k then read_sep CHR '':'' i read_ipv4 s else None) of
        Some (q, r) \<Rightarrow> ([q ! 0 * 256 + q ! 1, q ! 2 * 256 + q ! 3], True, r)
      | None \<Rightarrow> (case read_sep CHR '':'' i (read_number 16 4 True 65535) s of
          None \<Rightarrow> ([], False, s)
        | Some (g, r) \<Rightarrow> (case read_groups k (Suc i) r of (gs, v4, r') \<Rightarrow> (g # gs, v4, r'))))"

definition read_ipv6 :: "string \<Rightarrow> (nat list \<times> string) option" where
  "read_ipv6 s = (case read_groups 8 0 s of (hd_gs, v4, r) \<Rightarrow>
     if length hd_gs = 8 then Some (hd_gs, r)
     else if v4 then None
     else (case Option.bind (read_given CHR '':'' r) (read_given CHR '':'') of
        None \<Rightarrow> None
      | Some r2 \<Rightarrow> (case read_groups (8 - (length hd_gs + 1)) 0 r2 of (tl_gs, _, r3) \<Rightarrow>
          Some (hd_gs @ replicate (8 - length hd_gs - length tl_gs) 0 @ tl_gs, r3))))"

definition group_bytes :: "nat \<Rightarrow> bytes" where
  "group_bytes g = [word_of_nat (g div 256), word_of_nat (g mod 256)]"

text \<open>\<open>s.parse::<IpAddr>().ok()\<close>: the whole input must be one address.\<close>

definition parse_ip :: "string \<Rightarrow> ipaddr option" where
  "parse_ip s = (case read_ipv4 s of
       Some (q, r) \<Rightarrow> if r = [] then Some (V4 (map word_of_nat q)) else None
     | None \<Rightarrow> (case read_ipv6 s of
         Some (g, r) \<Rightarrow> if r = [] then Some (V6 (concat (map group_bytes g))) else None
       | None \<Rightarrow> None))"

section \<open>Printing\<close>

definition hex_digit :: "nat \<Rightarrow> char" where
  "hex_digit n = (if n < 10 then char_of (48 + n) else char_of (87 + n))"

fun show_hex :: "nat \<Rightarrow> string" where
  "show_hex n = (if n < 16 then [hex_digit n] else show_hex (n div 16) @ [hex_digit (n mod 16)])"

declare show_hex.simps [simp del]

fun zero_runs :: "nat \<Rightarrow> nat \<times> nat \<Rightarrow> nat \<times> nat \<Rightarrow> nat list \<Rightarrow> nat \<times> nat" where
  "zero_runs i cur longest [] = longest"
| "zero_runs i (st, len) longest (g # gs) =
     (if g = 0 then
        (let cur = (if len = 0 then i else st, len + 1) in
         zero_runs (i + 1) cur (if snd longest < snd cur then cur else longest) gs)
      else zero_runs (i + 1) (0, 0) longest gs)"

fun pair_groups :: "bytes \<Rightarrow> nat list" where
  "pair_groups (a # b # bs) = unat (from_be16 a b) # pair_groups bs"
| "pair_groups _ = []"

definition show_ip4 :: "bytes \<Rightarrow> string" where
  "show_ip4 b = join ''.'' (map (\<lambda>d. show_nat (unat d)) b)"

definition show_groups :: "nat list \<Rightarrow> string" where
  "show_groups gs = join '':'' (map show_hex gs)"

definition show_ip6 :: "bytes \<Rightarrow> string" where
  "show_ip6 b = (if take 12 b = replicate 10 0 @ [255, 255]
     then ''::ffff:'' @ show_ip4 (drop 12 b)
     else (let gs = pair_groups b; (st, len) = zero_runs 0 (0, 0) (0, 0) gs in
       if 1 < len then show_groups (take st gs) @ ''::'' @ show_groups (drop (st + len) gs)
       else show_groups gs))"

definition show_ip :: "ipaddr \<Rightarrow> string" where
  "show_ip ip = (case ip of V4 b \<Rightarrow> show_ip4 b | V6 b \<Rightarrow> show_ip6 b)"

section \<open>Printing and parsing IPv4 addresses agree\<close>

lemma hex_value_digit: "is_digit c \<Longrightarrow> hex_value c = Some (code_of c - 48)"
  by (simp add: is_digit_def hex_value_def Let_def)

lemma radix10_iff: "is_radix_digit 10 c = is_digit c"
  by (auto simp: is_radix_digit_def is_digit_def hex_value_def Let_def split: if_splits)

lemma radix_value_10_gen:
  "list_all is_digit s \<Longrightarrow> foldl (\<lambda>v c. v * 10 + the (hex_value c)) v s = digits_value v s"
  by (induction s arbitrary: v) (simp_all add: digits_value_def hex_value_digit)

lemma radix_value_10: "list_all is_digit s \<Longrightarrow> radix_value 10 s = digits_value 0 s"
  unfolding radix_value_def by (rule radix_value_10_gen)

lemma show_nat_hd_zero: "n \<noteq> 0 \<Longrightarrow> hd (show_nat n) \<noteq> CHR ''0''"
proof (induction n rule: show_nat.induct)
  case (1 n)
  show ?case
  proof (cases "n < 10")
    case True
    have "digit_char n \<noteq> CHR ''0''"
    proof
      assume "digit_char n = CHR ''0''"
      then have "code_of (digit_char n) = code_of (CHR ''0'')" by (rule arg_cong)
      with True 1(2) show False by (simp add: code_of_def digit_char_def)
    qed
    with True show ?thesis by (subst show_nat.simps) auto
  next
    case False
    then have "hd (show_nat (n div 10)) \<noteq> CHR ''0''" using 1(1) by simp
    with False show ?thesis by (subst show_nat.simps) simp
  qed
qed

lemma show_nat_length: "n < 10 ^ Suc k \<Longrightarrow> length (show_nat n) \<le> Suc k"
proof (induction k arbitrary: n)
  case 0
  then show ?case by (subst show_nat.simps) simp
next
  case (Suc k)
  then have "n div 10 < 10 ^ Suc k" by (simp add: less_mult_imp_div_less)
  with Suc.IH show ?case by (subst show_nat.simps) simp
qed

lemma read_octet_show:
  assumes "n < 256" "s = [] \<or> \<not> is_digit (hd s)"
  shows "read_octet (show_nat n @ s) = Some (n, s)"
proof -
  have tw: "takeWhile (is_radix_digit 10) (show_nat n @ s) = show_nat n"
  proof -
    have "takeWhile is_digit (show_nat n @ s) = show_nat n @ takeWhile is_digit s"
      by (rule takeWhile_append2) (rule show_nat_digit)
    moreover have "takeWhile is_digit s = []" using assms(2) by (cases s) auto
    ultimately show ?thesis by (simp add: radix10_iff [abs_def])
  qed
  have len: "length (show_nat n) \<le> 3"
    using show_nat_length [of n 2] assms(1) by simp
  have zero: "\<not> (hd (show_nat n) = CHR ''0'' \<and> 1 < length (show_nat n))"
  proof (cases "n = 0")
    case True
    then show ?thesis by (simp add: show_nat.simps)
  qed (simp add: show_nat_hd_zero)
  have v: "radix_value 10 (show_nat n) = n"
    by (simp add: radix_value_10 show_nat_digits)
  show ?thesis
    unfolding read_octet_def read_number_def Let_def tw v
    using len zero assms(1) by simp
qed

lemma is_digit_dot [simp]: "\<not> is_digit CHR ''.''"
  by (simp add: is_digit_def code_of_def)

lemma read_ipv4_show:
  assumes "s = [] \<or> \<not> is_digit (hd s)"
  shows "read_ipv4 (show_ip4 [a, b, c, d] @ s) = Some ([unat a, unat b, unat c, unat d], s)"
  using assms
  by (simp add: show_ip4_def read_ipv4_def read_octet_show read_sep_def read_given_def)

theorem parse_show_ip4: "parse_ip (show_ip (ip4 a b c d)) = Some (ip4 a b c d)"
proof -
  have "read_ipv4 (show_ip4 [a, b, c, d]) = Some ([unat a, unat b, unat c, unat d], [])"
    using read_ipv4_show [of "[]"] by simp
  then show ?thesis by (simp add: show_ip_def ip4_def parse_ip_def)
qed

lemma read_ipv4_length: "read_ipv4 s = Some (q, r) \<Longrightarrow> length q = 4"
  by (auto simp: read_ipv4_def split: option.splits)

lemma read_groups_length: "read_groups k i s = (gs, v, r) \<Longrightarrow> length gs \<le> k"
proof (induction k arbitrary: i s gs v r)
  case (Suc k)
  then show ?case
    by (fastforce split: option.splits if_splits prod.splits)
qed simp

lemma parse_ip_wf: "parse_ip s = Some ip \<Longrightarrow> wf_ip ip"
proof -
  assume a: "parse_ip s = Some ip"
  have cg: "length (concat (map group_bytes g)) = 2 * length g" for g
    by (induction g) (simp_all add: group_bytes_def)
  have v6: "length g = 8" if "read_ipv6 s = Some (g, r)" for g r
  proof -
    obtain h v r1 where h: "read_groups 8 0 s = (h, v, r1)" by (cases "read_groups 8 0 s")
    have "length h \<le> 8" using read_groups_length [OF h] .
    with that h show ?thesis
      by (auto simp: read_ipv6_def split: if_splits option.splits prod.splits
          dest!: read_groups_length)
  qed
  show ?thesis
    using a by (auto simp: parse_ip_def wf_ip_def cg split: option.splits if_splits prod.splits
        dest!: read_ipv4_length v6)
qed

end
