(* ===== verification/Model.thy ===== *)
theory Model
  imports RustNet
begin

text \<open>
  The data model of \<open>crates/core/src/model.rs\<close> and the settings of
  \<open>crates/core/src/settings.rs\<close>: proxy modes, acceleration projects (a tree whose leaves carry
  the domain patterns), groups, the tolerant reader of the address field, and the persistence
  of the enabled leaves (\<open>enabled_ids\<close>, \<open>restore_enable\<close>).
\<close>

section \<open>Enumerations\<close>

datatype proxy_mode = Hosts | DnsIntercept | Pac | System

definition available_modes :: "proxy_mode list" where
  "available_modes = [Hosts, DnsIntercept, Pac, System]"

fun mode_as_str :: "proxy_mode \<Rightarrow> string" where
  "mode_as_str Hosts = ''Hosts''"
| "mode_as_str DnsIntercept = ''DNSIntercept''"
| "mode_as_str Pac = ''PAC''"
| "mode_as_str System = ''System''"

definition mode_from_str :: "string \<Rightarrow> proxy_mode option" where
  "mode_from_str s =
     (if s = ''Hosts'' \<or> s = ''hosts'' then Some Hosts
      else if s = ''DnsIntercept'' \<or> s = ''dnsIntercept'' then Some DnsIntercept
      else if s = ''Pac'' \<or> s = ''pac'' then Some Pac
      else if s = ''System'' \<or> s = ''system'' then Some System
      else None)"

datatype proxy_type = Normal | ServerAccelerate

datatype ext_proxy_type = ExtHttp | ExtSocks4 | ExtSocks5

fun as_scheme :: "ext_proxy_type \<Rightarrow> string" where
  "as_scheme ExtHttp = ''http''"
| "as_scheme ExtSocks4 = ''socks4''"
| "as_scheme ExtSocks5 = ''socks5''"

section \<open>Acceleration projects\<close>

text \<open>\<open>AccelerateProject\<close>: its scalar fields, and the children in \<open>items\<close>. A project without
  children is a leaf.\<close>

record attrs =
  p_id :: string
  p_name :: string
  p_order :: "32 word"
  p_type :: proxy_type
  match_domain_names :: string
  forward_domain_names :: "string option"
  ip_address :: "ipaddr list"
  ignore_ssl_cert_verification :: bool
  fake_server_name :: "string option"
  listen_domain_names :: string
  checked :: bool
  three_state :: "bool option"

datatype project = Project (attrs: attrs) (items: "project list")

record group =
  g_name :: string
  icon_url :: "string option"
  g_order :: "32 word"
  g_state :: "bool option"
  g_items :: "project list"

definition default_attrs :: attrs where
  "default_attrs = \<lparr>p_id = [], p_name = [], p_order = 0, p_type = Normal, match_domain_names = [],
     forward_domain_names = None, ip_address = [], ignore_ssl_cert_verification = False,
     fake_server_name = None, listen_domain_names = [], checked = False, three_state = None\<rparr>"

abbreviation is_on :: "attrs \<Rightarrow> bool" where
  "is_on a \<equiv> three_state a = Some True"

fun all_leaves :: "project \<Rightarrow> project list" where
  "all_leaves (Project a cs) = (if cs = [] then [Project a cs] else concat (map all_leaves cs))"

fun enabled_ids :: "project \<Rightarrow> string list" where
  "enabled_ids (Project a cs) =
     (if cs = [] then (if is_on a then [p_id a] else []) else concat (map enabled_ids cs))"

text \<open>The three-state value of a container: off, on, or indeterminate.\<close>

definition container_state :: "nat \<Rightarrow> nat \<Rightarrow> bool option" where
  "container_state on tot = (if on = 0 then Some False else if on = tot then Some True else None)"

definition on_count :: "project list \<Rightarrow> nat" where
  "on_count ls = length (filter (\<lambda>l. is_on (attrs l)) ls)"

fun restore_enable :: "string set \<Rightarrow> project \<Rightarrow> project" where
  "restore_enable en (Project a cs) =
     (if cs = [] then Project (a\<lparr>three_state := Some (p_id a \<in> en)\<rparr>) []
      else (let cs' = map (restore_enable en) cs; ls = concat (map all_leaves cs') in
        Project (a\<lparr>three_state := container_state (on_count ls) (length ls)\<rparr>) cs'))"

declare all_leaves.simps [simp del] enabled_ids.simps [simp del] restore_enable.simps [simp del]

lemma all_leaves_leaf [simp]: "all_leaves (Project a []) = [Project a []]"
  and all_leaves_node: "cs \<noteq> [] \<Longrightarrow> all_leaves (Project a cs) = concat (map all_leaves cs)"
  by (simp_all add: all_leaves.simps)

lemma all_leaves_nonempty [simp]: "all_leaves p \<noteq> []"
proof (induction p)
  case (Project a cs)
  then show ?case by (cases cs) (auto simp: all_leaves.simps)
qed

lemma all_leaves_are_leaves: "l \<in> set (all_leaves p) \<Longrightarrow> items l = []"
  by (induction p) (auto simp: all_leaves.simps split: if_splits)

lemma enabled_ids_leaves:
  "enabled_ids p = map (\<lambda>l. p_id (attrs l)) (filter (\<lambda>l. is_on (attrs l)) (all_leaves p))"
proof (induction p)
  case (Project a cs)
  then show ?case
    by (auto simp: enabled_ids.simps all_leaves.simps filter_concat map_concat comp_def
        intro!: arg_cong [of _ _ concat])
qed

text \<open>Restoring marks exactly the leaves and keeps everything but the three-state values.\<close>

definition mark_leaf :: "string set \<Rightarrow> project \<Rightarrow> project" where
  "mark_leaf en l = Project ((attrs l)\<lparr>three_state := Some (p_id (attrs l) \<in> en)\<rparr>) []"

lemma restore_enable_leaves: "all_leaves (restore_enable en p) = map (mark_leaf en) (all_leaves p)"
proof (induction p)
  case (Project a cs)
  then show ?case
    by (auto simp: restore_enable.simps all_leaves.simps Let_def mark_leaf_def map_concat comp_def
        intro!: arg_cong [of _ _ concat])
qed

section \<open>The address field of the manifest\<close>

text \<open>The shapes \<open>de_ip_list\<close> distinguishes; a JSON number is given by the text
  \<open>Number::to_string\<close> prints.\<close>

datatype json = JNull | JBool bool | JNumber string | JString string | JArray "json list"
  | JObject "(string \<times> json) list"

definition is_ip_sep :: "char \<Rightarrow> bool" where
  "is_ip_sep c = (c = CHR '','' \<or> c = CHR '';'' \<or> is_ws c)"

fun split_pred :: "(char \<Rightarrow> bool) \<Rightarrow> string \<Rightarrow> string list" where
  "split_pred P [] = [[]]"
| "split_pred P (c # s) = (if P c then [] # split_pred P s
     else (case split_pred P s of [] \<Rightarrow> [[c]] | p # ps \<Rightarrow> (c # p) # ps))"

definition parse_ip_text :: "string \<Rightarrow> ipaddr list" where
  "parse_ip_text s = List.map_filter (\<lambda>t. parse_ip (trim t)) (split_pred is_ip_sep s)"

fun de_ip_list :: "json option \<Rightarrow> ipaddr list" where
  "de_ip_list None = []"
| "de_ip_list (Some JNull) = []"
| "de_ip_list (Some (JString s)) = parse_ip_text s"
| "de_ip_list (Some (JNumber n)) = parse_ip_text n"
| "de_ip_list (Some (JArray vs)) = concat (map (\<lambda>v. case v of
       JString s \<Rightarrow> parse_ip_text s | JNumber n \<Rightarrow> parse_ip_text n | _ \<Rightarrow> []) vs)"
| "de_ip_list (Some _) = []"

lemma parse_ip_text_wf: "ip \<in> set (parse_ip_text s) \<Longrightarrow> wf_ip ip"
  by (auto simp: parse_ip_text_def map_filter_def intro: parse_ip_wf)

section \<open>Settings\<close>

record proxy_settings =
  proxy_mode_of :: proxy_mode
  system_proxy_ip :: string
  system_proxy_port :: u16
  proxy_master_dns :: string
  use_doh :: bool
  custom_doh_address :: string
  enable_http_proxy_to_https :: bool
  enable_tls_decryption :: bool
  only_enable_proxy_script :: bool
  program_startup_run_proxy :: bool
  is_enable_script :: bool
  two_level_agent_enable :: bool
  two_level_agent_type :: ext_proxy_type
  two_level_agent_ip :: string
  two_level_agent_port :: u16
  two_level_agent_user :: string
  two_level_agent_password :: string
  support_proxy_services_status :: "string list"

definition default_settings :: proxy_settings where
  "default_settings = \<lparr>proxy_mode_of = Hosts, system_proxy_ip = ''0.0.0.0'', system_proxy_port = 26561,
     proxy_master_dns = ''223.5.5.5'', use_doh = True, custom_doh_address = [],
     enable_http_proxy_to_https = True, enable_tls_decryption = True,
     only_enable_proxy_script = False, program_startup_run_proxy = False, is_enable_script = True,
     two_level_agent_enable = False, two_level_agent_type = ExtSocks5,
     two_level_agent_ip = ''127.0.0.1'', two_level_agent_port = 7890,
     two_level_agent_user = [], two_level_agent_password = [],
     support_proxy_services_status = []\<rparr>"

text \<open>\<open>from_str\<close> does not read back what \<open>as_str\<close> writes for two of the four modes.\<close>

lemma mode_names_not_read_back:
  "map (\<lambda>m. mode_from_str (mode_as_str m)) available_modes = [Some Hosts, None, None, Some System]"
  by code_simp

section \<open>Properties\<close>

text \<open>What is persisted is what is restored: after \<open>restore_enable\<close> with a set of saved
  leaf ids, \<open>enabled_ids\<close> of the project lists exactly the saved ids that name a leaf of it, in
  manifest order; ids of containers and unknown ids are ignored.\<close>

theorem enabled_ids_restore:
  "enabled_ids (restore_enable en p) =
     filter (\<lambda>i. i \<in> en) (map (\<lambda>l. p_id (attrs l)) (all_leaves p))"
  by (simp add: enabled_ids_leaves restore_enable_leaves mark_leaf_def filter_map comp_def)

end
