(* ===== verification/UiState.thy ===== *)
theory UiState
  imports Model "HOL-Library.Char_ord" "HOL-Library.List_Lexorder" "HOL-Library.Multiset"
begin

text \<open>
  The pure UI logic of \<open>crates/ui/src/state.rs\<close>: toggling leaves, groups and containers of the
  acceleration tree with the recomputation of the three-state values, the log and traffic
  views, and the mapping between the proxy dialog and the settings.
\<close>

section \<open>Counting\<close>

definition count_domains :: "string \<Rightarrow> nat" where
  "count_domains s = length (filter (\<lambda>x. x \<noteq> []) (map trim (split_on CHR '';'' s)))"

fun project_counts :: "project \<Rightarrow> nat \<times> nat" where
  "project_counts (Project a cs) =
     (if cs = [] then ((if is_on a then 1 else 0), 1)
      else fold (\<lambda>(o', t) (n, m). (n + o', m + t)) (map project_counts cs) (0, 0))"

definition count_project_leaves :: "project \<Rightarrow> nat" where
  "count_project_leaves p = snd (project_counts p)"

definition count_group_leaves :: "group \<Rightarrow> nat" where
  "count_group_leaves g = sum_list (map count_project_leaves (g_items g))"

definition group_enabled :: "group \<Rightarrow> bool" where
  "group_enabled g =
     (let (n, m) = fold (\<lambda>(o', t) (n, m). (n + o', m + t)) (map project_counts (g_items g)) (0, 0)
      in 0 < m \<and> n = m)"

definition groups_enabled_ids :: "group list \<Rightarrow> string list" where
  "groups_enabled_ids gs = concat (map (\<lambda>g. concat (map enabled_ids (g_items g))) gs)"

declare project_counts.simps [simp del]

lemma fold_pair_add:
  "fold (\<lambda>(o', t) (n, m). (n + o', m + t)) xs (n0, m0) =
     ((n0 :: nat) + sum_list (map fst xs), (m0 :: nat) + sum_list (map snd xs))"
  by (induction xs arbitrary: n0 m0) auto

lemma on_count_append [simp]: "on_count (xs @ ys) = on_count xs + on_count ys"
  and on_count_Nil [simp]: "on_count [] = 0"
  by (simp_all add: on_count_def)

lemma on_count_concat: "on_count (concat xss) = sum_list (map on_count xss)"
  by (induction xss) simp_all

lemma project_counts_leaves:
  "project_counts p = (on_count (all_leaves p), length (all_leaves p))"
proof (induction p)
  case (Project a cs)
  have e: "map (fst \<circ> project_counts) cs = map (on_count \<circ> all_leaves) cs"
    "map (snd \<circ> project_counts) cs = map (length \<circ> all_leaves) cs"
    using Project by simp_all
  show ?case
  proof (cases "cs = []")
    case True
    then show ?thesis by (simp add: project_counts.simps on_count_def)
  next
    case False
    then show ?thesis
      by (simp add: project_counts.simps all_leaves.simps fold_pair_add e on_count_concat
          length_concat)
  qed
qed

section \<open>Toggling\<close>

fun each_leaf :: "(attrs \<Rightarrow> attrs) \<Rightarrow> project \<Rightarrow> project" where
  "each_leaf f (Project a cs) =
     (if cs = [] then Project (f a) [] else Project a (map (each_leaf f) cs))"

text \<open>\<open>set_leaf_in\<close> stops at the first leaf with the id; the second component tells whether one
  was found. The loop over the children is \<open>set_leaf_list\<close>.\<close>

fun set_leaf_in :: "string \<Rightarrow> bool \<Rightarrow> project \<Rightarrow> project \<times> bool"
  and set_leaf_list :: "string \<Rightarrow> bool \<Rightarrow> project list \<Rightarrow> project list \<times> bool" where
  "set_leaf_in i on (Project a cs) =
     (if cs = [] then
        (if p_id a = i then (Project (a\<lparr>three_state := Some on\<rparr>) [], True) else (Project a [], False))
      else (case set_leaf_list i on cs of (cs', found) \<Rightarrow> (Project a cs', found)))"
| "set_leaf_list i on [] = ([], False)"
| "set_leaf_list i on (c # cs) =
     (case set_leaf_in i on c of (c', found) \<Rightarrow>
        if found then (c' # cs, True)
        else (case set_leaf_list i on cs of (cs', found') \<Rightarrow> (c' # cs', found')))"

text \<open>\<open>derive\<close> recomputes the containers bottom up and returns the counts with the new tree.\<close>

fun derive :: "project \<Rightarrow> project \<times> nat \<times> nat"
  and derive_list :: "project list \<Rightarrow> project list \<times> nat \<times> nat" where
  "derive (Project a cs) =
     (if cs = [] then (Project a [], (if is_on a then 1 else 0), 1)
      else (case derive_list cs of (cs', n, m) \<Rightarrow>
        (Project (a\<lparr>three_state := container_state n m\<rparr>) cs', n, m)))"
| "derive_list [] = ([], 0, 0)"
| "derive_list (c # cs) =
     (case derive c of (c', o', t) \<Rightarrow> (case derive_list cs of (cs', n, m) \<Rightarrow> (c' # cs', o' + n, t + m)))"

definition group_state_of :: "nat \<Rightarrow> nat \<Rightarrow> bool option" where
  "group_state_of n m = (if m = 0 then Some False else if n = m then Some True
     else if n = 0 then Some False else None)"

definition recompute_group :: "group \<Rightarrow> group" where
  "recompute_group g = (case derive_list (g_items g) of (ps, n, m) \<Rightarrow>
     g\<lparr>g_items := ps, g_state := group_state_of n m\<rparr>)"

definition recompute :: "group list \<Rightarrow> group list" where
  "recompute = map recompute_group"

fun set_leaf_groups :: "string \<Rightarrow> bool \<Rightarrow> group list \<Rightarrow> group list \<times> bool" where
  "set_leaf_groups i on [] = ([], False)"
| "set_leaf_groups i on (g # gs) =
     (case set_leaf_list i on (g_items g) of (ps, found) \<Rightarrow>
        if found then (g\<lparr>g_items := ps\<rparr> # gs, True)
        else (case set_leaf_groups i on gs of (gs', found') \<Rightarrow> (g\<lparr>g_items := ps\<rparr> # gs', found')))"

definition set_leaf :: "group list \<Rightarrow> string \<Rightarrow> bool \<Rightarrow> group list \<times> bool" where
  "set_leaf gs i on = (case set_leaf_groups i on gs of (gs', found) \<Rightarrow>
     if found then (recompute gs', True) else (gs', False))"

fun set_first_group :: "string \<Rightarrow> bool \<Rightarrow> group list \<Rightarrow> group list option" where
  "set_first_group nm on [] = None"
| "set_first_group nm on (g # gs) =
     (if g_name g = nm
      then Some (g\<lparr>g_items := map (each_leaf (\<lambda>a. a\<lparr>three_state := Some on\<rparr>)) (g_items g)\<rparr> # gs)
      else map_option (\<lambda>gs'. g # gs') (set_first_group nm on gs))"

definition set_group :: "group list \<Rightarrow> string \<Rightarrow> bool \<Rightarrow> group list \<times> bool" where
  "set_group gs nm on = (case set_first_group nm on gs of
     None \<Rightarrow> (gs, False) | Some gs' \<Rightarrow> (recompute gs', True))"

fun find_and_set :: "string \<Rightarrow> bool \<Rightarrow> project \<Rightarrow> project \<times> bool"
  and find_and_set_list :: "string \<Rightarrow> bool \<Rightarrow> project list \<Rightarrow> project list \<times> bool" where
  "find_and_set i on (Project a cs) =
     (if p_id a = i then (Project a (map (each_leaf (\<lambda>b. b\<lparr>three_state := Some on\<rparr>)) cs), True)
      else (case find_and_set_list i on cs of (cs', found) \<Rightarrow> (Project a cs', found)))"
| "find_and_set_list i on [] = ([], False)"
| "find_and_set_list i on (c # cs) =
     (case find_and_set i on c of (c', found) \<Rightarrow>
        if found then (c' # cs, True)
        else (case find_and_set_list i on cs of (cs', found') \<Rightarrow> (c' # cs', found')))"

fun find_and_set_groups :: "string \<Rightarrow> bool \<Rightarrow> group list \<Rightarrow> group list \<times> bool" where
  "find_and_set_groups i on [] = ([], False)"
| "find_and_set_groups i on (g # gs) =
     (case find_and_set_list i on (g_items g) of (ps, found) \<Rightarrow>
        if found then (g\<lparr>g_items := ps\<rparr> # gs, True)
        else (case find_and_set_groups i on gs of (gs', found') \<Rightarrow> (g\<lparr>g_items := ps\<rparr> # gs', found')))"

definition set_container :: "group list \<Rightarrow> string \<Rightarrow> bool \<Rightarrow> group list \<times> bool" where
  "set_container gs i on = (case find_and_set_groups i on gs of (gs', found) \<Rightarrow>
     if found then (recompute gs', True) else (gs', False))"

text \<open>\<open>leaf_states\<close>: inserted in tree order, so a later leaf with the same id wins.\<close>

definition leaves_of :: "group list \<Rightarrow> project list" where
  "leaves_of gs = concat (map (\<lambda>g. concat (map all_leaves (g_items g))) gs)"

fun leaf_walk :: "project \<Rightarrow> (string \<rightharpoonup> bool) \<Rightarrow> (string \<rightharpoonup> bool)" where
  "leaf_walk (Project a cs) out =
     (if cs = [] then out(p_id a \<mapsto> is_on a) else fold leaf_walk cs out)"

definition leaf_states :: "group list \<Rightarrow> (string \<rightharpoonup> bool)" where
  "leaf_states gs = fold (\<lambda>g out. fold leaf_walk (g_items g) out) gs Map.empty"

declare set_leaf_in.simps [simp del] derive.simps [simp del] each_leaf.simps [simp del]
  leaf_walk.simps [simp del] find_and_set.simps [simp del]

section \<open>The shape of the recomputed tree\<close>

text \<open>Every container carries the value its leaves imply.\<close>

fun consistent :: "project \<Rightarrow> bool" where
  "consistent (Project a cs) = (cs = [] \<or>
     three_state a = container_state (on_count (all_leaves (Project a cs))) (length (all_leaves (Project a cs)))
     \<and> list_all consistent cs)"

declare consistent.simps [simp del]

definition group_consistent :: "group \<Rightarrow> bool" where
  "group_consistent g = (list_all consistent (g_items g) \<and>
     g_state g = group_state_of (on_count (concat (map all_leaves (g_items g))))
       (length (concat (map all_leaves (g_items g)))))"

lemma derive_spec:
  "derive p = (p', n, m) \<Longrightarrow>
     all_leaves p' = all_leaves p \<and> n = on_count (all_leaves p) \<and> m = length (all_leaves p) \<and> consistent p'"
  "derive_list ps = (ps', n, m) \<Longrightarrow>
     map all_leaves ps' = map all_leaves ps \<and> n = on_count (concat (map all_leaves ps)) \<and>
     m = length (concat (map all_leaves ps)) \<and> list_all consistent ps'"
proof (induction p and ps arbitrary: p' n m and ps' n m rule: derive_derive_list.induct)
  case (1 a cs)
  show ?case
  proof (cases "cs = []")
    case True
    with 1(2) show ?thesis by (auto simp: derive.simps on_count_def consistent.simps)
  next
    case False
    obtain cs' k t where d: "derive_list cs = (cs', k, t)" by (cases "derive_list cs")
    with 1(2) False have p': "p' = Project (a\<lparr>three_state := container_state k t\<rparr>) cs'"
      and nm: "n = k" "m = t" by (auto simp: derive.simps)
    have ih: "map all_leaves cs' = map all_leaves cs" "k = on_count (concat (map all_leaves cs))"
      "t = length (concat (map all_leaves cs))" "list_all consistent cs'"
      using 1(1) [OF False d] by blast+
    have "cs' \<noteq> []" using ih(1) False by auto
    then have "all_leaves p' = all_leaves (Project a cs)"
      using False ih(1) by (simp add: p' all_leaves_node)
    moreover from this have "consistent p'"
      using ih False by (simp add: p' consistent.simps all_leaves_node)
    ultimately show ?thesis
      using ih nm False by (simp add: all_leaves_node)
  qed
next
  case 2
  then show ?case by simp
next
  case (3 c cs)
  obtain c' a b where d: "derive c = (c', a, b)" by (cases "derive c")
  obtain cs' k t where e: "derive_list cs = (cs', k, t)" by (cases "derive_list cs")
  have "ps' = c' # cs'" "n = a + k" "m = b + t" using 3(3) d e by simp_all
  then show ?case using 3(1) [OF d] 3(2) [OF _ _ e] d by simp
qed

lemma recompute_group_consistent: "group_consistent (recompute_group g)"
proof -
  obtain ps n m where d: "derive_list (g_items g) = (ps, n, m)" by (cases "derive_list (g_items g)")
  show ?thesis using derive_spec(2) [OF d] by (simp add: recompute_group_def group_consistent_def d)
qed

lemma recompute_group_leaves: "map all_leaves (g_items (recompute_group g)) = map all_leaves (g_items g)"
proof -
  obtain ps n m where d: "derive_list (g_items g) = (ps, n, m)" by (cases "derive_list (g_items g)")
  show ?thesis using derive_spec(2) [OF d] by (simp add: recompute_group_def d)
qed

lemma recompute_leaves: "leaves_of (recompute gs) = leaves_of gs"
  by (induction gs) (simp_all add: leaves_of_def recompute_def recompute_group_leaves)

text \<open>\<open>restore_enable\<close> of the core and \<open>derive\<close> of the UI compute the same container values.\<close>

lemma restore_enable_consistent: "consistent (restore_enable en p)"
proof (induction p)
  case (Project a cs)
  show ?case
  proof (cases "cs = []")
    case True
    then show ?thesis by (simp add: restore_enable.simps consistent.simps)
  next
    case False
    with Project show ?thesis
      by (simp add: restore_enable.simps consistent.simps Let_def all_leaves_node list_all_iff)
  qed
qed

lemma derive_consistent_id:
  "consistent p \<Longrightarrow> fst (derive p) = p"
  "list_all consistent ps \<Longrightarrow> fst (derive_list ps) = ps"
proof (induction p and ps rule: derive_derive_list.induct)
  case (1 a cs)
  show ?case
  proof (cases "cs = []")
    case True
    then show ?thesis by (simp add: derive.simps)
  next
    case False
    obtain cs' k t where d: "derive_list cs = (cs', k, t)" by (cases "derive_list cs")
    have "cs' = cs" using 1 False d by (simp add: consistent.simps)
    moreover have "k = on_count (concat (map all_leaves cs))" "t = length (concat (map all_leaves cs))"
      using derive_spec(2) [OF d] by simp_all
    ultimately show ?thesis
      using 1(2) False d by (simp add: derive.simps consistent.simps all_leaves_node)
  qed
next
  case (3 c cs)
  then show ?case by (auto split: prod.splits)
qed simp

section \<open>Toggling, seen on the leaves\<close>

text \<open>The abstract view of the tree is the list of its leaves; toggling a leaf changes the first
  entry with the id, toggling a group changes all entries of the group.\<close>

fun update_first :: "('a \<Rightarrow> bool) \<Rightarrow> ('a \<Rightarrow> 'a) \<Rightarrow> 'a list \<Rightarrow> 'a list" where
  "update_first P f [] = []"
| "update_first P f (x # xs) = (if P x then f x # xs else x # update_first P f xs)"

lemma update_first_append:
  "update_first P f (xs @ ys) = (if \<exists>x\<in>set xs. P x then update_first P f xs @ ys else xs @ update_first P f ys)"
  by (induction xs) auto

lemma update_first_none [simp]: "\<forall>x\<in>set xs. \<not> P x \<Longrightarrow> update_first P f xs = xs"
  by (induction xs) auto

abbreviation has_id :: "string \<Rightarrow> project \<Rightarrow> bool" where
  "has_id i l \<equiv> p_id (attrs l) = i"

definition put_state :: "bool \<Rightarrow> project \<Rightarrow> project" where
  "put_state on l = Project ((attrs l)\<lparr>three_state := Some on\<rparr>) (items l)"

lemma set_leaf_in_leaves:
  "set_leaf_in i on p = (p', b) \<Longrightarrow>
     all_leaves p' = update_first (has_id i) (put_state on) (all_leaves p) \<and>
     (b \<longleftrightarrow> (\<exists>l\<in>set (all_leaves p). has_id i l))"
  "set_leaf_list i on ps = (ps', b) \<Longrightarrow>
     concat (map all_leaves ps') = update_first (has_id i) (put_state on) (concat (map all_leaves ps)) \<and>
     (b \<longleftrightarrow> (\<exists>l\<in>set (concat (map all_leaves ps)). has_id i l)) \<and> length ps' = length ps"
proof (induction i on p and i on ps arbitrary: p' b and ps' b rule: set_leaf_in_set_leaf_list.induct)
  case (1 i on a cs)
  show ?case
  proof (cases "cs = []")
    case True
    with 1(2) show ?thesis by (auto simp: set_leaf_in.simps put_state_def split: if_splits)
  next
    case False
    obtain cs' f where d: "set_leaf_list i on cs = (cs', f)" by (cases "set_leaf_list i on cs")
    with 1(2) False have "p' = Project a cs'" "b = f" by (simp_all add: set_leaf_in.simps)
    moreover have "cs' \<noteq> []" using 1(1) [OF False d] False by auto
    ultimately show ?thesis using 1(1) [OF False d] False by (simp add: all_leaves_node)
  qed
next
  case (2 i on)
  then show ?case by simp
next
  case (3 i on c cs)
  obtain c' f where d: "set_leaf_in i on c = (c', f)" by (cases "set_leaf_in i on c")
  note ihc = 3(1) [OF d]
  show ?case
  proof (cases f)
    case True
    with 3(3) d ihc show ?thesis by (auto simp: update_first_append)
  next
    case False
    obtain cs' g where e: "set_leaf_list i on cs = (cs', g)" by (cases "set_leaf_list i on cs")
    have "ps' = c' # cs'" "b = g" using 3(3) d e False by simp_all
    with 3(2) [OF d [symmetric] False e] ihc False show ?thesis
      by (auto simp: update_first_append)
  qed
qed

lemma set_leaf_groups_leaves:
  "set_leaf_groups i on gs = (gs', b) \<Longrightarrow>
     leaves_of gs' = update_first (has_id i) (put_state on) (leaves_of gs) \<and>
     (b \<longleftrightarrow> (\<exists>l\<in>set (leaves_of gs). has_id i l))"
proof (induction i on gs arbitrary: gs' b rule: set_leaf_groups.induct)
  case (1 i on)
  then show ?case by (simp add: leaves_of_def)
next
  case (2 i on g gs)
  obtain ps f where d: "set_leaf_list i on (g_items g) = (ps, f)"
    by (cases "set_leaf_list i on (g_items g)")
  note ihc = set_leaf_in_leaves(2) [OF d]
  show ?case
  proof (cases f)
    case True
    with 2(2) d ihc show ?thesis by (auto simp: leaves_of_def update_first_append)
  next
    case False
    obtain gs2 h where e: "set_leaf_groups i on gs = (gs2, h)" by (cases "set_leaf_groups i on gs")
    have "gs' = g\<lparr>g_items := ps\<rparr> # gs2" "b = h" using 2(2) d e False by simp_all
    with 2(1) [OF d [symmetric] False e] ihc False show ?thesis
      by (auto simp: leaves_of_def update_first_append)
  qed
qed

definition put_leaf :: "project \<Rightarrow> (string \<rightharpoonup> bool) \<Rightarrow> (string \<rightharpoonup> bool)" where
  "put_leaf l m = m(p_id (attrs l) \<mapsto> is_on (attrs l))"

lemma put_leaf_twist: "p_id (attrs l) \<noteq> i \<Longrightarrow> put_leaf l (m(i \<mapsto> v)) = (put_leaf l m)(i \<mapsto> v)"
  unfolding put_leaf_def by (rule fun_upd_twist) auto

lemma leaf_walk_leaves: "leaf_walk p out = fold put_leaf (all_leaves p) out"
proof (induction p arbitrary: out)
  case (Project a cs)
  have "fold leaf_walk ds out = fold put_leaf (concat (map all_leaves ds)) out"
    if "set ds \<subseteq> set cs" for ds out
    using that Project by (induction ds arbitrary: out) auto
  from this [OF subset_refl, of out] show ?case
    by (cases "cs = []") (simp_all add: leaf_walk.simps all_leaves.simps put_leaf_def [abs_def]
        del: fun_upd_apply)
qed

lemma leaf_states_leaves:
  "leaf_states gs = fold put_leaf (leaves_of gs) Map.empty"
proof -
  have i: "fold leaf_walk ps out = fold put_leaf (concat (map all_leaves ps)) out"
    for ps out by (induction ps arbitrary: out) (simp_all add: leaf_walk_leaves)
  have "fold (\<lambda>g out. fold leaf_walk (g_items g) out) gs out =
    fold put_leaf (leaves_of gs) out" for out
    by (induction gs arbitrary: out) (simp_all add: leaves_of_def i)
  then show ?thesis by (simp add: leaf_states_def)
qed

abbreviation leaf_ids :: "group list \<Rightarrow> string list" where
  "leaf_ids gs \<equiv> map (\<lambda>l. p_id (attrs l)) (leaves_of gs)"

lemma fold_states_distinct:
  "distinct (map (\<lambda>l. p_id (attrs l)) ls) \<Longrightarrow>
   fold put_leaf (update_first (has_id i) (put_state on) ls) m =
     (if \<exists>l\<in>set ls. has_id i l
      then (fold put_leaf ls m)(i \<mapsto> on)
      else fold put_leaf ls m)"
proof (induction ls arbitrary: m)
  case (Cons x ls)
  have out: "i \<notin> (\<lambda>l. p_id (attrs l)) ` set ks \<Longrightarrow>
      fold put_leaf ks (m(i \<mapsto> v)) =
      (fold put_leaf ks m)(i \<mapsto> v)" for ks m v
  proof (induction ks arbitrary: m)
    case (Cons k ks)
    then have "p_id (attrs k) \<noteq> i" "i \<notin> (\<lambda>l. p_id (attrs l)) ` set ks" by auto
    then show ?case using Cons.IH [of "put_leaf k m"] by (simp add: put_leaf_twist del: fun_upd_apply)
  qed simp
  show ?case
  proof (cases "has_id i x")
    case True
    with Cons.prems have "i \<notin> (\<lambda>l. p_id (attrs l)) ` set ls" by auto
    then have i: "i \<notin> (\<lambda>l. p_id (attrs l)) ` set ls".
    have "fold put_leaf ls (put_leaf (put_state on x) m) = (fold put_leaf ls m)(i \<mapsto> on)"
      unfolding out [OF i, symmetric] using True by (simp add: put_leaf_def put_state_def)
    moreover have "(fold put_leaf ls (put_leaf x m))(i \<mapsto> on) = (fold put_leaf ls m)(i \<mapsto> on)"
      unfolding out [OF i, symmetric] using True by (simp add: put_leaf_def)
    ultimately show ?thesis using True by auto
  next
    case False
    with Cons show ?thesis by auto
  qed
qed simp

lemma fold_states_dom:
  "dom (fold put_leaf ls m) = (\<lambda>l. p_id (attrs l)) ` set ls \<union> dom m"
  by (induction ls arbitrary: m) (auto simp: put_leaf_def)

section \<open>Log and traffic views\<close>

definition logs_text :: "string list \<Rightarrow> string" where
  "logs_text logs = (if logs = [] then [CHR 0x28, CHR 0xE7, CHR 0xA9, CHR 0xBA, CHR 0x29]
     else concat (map (\<lambda>l. l @ crlf) (take 500 (rev logs))))"

text \<open>One row of the traffic page; the order of rows is bytes descending, then domain.\<close>

datatype traffic_row = Row (row_domain: string) (row_bytes: nat)

instantiation traffic_row :: linorder
begin

definition less_eq_traffic_row :: "traffic_row \<Rightarrow> traffic_row \<Rightarrow> bool" where
  "less_eq_traffic_row r s =
     (row_bytes s < row_bytes r \<or> row_bytes s = row_bytes r \<and> row_domain r \<le> row_domain s)"

definition less_traffic_row :: "traffic_row \<Rightarrow> traffic_row \<Rightarrow> bool" where
  "less_traffic_row r s =
     (row_bytes s < row_bytes r \<or> row_bytes s = row_bytes r \<and> row_domain r < row_domain s)"

instance
  by intro_classes (auto simp: less_eq_traffic_row_def less_traffic_row_def intro: traffic_row.expand)

end

definition traffic_snapshot :: "nat \<Rightarrow> (string \<times> nat) list \<Rightarrow> nat \<times> (string \<times> nat) list" where
  "traffic_snapshot tot by_domain =
     (tot, map (\<lambda>r. (row_domain r, row_bytes r)) (sort (map (\<lambda>(k, v). Row k v) by_domain)))"

lemma traffic_rows_mset:
  "mset (snd (traffic_snapshot tot bd)) = mset bd"
proof -
  have "mset (map (\<lambda>r. (row_domain r, row_bytes r)) (sort (map (\<lambda>(k, v). Row k v) bd))) =
    image_mset ((\<lambda>r. (row_domain r, row_bytes r)) \<circ> (\<lambda>(k, v). Row k v)) (mset bd)"
    by (simp add: multiset.map_comp)
  also have "(\<lambda>r. (row_domain r, row_bytes r)) \<circ> (\<lambda>(k, v). Row k v) = id" by auto
  finally show ?thesis by (simp add: traffic_snapshot_def)
qed

section \<open>The proxy dialog\<close>

definition parse_port :: "string \<Rightarrow> u16 \<Rightarrow> u16" where
  "parse_port text fallback = (case parse_u16 (trim text) of Some p \<Rightarrow> p | None \<Rightarrow> fallback)"

fun position :: "('a \<Rightarrow> bool) \<Rightarrow> 'a list \<Rightarrow> nat option" where
  "position P [] = None"
| "position P (x # xs) = (if P x then Some 0 else map_option Suc (position P xs))"

definition mode_index :: "proxy_mode \<Rightarrow> int" where
  "mode_index m = (case position (\<lambda>n. n = m) available_modes of Some i \<Rightarrow> int i | None \<Rightarrow> 0)"

definition mode_from_index :: "int \<Rightarrow> proxy_mode" where
  "mode_from_index i = (case get_at (nat (max i 0)) available_modes of
     Some m \<Rightarrow> m | None \<Rightarrow> available_modes ! 0)"

record dialog_data =
  d_mode :: proxy_mode
  d_port :: u16
  d_dns :: string
  d_use_doh :: bool
  d_doh_address :: string
  d_http_to_https :: bool
  d_tls_decryption :: bool
  d_two_level_enable :: bool
  d_two_level_type :: ext_proxy_type
  d_two_level_ip :: string
  d_two_level_port :: u16
  d_two_level_user :: string
  d_two_level_password :: string

definition from_settings :: "proxy_settings \<Rightarrow> dialog_data" where
  "from_settings s = \<lparr>d_mode = proxy_mode_of s, d_port = system_proxy_port s, d_dns = proxy_master_dns s,
     d_use_doh = use_doh s, d_doh_address = custom_doh_address s,
     d_http_to_https = enable_http_proxy_to_https s, d_tls_decryption = enable_tls_decryption s,
     d_two_level_enable = two_level_agent_enable s, d_two_level_type = two_level_agent_type s,
     d_two_level_ip = two_level_agent_ip s, d_two_level_port = two_level_agent_port s,
     d_two_level_user = two_level_agent_user s, d_two_level_password = two_level_agent_password s\<rparr>"

definition apply_to :: "dialog_data \<Rightarrow> proxy_settings \<Rightarrow> proxy_settings" where
  "apply_to d s = s\<lparr>proxy_mode_of := d_mode d, system_proxy_port := d_port d,
     proxy_master_dns := d_dns d, use_doh := d_use_doh d, custom_doh_address := d_doh_address d,
     enable_http_proxy_to_https := d_http_to_https d, enable_tls_decryption := d_tls_decryption d,
     two_level_agent_enable := d_two_level_enable d, two_level_agent_type := d_two_level_type d,
     two_level_agent_ip := d_two_level_ip d, two_level_agent_port := d_two_level_port d,
     two_level_agent_user := d_two_level_user d, two_level_agent_password := d_two_level_password d\<rparr>"

fun external_proxy_index :: "ext_proxy_type \<Rightarrow> int" where
  "external_proxy_index ExtHttp = 0"
| "external_proxy_index ExtSocks4 = 1"
| "external_proxy_index ExtSocks5 = 2"

definition external_proxy_from_index :: "int \<Rightarrow> ext_proxy_type" where
  "external_proxy_from_index i = (if i = 0 then ExtHttp else if i = 1 then ExtSocks4 else ExtSocks5)"

lemma from_settings_apply_to [cfg_simps]: "from_settings (apply_to d s) = d"
  by (simp add: from_settings_def apply_to_def)

lemma apply_to_from_settings [cfg_simps]: "apply_to (from_settings s) s = s"
  by (simp add: from_settings_def apply_to_def)

lemma mode_from_mode_index [cfg_simps]: "mode_from_index (mode_index m) = m"
  by (cases m) (simp_all add: mode_from_index_def mode_index_def available_modes_def get_at_def)

lemma external_proxy_roundtrip [cfg_simps]: "external_proxy_from_index (external_proxy_index t) = t"
  by (cases t) (simp_all add: external_proxy_from_index_def)

section \<open>Properties\<close>

text \<open>Toggling one leaf is a point update of the leaf states: when the leaf ids of the tree
  are distinct, \<open>set_leaf\<close> succeeds exactly when a leaf has the id, the map of the leaf states
  changes at this id only, and every group and every container of the result carries the
  three-state value its leaves imply.\<close>

theorem set_leaf_refines:
  assumes "distinct (leaf_ids gs)" and "set_leaf gs i on = (gs', found)"
  shows "found = (i \<in> set (leaf_ids gs))
    \<and> leaf_states gs' = (if found then (leaf_states gs)(i \<mapsto> on) else leaf_states gs)
    \<and> (found \<longrightarrow> list_all group_consistent gs')"
proof -
  obtain g1 b where g: "set_leaf_groups i on gs = (g1, b)" by (cases "set_leaf_groups i on gs")
  have b: "b = (i \<in> set (leaf_ids gs))" and l1: "leaves_of g1 = update_first (has_id i) (put_state on) (leaves_of gs)"
    using set_leaf_groups_leaves [OF g] by auto
  have f: "found = b" "leaves_of gs' = leaves_of g1" and c: "found \<Longrightarrow> list_all group_consistent gs'"
    using assms(2) g by (auto simp: set_leaf_def recompute_leaves [unfolded recompute_def] list_all_iff recompute_def
        recompute_group_consistent split: if_splits)
  have "leaf_states gs' = (if b then (leaf_states gs)(i \<mapsto> on) else leaf_states gs)"
    using fold_states_distinct [OF assms(1), of i on Map.empty] b
    by (auto simp: leaf_states_leaves f(2) l1)
  with f b c show ?thesis by simp
qed

text \<open>The traffic page does not depend on the iteration order of the \<open>HashMap\<close>: two
  orders of the same entries give the same rows, the rows are the entries, and the byte counts
  are descending.\<close>

theorem traffic_snapshot_canonical:
  assumes "mset bd = mset bd'"
  shows "traffic_snapshot tot bd = traffic_snapshot tot bd'
    \<and> mset (snd (traffic_snapshot tot bd)) = mset bd
    \<and> sorted (rev (map snd (snd (traffic_snapshot tot bd))))"
proof -
  have "sort (map (\<lambda>(k, v). Row k v) bd) = sort (map (\<lambda>(k, v). Row k v) bd')"
    using assms by (intro properties_for_sort) simp_all
  moreover have "sorted (rev (map row_bytes rs))" if "sorted rs" for rs
    using that by (induction rs) (auto simp: sorted_append less_eq_traffic_row_def)
  ultimately show ?thesis
    using traffic_rows_mset [of tot bd] by (simp add: traffic_snapshot_def comp_def)
qed

section \<open>Witnesses\<close>

definition sample_leaf :: "string \<Rightarrow> bool \<Rightarrow> project" where
  "sample_leaf i on = Project (default_attrs\<lparr>p_id := i, three_state := Some on\<rparr>) []"

definition sample_groups :: "group list" where
  "sample_groups = [\<lparr>g_name = ''G'', icon_url = None, g_order = 0, g_state = None,
     g_items = [Project (default_attrs\<lparr>p_id := ''p''\<rparr>) [sample_leaf ''a'' True, sample_leaf ''b'' False],
       sample_leaf ''c'' False]\<rparr>]"

lemma set_leaf_witness:
  "leaf_states (fst (set_leaf sample_groups ''b'' True)) = (leaf_states sample_groups)(''b'' \<mapsto> True)
   \<and> list_all group_consistent (fst (set_leaf sample_groups ''b'' True))"
proof -
  have d: "distinct (leaf_ids sample_groups)" "''b'' \<in> set (leaf_ids sample_groups)" by code_simp+
  obtain gs' f where s: "set_leaf sample_groups ''b'' True = (gs', f)"
    by (cases "set_leaf sample_groups ''b'' True")
  from set_leaf_refines [OF d(1) s] d(2) s show ?thesis by simp
qed

lemma traffic_snapshot_witness:
  "traffic_snapshot 3 [(''a'', 1), (''b'', 2)] = traffic_snapshot 3 [(''b'', 2), (''a'', 1)]"
  using traffic_snapshot_canonical [of "[(''a'', 1), (''b'', 2)]" "[(''b'', 2), (''a'', 1)]" 3] by simp

end
