(* ===== verification/Domains.thy ===== *)
theory Domains
  imports Model
begin

text \<open>
  The domain patterns: the matchers and the manifest tables of \<open>crates/core/src/fwd.rs\<close>, the
  matcher of the DNS hook (\<open>windivert.rs\<close>) and the PAC file of \<open>sysproxy.rs\<close>. A set of patterns
  is a list in iteration order; the proxy, the hook and the browser each decide for themselves
  whether a host is accelerated, and the properties say how the three decisions relate.
\<close>

section \<open>Matching\<close>

definition domain_matches :: "string \<Rightarrow> string \<Rightarrow> bool" where
  "domain_matches pattern host =
     (let p = to_lower (trim pattern); h = to_lower (trim host) in
      if p = [] \<or> h = [] then False
      else if p = h then True
      else if starts_with p ''*'' then
        (let sfx = trim_start_matches CHR ''.'' (drop 1 p) in ends_with h sfx)
      else False)"

definition is_accelerated :: "string \<Rightarrow> string list \<Rightarrow> bool" where
  "is_accelerated host domains =
     (let h = to_lower (trim host) in
      list_ex (\<lambda>d0. let d = trim d0 in
        if starts_with d ''*'' then domain_matches d h
        else d \<noteq> [] \<and> (h = d \<or> ends_with h (''.'' @ d))) domains)"

text \<open>The closure of \<open>modify_dns_packet\<close> over the pattern set, for a query name.\<close>

definition hook_matches :: "string \<Rightarrow> string list \<Rightarrow> bool" where
  "hook_matches domain domains =
     (let dl = to_lower domain in
      list_ex (\<lambda>d0. let d = to_lower (trim d0);
          base = (case strip_prefix ''*.'' d of Some b \<Rightarrow> b | None \<Rightarrow> d) in
        base \<noteq> [] \<and> (dl = base \<or> ends_with dl (''.'' @ base))) domains)"

section \<open>Tables of the manifest\<close>

fun configured_ips_for :: "(string \<times> ipaddr list) list \<Rightarrow> string \<Rightarrow> ipaddr list" where
  "configured_ips_for [] host = []"
| "configured_ips_for ((pattern, ips) # table) host =
     (if domain_matches pattern host then ips else configured_ips_for table host)"

definition manifest_ips_for :: "proxy_settings \<Rightarrow> (string \<times> ipaddr list) list \<Rightarrow> string \<Rightarrow> ipaddr list" where
  "manifest_ips_for cfg table host =
     (if only_enable_proxy_script cfg then [] else configured_ips_for table host)"

fun fake_name_for :: "(string \<times> string) list \<Rightarrow> string \<Rightarrow> string option" where
  "fake_name_for [] host = None"
| "fake_name_for ((pattern, name) # table) host =
     (if domain_matches pattern host then Some name else fake_name_for table host)"

definition manifest_fake_name_for :: "proxy_settings \<Rightarrow> (string \<times> string) list \<Rightarrow> string \<Rightarrow> string option" where
  "manifest_fake_name_for cfg table host =
     (if only_enable_proxy_script cfg then None else fake_name_for table host)"

text \<open>The alias table is a \<open>HashMap\<close>: \<open>table\<close> is its content in iteration order.\<close>

definition forward_score :: "string \<Rightarrow> nat \<times> nat" where
  "forward_score pattern = (if starts_with pattern ''*'' then 0 else 1, length pattern)"

definition score_gt :: "nat \<times> nat \<Rightarrow> nat \<times> nat \<Rightarrow> bool" where
  "score_gt a b = (fst b < fst a \<or> fst b = fst a \<and> snd b < snd a)"

fun forward_scan :: "string \<Rightarrow> (string \<times> string) option \<Rightarrow> (string \<times> string) list \<Rightarrow> (string \<times> string) option" where
  "forward_scan host best [] = best"
| "forward_scan host best ((pattern, al) # table) =
     (if \<not> domain_matches pattern host then forward_scan host best table
      else forward_scan host
        (if (case best of None \<Rightarrow> True
             | Some (p, _) \<Rightarrow> score_gt (forward_score pattern) (forward_score p))
         then Some (pattern, al) else best) table)"

definition forward_for :: "(string \<times> string) list \<Rightarrow> string \<Rightarrow> string option" where
  "forward_for table host = map_option snd (forward_scan host None table)"

definition manifest_forward_for :: "proxy_settings \<Rightarrow> (string \<times> string) list \<Rightarrow> string \<Rightarrow> string option" where
  "manifest_forward_for cfg table host =
     (if only_enable_proxy_script cfg then None else forward_for table host)"

section \<open>The PAC file\<close>

text \<open>The two patterns \<open>create_pac\<close> writes for an entry, or none for a blank one.\<close>

definition pac_patterns :: "string \<Rightarrow> (string \<times> string) option" where
  "pac_patterns d0 = (let d = trim d0 in
     if d = [] then None
     else (let base = (case strip_prefix ''*.'' d of
                  Some b \<Rightarrow> if b \<noteq> [] then b else d | None \<Rightarrow> d);
               star = (if length base = length d then ''*.'' @ d else d)
           in Some (base, star)))"

definition quote :: string where "quote = [CHR 0x27]"
definition newline :: string where "newline = [LF]"

definition pac_line :: "string \<times> string \<Rightarrow> string" where
  "pac_line bs = ''    if (shExpMatch(host,'' @ quote @ fst bs @ quote @ '') || shExpMatch(host,'' @
     quote @ snd bs @ quote @ '')) return pac;'' @ newline"

definition create_pac :: "string \<Rightarrow> string list \<Rightarrow> string" where
  "create_pac proxy_host domains =
     ''function FindProxyForURL(url, host){'' @ newline @
     ''    var pac = '' @ quote @ ''PROXY '' @ proxy_host @ quote @ '';'' @ newline @
     concat (map pac_line (List.map_filter pac_patterns domains)) @
     ''    return '' @ quote @ ''DIRECT'' @ quote @ '';'' @ newline @ ''}'' @ newline"

text \<open>What the file makes a browser do, given the browser's \<open>shExpMatch\<close>.\<close>

definition pac_routes :: "(string \<Rightarrow> string \<Rightarrow> bool) \<Rightarrow> string list \<Rightarrow> string \<Rightarrow> bool" where
  "pac_routes shexp domains host =
     list_ex (\<lambda>bs. shexp host (fst bs) \<or> shexp host (snd bs)) (List.map_filter pac_patterns domains)"

section \<open>First-match tables\<close>

text \<open>Both list tables are read the same way: the first entry whose pattern matches decides.\<close>

locale first_match =
  fixes matches :: "'p \<Rightarrow> 'h \<Rightarrow> bool"
    and lookup :: "('p \<times> 'v) list \<Rightarrow> 'h \<Rightarrow> 'r"
    and none :: 'r
    and ret :: "'v \<Rightarrow> 'r"
  assumes lookup_Nil: "lookup [] h = none"
    and lookup_Cons: "lookup ((p, v) # t) h = (if matches p h then ret v else lookup t h)"
begin

lemma lookup_append_skip:
  "\<forall>e\<in>set t1. \<not> matches (fst e) h \<Longrightarrow> lookup (t1 @ t2) h = lookup t2 h"
  by (induction t1) (auto simp: lookup_Cons)

lemma lookup_append_hit:
  "e \<in> set t1 \<Longrightarrow> matches (fst e) h \<Longrightarrow> lookup (t1 @ t2) h = lookup t1 h"
  by (induction t1) (auto simp: lookup_Cons)

lemma lookup_none: "\<forall>e\<in>set t. \<not> matches (fst e) h \<Longrightarrow> lookup t h = none"
  using lookup_append_skip [of t h "[]"] by (simp add: lookup_Nil)

lemma lookup_first:
  "\<forall>e\<in>set t1. \<not> matches (fst e) h \<Longrightarrow> matches p h \<Longrightarrow> lookup (t1 @ (p, v) # t2) h = ret v"
  by (simp add: lookup_append_skip lookup_Cons)

text \<open>Entries for the same pattern after the first one are dead.\<close>

lemma lookup_shadow: "lookup (t1 @ (p, v) # t2 @ (p, w) # t3) h = lookup (t1 @ (p, v) # t2 @ t3) h"
proof (cases "\<exists>e\<in>set (t1 @ (p, v) # t2). matches (fst e) h")
  case True
  then obtain e where e: "e \<in> set (t1 @ (p, v) # t2)" "matches (fst e) h" by blast
  have "lookup ((t1 @ (p, v) # t2) @ (p, w) # t3) h = lookup ((t1 @ (p, v) # t2) @ t3) h"
    unfolding lookup_append_hit [OF e] ..
  then show ?thesis by simp
next
  case False
  then have n: "\<forall>e\<in>set (t1 @ (p, v) # t2). \<not> matches (fst e) h" by blast
  then have "\<not> matches p h" by auto
  then have "lookup ((t1 @ (p, v) # t2) @ (p, w) # t3) h = lookup ((t1 @ (p, v) # t2) @ t3) h"
    unfolding lookup_append_skip [OF n] by (simp add: lookup_Cons)
  then show ?thesis by simp
qed

end

interpretation ips: first_match domain_matches configured_ips_for "[]" "\<lambda>v. v"
  by unfold_locales auto

interpretation fakes: first_match domain_matches fake_name_for None Some
  by unfold_locales auto

section \<open>Facts on the matchers\<close>

lemma domain_matches_empty [simp]: "\<not> domain_matches pattern []"
  by (simp add: domain_matches_def)

lemma domain_matches_fold [simp]: "domain_matches pattern (to_lower (trim host)) = domain_matches pattern host"
  by (simp add: domain_matches_def)

lemma is_accelerated_iff:
  "is_accelerated host domains \<longleftrightarrow> (\<exists>d\<in>set domains.
     if starts_with (trim d) ''*'' then domain_matches (trim d) host
     else trim d \<noteq> [] \<and> (to_lower (trim host) = trim d \<or> ends_with (to_lower (trim host)) (''.'' @ trim d)))"
  unfolding is_accelerated_def Let_def list_ex_iff domain_matches_fold by (rule refl)

lemma domain_matches_trim: "domain_matches pattern host \<Longrightarrow> trim host \<noteq> []"
  by (auto simp: domain_matches_def Let_def)

lemma is_accelerated_nonempty:
  assumes "is_accelerated host domains"
  shows "trim host \<noteq> []"
proof -
  obtain d where "if starts_with (trim d) ''*'' then domain_matches (trim d) host
     else trim d \<noteq> [] \<and> (to_lower (trim host) = trim d \<or> ends_with (to_lower (trim host)) (''.'' @ trim d))"
    using assms unfolding is_accelerated_iff by blast
  then show ?thesis
  proof (cases "starts_with (trim d) ''*''")
    case False
    then show ?thesis using \<open>if _ then _ else _\<close> by (cases "trim host") auto
  qed (simp add: domain_matches_trim)
qed

lemma trim_subdomain:
  assumes "trim host = host" "host \<noteq> []" "s \<noteq> []" "\<not> is_ws (hd s)"
  shows "trim (s @ ''.'' @ host) = s @ ''.'' @ host"
proof -
  have "\<not> is_ws (last host)" using assms trim_nonempty_iff by blast
  then show ?thesis using assms(2-4) by (intro trim_nonempty_iff [THEN iffD2]) simp_all
qed

lemma suffix_sub: "suffix x h \<Longrightarrow> suffix x (y @ h)"
  by (rule suffix_appendI)

lemma suffix_dot: "suffix (''.'' @ d) (y @ ''.'' @ d)"
  by (rule suffix_appendI) simp

text \<open>A wildcard pattern that matches a host matches every sub-domain of it.\<close>

lemma wildcard_subdomain:
  assumes "starts_with p ''*''" "domain_matches p host" "trim p = p"
    and t: "trim host = host" "trim (s @ ''.'' @ host) = s @ ''.'' @ host"
  shows "domain_matches p (s @ ''.'' @ host)"
proof -
  obtain r where p: "p = CHR ''*'' # r" using assms(1) by (auto simp: prefix_def)
  have l: "lower_char CHR ''*'' = CHR ''*''" by (simp add: lower_char_def code_of_def)
  have lp: "to_lower p = CHR ''*'' # to_lower r" by (simp add: p l)
  have dw: "suffix (trim_start_matches CHR ''.'' (to_lower r)) (to_lower p)"
    by (auto simp: lp trim_start_matches_def intro!: suffix_ConsI suffix_dropWhile)
  have "suffix (trim_start_matches CHR ''.'' (to_lower r)) (to_lower host)"
    using assms(2,3) t(1) dw by (auto simp: domain_matches_def Let_def lp split: if_splits)
  then have "suffix (trim_start_matches CHR ''.'' (to_lower r)) (to_lower (s @ ''.'' @ host))"
    by (auto intro: suffix_sub suffix_ConsI)
  then show ?thesis
    using assms(3) t by (auto simp: domain_matches_def Let_def lp)
qed

section \<open>The alias table does not depend on its iteration order\<close>

text \<open>A canonical key: trimmed, lower case, and a wildcard only as \<open>*.name\<close>.\<close>

definition canonical_key :: "string \<Rightarrow> bool" where
  "canonical_key p = (trim p = p \<and> to_lower p = p \<and>
     (starts_with p ''*'' \<longrightarrow> starts_with p ''*.'' \<and> \<not> starts_with p ''*..''))"

lemma canonical_bare:
  "canonical_key p \<Longrightarrow> \<not> starts_with p ''*'' \<Longrightarrow> domain_matches p host \<Longrightarrow> p = to_lower (trim host)"
  by (auto simp: canonical_key_def domain_matches_def Let_def split: if_splits)

lemma canonical_wild:
  assumes "canonical_key p" "starts_with p ''*''" "domain_matches p host"
  shows "\<exists>x. p = ''*.'' @ x \<and> (p = to_lower (trim host) \<or> suffix x (to_lower (trim host)))"
proof -
  obtain x where p: "p = ''*.'' @ x" and n: "\<not> starts_with x ''.''"
    using assms(1,2) by (auto simp: canonical_key_def prefix_def)
  then have "trim_start_matches CHR ''.'' (drop 1 p) = x"
    by (cases x) (auto simp: trim_start_matches_def)
  then show ?thesis using assms p by (auto simp: canonical_key_def domain_matches_def Let_def split: if_splits)
qed

lemma canonical_same_score:
  assumes "canonical_key p" "canonical_key q" "domain_matches p host" "domain_matches q host"
    and "forward_score p = forward_score q"
  shows "p = q"
proof (cases "starts_with p ''*''")
  case False
  then have "\<not> starts_with q ''*''" using assms(5) by (auto simp: forward_score_def split: if_splits)
  with False assms(1-4) canonical_bare show ?thesis by metis
next
  case True
  then have q: "starts_with q ''*''" and len: "length p = length q"
    using assms(5) by (auto simp: forward_score_def split: if_splits)
  let ?h = "to_lower (trim host)"
  obtain x where x: "p = ''*.'' @ x" "p = ?h \<or> suffix x ?h"
    using canonical_wild [OF assms(1) True assms(3)] by blast
  obtain y where y: "q = ''*.'' @ y" "q = ?h \<or> suffix y ?h"
    using canonical_wild [OF assms(2) q assms(4)] by blast
  have sx: "suffix x ?h" and sy: "suffix y ?h"
    using x y by (metis suffix_appendI suffix_order.order_refl)+
  with len x(1) y(1) show ?thesis
    by (auto simp: suffix_def)
qed

lemma forward_scan_max:
  "forward_scan host best table = r \<Longrightarrow>
     (r = None \<longleftrightarrow> best = None \<and> (\<forall>e\<in>set table. \<not> domain_matches (fst e) host)) \<and>
     (\<forall>e. r = Some e \<longrightarrow> (best = Some e \<or> e \<in> set table \<and> domain_matches (fst e) host)) \<and>
     (\<forall>e f. r = Some e \<longrightarrow> (best = Some f \<or> f \<in> set table \<and> domain_matches (fst f) host) \<longrightarrow>
        \<not> score_gt (forward_score (fst f)) (forward_score (fst e)))"
proof (induction host best table arbitrary: r rule: forward_scan.induct)
  case (1 host best)
  then show ?case by (auto simp: score_gt_def)
next
  case (2 host best pattern al table)
  show ?case
  proof (cases "domain_matches pattern host")
    case False
    then have "forward_scan host best table = r" using 2(3) by simp
    from 2(1) [OF _ this] False show ?thesis by auto
  next
    case True
    define b where "b = (if (case best of None \<Rightarrow> True
      | Some (p, _) \<Rightarrow> score_gt (forward_score pattern) (forward_score p)) then Some (pattern, al) else best)"
    have b: "b = Some (pattern, al) \<or> (\<exists>f. best = Some f \<and> b = best \<and>
        \<not> score_gt (forward_score pattern) (forward_score (fst f)))"
      and b': "best = Some f \<Longrightarrow> b = Some (pattern, al) \<Longrightarrow>
        score_gt (forward_score pattern) (forward_score (fst f)) \<or> f = (pattern, al)" for f
      by (auto simp: b_def split: option.splits if_splits)
    have s: "forward_scan host b table = r" using 2(3) True by (simp add: b_def)
    have ih: "(r = None \<longleftrightarrow> b = None \<and> (\<forall>e\<in>set table. \<not> domain_matches (fst e) host)) \<and>
     (\<forall>e. r = Some e \<longrightarrow> (b = Some e \<or> e \<in> set table \<and> domain_matches (fst e) host)) \<and>
     (\<forall>e f. r = Some e \<longrightarrow> (b = Some f \<or> f \<in> set table \<and> domain_matches (fst f) host) \<longrightarrow>
        \<not> score_gt (forward_score (fst f)) (forward_score (fst e)))"
      unfolding b_def
    proof (rule 2(2))
      show "\<not> \<not> domain_matches pattern host" using True by simp
    qed (rule s [unfolded b_def])
    have trans: "score_gt x y \<Longrightarrow> \<not> score_gt x z \<Longrightarrow> \<not> score_gt z y \<Longrightarrow> False" for x y z
      by (auto simp: score_gt_def)
    have "r \<noteq> None" using ih b by auto
    then obtain e where e: "r = Some e" by blast
    have mx: "\<not> score_gt (forward_score (fst f)) (forward_score (fst e))"
      if "best = Some f \<or> f \<in> set ((pattern, al) # table) \<and> domain_matches (fst f) host" for f
    proof (cases "f \<in> set table \<and> domain_matches (fst f) host \<or> b = Some f")
      case True
      then show ?thesis using ih e by blast
    next
      case False
      show ?thesis
      proof
        assume g: "score_gt (forward_score (fst f)) (forward_score (fst e))"
        from that False consider "best = Some f" | "f = (pattern, al)" by auto
        then show False
        proof cases
          case 1
          with b False have bp: "b = Some (pattern, al)" by auto
          then have "\<not> score_gt (forward_score pattern) (forward_score (fst e))" using ih e by auto
          with b' [OF 1 bp] g show False by (auto simp: score_gt_def)
        next
          case 2
          with b False obtain h where "b = Some h" "\<not> score_gt (forward_score pattern) (forward_score (fst h))"
            by auto
          moreover from this have "\<not> score_gt (forward_score (fst h)) (forward_score (fst e))"
            using ih e by blast
          ultimately show False using g 2 by (auto simp: score_gt_def)
        qed
      qed
    qed
    have mem: "best = Some e \<or> e \<in> set ((pattern, al) # table) \<and> domain_matches (fst e) host"
      using ih e b True by auto
    show ?thesis
    proof (intro conjI allI impI)
      show "(r = None) = (best = None \<and> (\<forall>e\<in>set ((pattern, al) # table). \<not> domain_matches (fst e) host))"
        using e True by auto
    next
      fix e' assume "r = Some e'"
      then show "best = Some e' \<or> e' \<in> set ((pattern, al) # table) \<and> domain_matches (fst e') host"
        using mem e by simp
    next
      fix e' f assume "r = Some e'"
        "best = Some f \<or> f \<in> set ((pattern, al) # table) \<and> domain_matches (fst f) host"
      then show "\<not> score_gt (forward_score (fst f)) (forward_score (fst e'))"
        using mx [of f] e by simp
    qed
  qed
qed

lemma forward_scan_unique:
  assumes "\<forall>k\<in>fst ` set table. canonical_key k" "wf_alist table" "set table = set table'"
  shows "forward_scan host None table = forward_scan host None table'"
proof -
  have inj: "e = f" if "e \<in> set table" "f \<in> set table" "fst e = fst f" for e f
    using assms(2) that by (auto simp: wf_alist_def distinct_map inj_on_def)
  note m = forward_scan_max [OF refl, of host None table] and m' = forward_scan_max [OF refl, of host None table']
  show ?thesis
  proof (cases "forward_scan host None table")
    case None
    with m m' assms(3) show ?thesis by auto
  next
    case (Some e)
    then obtain f where f: "forward_scan host None table' = Some f" using m m' assms(3) by fastforce
    have e: "e \<in> set table" "domain_matches (fst e) host" using m Some by auto
    have f': "f \<in> set table" "domain_matches (fst f) host" using m' f assms(3) by auto
    have "\<not> score_gt (forward_score (fst f)) (forward_score (fst e))"
      using m Some f' by blast
    moreover have "\<not> score_gt (forward_score (fst e)) (forward_score (fst f))"
      using m' f e assms(3) by blast
    ultimately have "forward_score (fst e) = forward_score (fst f)"
      by (auto simp: score_gt_def prod_eq_iff)
    moreover have "canonical_key (fst e)" "canonical_key (fst f)" using assms(1) e f' by auto
    ultimately have "fst e = fst f" using canonical_same_score e(2) f'(2) by blast
    with inj e f' have "e = f" by blast
    with Some f show ?thesis by simp
  qed
qed

section \<open>Properties\<close>

text \<open>Acceleration is closed under sub-domains: when a host is accelerated, so is every name
  below it, whatever shape (bare or wildcard) the matching pattern has.\<close>

theorem is_accelerated_subdomain:
  assumes "is_accelerated host domains" "trim host = host" "s \<noteq> []" "\<not> is_ws (hd s)"
  shows "is_accelerated (s @ ''.'' @ host) domains"
proof -
  have "host \<noteq> []" using is_accelerated_nonempty [OF assms(1)] by auto
  then have t: "trim (s @ ''.'' @ host) = s @ ''.'' @ host"
    using assms trim_subdomain by blast
  obtain d where d: "d \<in> set domains" "if starts_with (trim d) ''*'' then domain_matches (trim d) host
     else trim d \<noteq> [] \<and> (to_lower (trim host) = trim d \<or> ends_with (to_lower (trim host)) (''.'' @ trim d))"
    using assms(1) unfolding is_accelerated_iff by blast
  show ?thesis
  proof (cases "starts_with (trim d) ''*''")
    case True
    then have "domain_matches (trim d) (s @ ''.'' @ host)"
      using d(2) assms(2) t by (intro wildcard_subdomain) auto
    with d(1) True show ?thesis unfolding is_accelerated_iff by auto
  next
    case False
    have dot: "lower_char CHR ''.'' = CHR ''.''" by (simp add: lower_char_def code_of_def)
    have "ends_with (to_lower (trim (s @ ''.'' @ host))) (''.'' @ trim d)"
      using d(2) False assms(2) unfolding t
      by (auto simp: dot intro: suffix_appendI suffix_ConsI)
    with d(1) False d(2) show ?thesis unfolding is_accelerated_iff by (intro bexI [of _ d]) auto
  qed
qed

definition glob_free :: "string \<Rightarrow> bool" where
  "glob_free p = (CHR ''*'' \<notin> set p \<and> CHR ''?'' \<notin> set p)"

lemma star_suffix_matches:
  assumes "trim d = d" "to_lower d = d" "starts_with d ''*''" "suffix (drop 1 d) h \<or> suffix (drop 2 d) h"
    and "to_lower (trim host) = h" "h \<noteq> []" "starts_with d ''*.'' \<or> suffix (drop 1 d) h"
  shows "domain_matches d host"
proof -
  have "suffix (trim_start_matches CHR ''.'' (drop 1 d)) h"
  proof (cases "suffix (drop 1 d) h")
    case True
    have "suffix (trim_start_matches CHR ''.'' (drop 1 d)) (drop 1 d)"
      by (simp add: trim_start_matches_def suffix_dropWhile)
    with True show ?thesis by (rule suffix_order.order_trans [rotated])
  next
    case False
    with assms obtain x where x: "d = ''*.'' @ x" "suffix x h" by (auto simp: prefix_def)
    have "suffix (trim_start_matches CHR ''.'' (drop 1 d)) x"
      by (simp add: x(1) trim_start_matches_def suffix_dropWhile)
    with x(2) show ?thesis by (rule suffix_order.order_trans [rotated])
  qed
  with assms show ?thesis by (auto simp: domain_matches_def Let_def)
qed

definition covers :: "string \<Rightarrow> string \<Rightarrow> bool" where
  "covers d host = (\<exists>base. base \<noteq> [] \<and> (d = base \<or> d = ''*.'' @ base) \<and>
     (host = base \<or> ends_with host (''.'' @ base)))"

lemma hook_covers:
  assumes "hook_matches host domains" "\<forall>d\<in>set domains. to_lower (trim d) = trim d" "to_lower host = host"
  shows "\<exists>d\<in>set domains. covers (trim d) host"
proof -
  obtain d where d0: "d \<in> set domains"
    "(case strip_prefix ''*.'' (to_lower (trim d)) of Some b \<Rightarrow> b | None \<Rightarrow> to_lower (trim d)) \<noteq> []"
    "to_lower host = (case strip_prefix ''*.'' (to_lower (trim d)) of Some b \<Rightarrow> b | None \<Rightarrow> to_lower (trim d)) \<or>
     ends_with (to_lower host)
       (''.'' @ (case strip_prefix ''*.'' (to_lower (trim d)) of Some b \<Rightarrow> b | None \<Rightarrow> to_lower (trim d)))"
    using assms(1) unfolding hook_matches_def list_ex_iff Let_def by blast
  have l: "to_lower (trim d) = trim d" using assms(2) d0(1) by blast
  note d = d0 [unfolded l assms(3)]
  show ?thesis
    using d by (cases "strip_prefix ''*.'' (trim d)") (auto simp: covers_def strip_prefix_Some_iff)
qed

lemma pac_covers:
  assumes routes: "pac_routes shexp domains host"
    and literal: "\<And>h p. glob_free p \<Longrightarrow> shexp h p = (h = p)"
    and star: "\<And>h p. glob_free p \<Longrightarrow> shexp h (CHR ''*'' # p) = ends_with h p"
    and shape: "\<forall>d\<in>set domains. glob_free (trim d) \<or> (\<exists>x. trim d = ''*.'' @ x \<and> x \<noteq> [] \<and> glob_free x)"
  shows "\<exists>d\<in>set domains. covers (trim d) host"
proof -
  obtain d b s where d: "d \<in> set domains" "pac_patterns d = Some (b, s)" "shexp host b \<or> shexp host s"
    using routes by (auto simp: pac_routes_def list_ex_iff map_filter_def)
  have "\<exists>x. x \<noteq> [] \<and> glob_free x \<and> b = x \<and> s = CHR ''*'' # (''.'' @ x) \<and> (trim d = x \<or> trim d = ''*.'' @ x)"
  proof (cases "glob_free (trim d)")
    case True
    then have "strip_prefix ''*.'' (trim d) = None"
      by (cases "strip_prefix ''*.'' (trim d)") (auto simp: strip_prefix_Some_iff glob_free_def)
    with d(2) True show ?thesis by (auto simp: pac_patterns_def Let_def split: if_splits)
  next
    case False
    then obtain x where x: "trim d = ''*.'' @ x" "x \<noteq> []" "glob_free x" using shape d(1) by blast
    then have "strip_prefix ''*.'' (trim d) = Some x" by (simp add: strip_prefix_Some_iff)
    with d(2) x show ?thesis by (auto simp: pac_patterns_def Let_def split: if_splits)
  qed
  then obtain x where x: "x \<noteq> []" "glob_free x" "b = x" "s = CHR ''*'' # (''.'' @ x)"
    "trim d = x \<or> trim d = ''*.'' @ x" by blast
  have "glob_free (''.'' @ x)" using x(2) by (simp add: glob_free_def)
  then have "host = x \<or> ends_with host (''.'' @ x)"
    using d(3) x(3,4) literal [OF x(2)] star by metis
  with d(1) x show ?thesis by (auto simp: covers_def)
qed

lemma covers_accelerated:
  assumes "d \<in> set domains" "covers (trim d) host" "to_lower (trim d) = trim d" "trim host = host" "to_lower host = host"
  shows "is_accelerated host domains"
proof -
  obtain base where d: "base \<noteq> []" "trim d = base \<or> trim d = ''*.'' @ base"
    "host = base \<or> ends_with host (''.'' @ base)" using assms(2) by (auto simp: covers_def)
  have ne: "host \<noteq> []" and sb: "ends_with host base" using d by (auto dest: suffix_ConsD)
  show ?thesis
  proof (cases "starts_with (trim d) ''*''")
    case False
    then have "trim d = base" using d(2) by auto
    then show ?thesis using d(1,3) assms False unfolding is_accelerated_iff by (intro bexI [of _ d]) auto
  next
    case True
    have "domain_matches (trim d) host"
    proof (rule star_suffix_matches [OF _ _ True _ _ ne])
      show "suffix (drop 1 (trim d)) host \<or> suffix (drop 2 (trim d)) host"
        and "starts_with (trim d) ''*.'' \<or> suffix (drop 1 (trim d)) host"
        using d(2) sb True by (auto dest: suffix_ConsD simp: prefix_def)
    qed (simp_all add: assms)
    with assms(1) True show ?thesis unfolding is_accelerated_iff by auto
  qed
qed


text \<open>The substitute host is reproducible: for tables of canonical patterns (trimmed, lower
  case, wildcards only as \<open>*.name\<close>) \<open>forward_for\<close> gives the same answer for every iteration order
  of the map, and an exact key always wins.\<close>

theorem forward_for_reproducible:
  assumes "\<forall>k\<in>fst ` set table. canonical_key k" "wf_alist table" "set table = set table'"
  shows "forward_for table host = forward_for table' host
    \<and> (\<forall>al. (to_lower (trim host), al) \<in> set table \<longrightarrow> \<not> starts_with (to_lower (trim host)) ''*''
        \<longrightarrow> to_lower (trim host) \<noteq> [] \<longrightarrow> forward_for table host = Some al)"
proof (intro conjI allI impI)
  show "forward_for table host = forward_for table' host"
    by (simp add: forward_for_def forward_scan_unique [OF assms])
next
  let ?h = "to_lower (trim host)"
  fix al assume al: "(?h, al) \<in> set table" and b: "\<not> starts_with ?h ''*''" "?h \<noteq> []"
  have mh: "domain_matches ?h host" using b by (simp add: domain_matches_def)
  note m = forward_scan_max [OF refl, of host None table]
  obtain e where e: "forward_scan host None table = Some e" using m al mh by fastforce
  have e': "e \<in> set table" "domain_matches (fst e) host" using m e by auto
  have "\<not> score_gt (forward_score ?h) (forward_score (fst e))" using m e al mh by force
  then have "\<not> starts_with (fst e) ''*''" using b(1) by (auto simp: score_gt_def forward_score_def)
  then have "fst e = ?h" using canonical_bare e' assms(1) by blast
  with al e'(1) assms(2) have "e = (?h, al)" by (auto simp: wf_alist_def distinct_map inj_on_def)
  with e show "forward_for table host = Some al" by (simp add: forward_for_def)
qed

text \<open>The manifest addresses are those of the first matching entry, in manifest order; a
  later entry for the same pattern is never read; \<open>OnlyEnableProxyScript\<close> turns the lookup off.\<close>

theorem manifest_ips_first_match:
  assumes "\<forall>e\<in>set t1. \<not> domain_matches (fst e) host" "domain_matches p host"
  shows "manifest_ips_for cfg (t1 @ (p, v) # t2) host = (if only_enable_proxy_script cfg then [] else v)
    \<and> configured_ips_for (t1 @ (p, v) # t2 @ (p, w) # t3) h' = configured_ips_for (t1 @ (p, v) # t2 @ t3) h'"
  using ips.lookup_first [OF assms] ips.lookup_shadow by (simp add: manifest_ips_for_def)

section \<open>Witnesses\<close>

lemma is_accelerated_subdomain_witness:
  "is_accelerated ''raw.github.com'' [''github.com'']"
proof -
  have "is_accelerated ''github.com'' [''github.com'']" "trim ''github.com'' = ''github.com''" "\<not> is_ws (hd ''raw'')"
    by code_simp+
  from is_accelerated_subdomain [OF this(1,2) _ this(3)] show ?thesis by simp
qed

definition simple_shexp :: "string \<Rightarrow> string \<Rightarrow> bool" where
  "simple_shexp h p = (if starts_with p ''*'' then ends_with h (drop 1 p) else h = p)"


lemma forward_for_witness:
  "forward_for [(''*.github.com'', ''a''), (''raw.github.com'', ''b'')] ''Raw.github.com'' = Some ''b'' \<and>
   forward_for [(''raw.github.com'', ''b''), (''*.github.com'', ''a'')] ''Raw.github.com'' = Some ''b''"
proof -
  let ?t = "[(''*.github.com'', ''a''), (''raw.github.com'', ''b'')]"
  let ?u = "[(''raw.github.com'', ''b''), (''*.github.com'', ''a'')]"
  have c: "\<forall>k\<in>fst ` set ?t. canonical_key k" "wf_alist ?t" by code_simp+
  have e: "forward_for ?t ''Raw.github.com'' = Some ''b''" by code_simp
  have "forward_for ?t ''Raw.github.com'' = forward_for ?u ''Raw.github.com''"
    using forward_for_reproducible [OF c, of ?u] by auto
  with e show ?thesis by simp
qed

lemma manifest_ips_witness:
  "manifest_ips_for default_settings [(''a.com'', []), (''*.b.com'', [loopback4])] ''x.b.com'' = [loopback4]"
proof -
  have "\<forall>e\<in>set [(''a.com'', [] :: ipaddr list)]. \<not> domain_matches (fst e) ''x.b.com''"
    and "domain_matches ''*.b.com'' ''x.b.com''" by code_simp+
  from manifest_ips_first_match [OF this, of default_settings "[loopback4]" "[]"]
  show ?thesis by (simp add: default_settings_def)
qed

section \<open>Where the matchers disagree\<close>

text \<open>The wildcard of \<open>domain_matches\<close> is a plain suffix test, so it covers names that are no
  sub-domain, which the DNS hook does not.\<close>

lemma wildcard_overmatch:
  "is_accelerated ''notexample.com'' [''*.example.com'']"
  "\<not> hook_matches ''notexample.com'' [''*.example.com'']"
  by code_simp+

text \<open>Without canonical keys the order of the map shows: both keys match with the same score.\<close>

lemma forward_for_order_dependent:
  "forward_for [(''*.a.com'', ''x''), (''*xa.com'', ''y'')] ''xa.com'' = Some ''x''"
  "forward_for [(''*xa.com'', ''y''), (''*.a.com'', ''x'')] ''xa.com'' = Some ''y''"
  by code_simp+

end
