(* ===== verification/Hosts.thy ===== *)
theory Hosts
  imports Domains
begin

text \<open>
  The hosts file manager, \<open>crates/core/src/hosts.rs\<close>. The file is a value of \<open>hosts_file\<close>: its
  bytes when it can be read, its read-only attribute, and what the operating system answers to
  the two calls that can fail. \<open>update_text\<close> and \<open>remove_text\<close> are the line scanners of
  \<open>update_hosts_at\<close> and \<open>remove_hosts_at\<close>; the HashSet \<open>backup_seen\<close> is the field \<open>seen\<close>.
\<close>

section \<open>Decoding\<close>

fun units16 :: "bool \<Rightarrow> bytes \<Rightarrow> nat list" where
  "units16 le (a # b # bs) = unat (if le then from_be16 b a else from_be16 a b) # units16 le bs"
| "units16 le _ = []"

definition utf8_encode :: "nat \<Rightarrow> string" where
  "utf8_encode c =
     (if c < 128 then [char_of c]
      else if c < 2048 then [char_of (192 + c div 64), char_of (128 + c mod 64)]
      else if c < 65536 then
        [char_of (224 + c div 4096), char_of (128 + c div 64 mod 64), char_of (128 + c mod 64)]
      else [char_of (240 + c div 262144), char_of (128 + c div 4096 mod 64),
            char_of (128 + c div 64 mod 64), char_of (128 + c mod 64)])"

text \<open>\<open>String::from_utf16_lossy\<close>: a lone surrogate becomes U+FFFD.\<close>

fun utf16_lossy :: "nat list \<Rightarrow> string" where
  "utf16_lossy [] = []"
| "utf16_lossy (u # us) =
     (if 55296 \<le> u \<and> u \<le> 56319 then
        (case us of
           v # vs \<Rightarrow> if 56320 \<le> v \<and> v \<le> 57343
             then utf8_encode (65536 + (u - 55296) * 1024 + (v - 56320)) @ utf16_lossy vs
             else replacement @ utf16_lossy us
         | [] \<Rightarrow> replacement)
      else if 56320 \<le> u \<and> u \<le> 57343 then replacement @ utf16_lossy us
      else utf8_encode u @ utf16_lossy us)"

definition decode_utf16 :: "bytes \<Rightarrow> bool \<Rightarrow> string" where
  "decode_utf16 bs little_endian = utf16_lossy (units16 little_endian bs)"

definition decode_hosts :: "bytes \<Rightarrow> string" where
  "decode_hosts bs =
     (if prefix [0xEF, 0xBB, 0xBF] bs then utf8_lossy (str_of (drop 3 bs))
      else if prefix [0xFF, 0xFE] bs then decode_utf16 (drop 2 bs) True
      else if prefix [0xFE, 0xFF] bs then decode_utf16 (drop 2 bs) False
      else utf8_lossy (str_of bs))"

section \<open>Lines and markers\<close>

definition mark_start :: string where "mark_start = ''# WattToolkit-Lite Start''"
definition mark_end :: string where "mark_end = ''# WattToolkit-Lite End''"
definition backup_mark_start :: string where "backup_mark_start = ''# WattToolkit-Lite Backup Start''"
definition backup_mark_end :: string where "backup_mark_end = ''# WattToolkit-Lite Backup End''"

definition is_mark :: "string \<Rightarrow> string \<Rightarrow> bool" where
  "is_mark line mark = eq_ignore_case (join '' '' (split_ws line)) mark"

definition is_blank_or_comment :: "string \<Rightarrow> bool" where
  "is_blank_or_comment line = (let t = trim line in t = [] \<or> starts_with t ''#'')"

definition line_domains :: "string \<Rightarrow> string list option" where
  "line_domains line =
     (if is_blank_or_comment line then None
      else (case split_ws (trim line) of
         [] \<Rightarrow> None
       | ip # parts \<Rightarrow>
           (case parse_ip ip of
              None \<Rightarrow> None
            | Some _ \<Rightarrow>
                (let ds = map to_lower (takeWhile (\<lambda>t. \<not> starts_with t ''#'') parts) in
                 if ds = [] then None else Some ds))))"

definition push_unique :: "string list \<Rightarrow> string set \<Rightarrow> string \<Rightarrow> string list \<times> string set" where
  "push_unique ls seen line =
     (if trim line = [] then (ls, seen)
      else if line \<in> seen then (ls, seen)
      else (ls @ [line], insert line seen))"

definition join_hosts :: "string list \<Rightarrow> string" where
  "join_hosts ls = (let text = join crlf ls in if text \<noteq> [] then text @ crlf else text)"

section \<open>The scanners\<close>

datatype phase = Main | Block | Backup

record scan =
  s_phase :: phase
  s_main :: "string list"
  s_backup :: "string list"
  s_seen :: "string set"

definition scan0 :: scan where
  "scan0 = \<lparr>s_phase = Main, s_main = [], s_backup = [], s_seen = {}\<rparr>"

definition push_main :: "string \<Rightarrow> scan \<Rightarrow> scan" where
  "push_main line s = s\<lparr>s_main := s_main s @ [line]\<rparr>"

definition push_backup :: "string \<Rightarrow> scan \<Rightarrow> scan" where
  "push_backup line s = (case push_unique (s_backup s) (s_seen s) line of
     (b, n) \<Rightarrow> s\<lparr>s_backup := b, s_seen := n\<rparr>)"

definition is_hit :: "string set \<Rightarrow> string list \<Rightarrow> bool" where
  "is_hit managed ds = list_ex (\<lambda>d. d \<in> managed) ds"

definition update_line :: "string set \<Rightarrow> string \<Rightarrow> scan \<Rightarrow> scan" where
  "update_line managed raw s = (let line = trim_end_matches CR raw in
     case s_phase s of
       Main \<Rightarrow>
         if is_mark line mark_start then s\<lparr>s_phase := Block\<rparr>
         else if is_mark line backup_mark_start then s\<lparr>s_phase := Backup\<rparr>
         else if is_mark line mark_end \<or> is_mark line backup_mark_end then s
         else (case line_domains line of
             Some ds \<Rightarrow> if is_hit managed ds then push_backup line s else push_main line s
           | None \<Rightarrow> push_main line s)
     | Block \<Rightarrow> if is_mark line mark_end then s\<lparr>s_phase := Main\<rparr> else s
     | Backup \<Rightarrow>
         if is_mark line backup_mark_end then s\<lparr>s_phase := Main\<rparr>
         else (case line_domains line of
             Some ds \<Rightarrow> if is_hit managed ds then push_backup line s else push_main line s
           | None \<Rightarrow> push_backup line s))"

definition remove_line :: "string \<Rightarrow> scan \<Rightarrow> scan" where
  "remove_line raw s = (let line = trim_end_matches CR raw in
     case s_phase s of
       Main \<Rightarrow>
         if is_mark line mark_start then s\<lparr>s_phase := Block\<rparr>
         else if is_mark line backup_mark_start then s\<lparr>s_phase := Backup\<rparr>
         else if is_mark line mark_end \<or> is_mark line backup_mark_end then s
         else push_main line s
     | Block \<Rightarrow> if is_mark line mark_end then s\<lparr>s_phase := Main\<rparr> else s
     | Backup \<Rightarrow> if is_mark line backup_mark_end then s\<lparr>s_phase := Main\<rparr> else push_backup line s)"

definition pop_blank :: "string list \<Rightarrow> string list" where
  "pop_blank ls = rev (dropWhile (\<lambda>l. trim l = []) (rev ls))"

definition managed_of :: "(string \<times> string) list \<Rightarrow> string set" where
  "managed_of entries = {d \<in> set (map (\<lambda>(domain, _). to_lower (trim domain)) entries). d \<noteq> []}"

definition entry_lines :: "(string \<times> string) list \<Rightarrow> string list" where
  "entry_lines entries = List.map_filter (\<lambda>(domain, ip).
     if trim domain \<noteq> [] \<and> trim ip \<noteq> [] then Some (trim ip @ '' '' @ trim domain) else None) entries"

definition render :: "string list \<Rightarrow> string list \<Rightarrow> string list \<Rightarrow> string list" where
  "render main entry_ls backup =
     (let out = pop_blank main;
          out = (if out \<noteq> [] then out @ [[]] else out);
          out = out @ [mark_start] @ entry_ls @ [mark_end];
          out = (if backup \<noteq> [] then out @ [[], backup_mark_start] @ backup @ [backup_mark_end] else out)
      in out @ [[]])"

definition update_text :: "(string \<times> string) list \<Rightarrow> string \<Rightarrow> string" where
  "update_text entries content =
     (let s = fold (update_line (managed_of entries)) (lines content) scan0 in
      join_hosts (render (s_main s) (entry_lines entries) (s_backup s)))"

definition restore :: "string list \<Rightarrow> string list \<Rightarrow> string list" where
  "restore main backup =
     (let m = pop_blank main in
      if backup \<noteq> [] then (if m \<noteq> [] then m @ [[]] else m) @ backup else m)"

definition remove_text :: "string \<Rightarrow> string" where
  "remove_text content =
     (let s = fold remove_line (lines content) scan0 in join_hosts (restore (s_main s) (s_backup s)))"

definition contains_by_tag :: "string option \<Rightarrow> bool" where
  "contains_by_tag content = (case content of
     Some c \<Rightarrow> list_ex (\<lambda>line. is_mark line mark_start \<or> is_mark line mark_end) (lines c)
   | None \<Rightarrow> False)"

section \<open>The file\<close>

datatype io_kind = PermissionDenied | OtherKind
datatype hosts_error = TooLarge | NeedsAdmin | IoError

text \<open>\<open>write_result\<close> is what \<open>std::fs::write\<close> answers: success, or an error with the bytes a
  failed write left in the file.\<close>

record hosts_file =
  data :: "bytes option"
  read_ok :: bool
  readonly :: bool
  set_perm_ok :: bool
  write_fails :: "(io_kind \<times> bytes option) option"

definition read_hosts_at :: "hosts_file \<Rightarrow> string option" where
  "read_hosts_at f = (if read_ok f then map_option decode_hosts (data f) else None)"

definition max_file_length :: nat where
  "max_file_length = 50 * 1024 * 1024"

definition write_hosts_at :: "string \<Rightarrow> hosts_file \<Rightarrow> (hosts_error + unit) \<times> hosts_file" where
  "write_hosts_at text f =
     (if max_file_length < length text then (Inl TooLarge, f)
      else (let was_readonly = (readonly f \<and> data f \<noteq> None) in
        if was_readonly \<and> \<not> set_perm_ok f then (Inl IoError, f)
        else (let f1 = (if was_readonly then f\<lparr>readonly := False\<rparr> else f);
                  (r, f2) = (case write_fails f1 of
                      None \<Rightarrow> (Inr (), f1\<lparr>data := Some (bytes_of text)\<rparr>)
                    | Some (k, left) \<Rightarrow>
                        (Inl (if k = PermissionDenied then NeedsAdmin else IoError), f1\<lparr>data := left\<rparr>));
                  f3 = (if was_readonly \<and> data f2 \<noteq> None \<and> set_perm_ok f2 then f2\<lparr>readonly := True\<rparr> else f2)
              in (r, f3))))"

definition update_hosts_at :: "(string \<times> string) list \<Rightarrow> hosts_file \<Rightarrow> (hosts_error + unit) \<times> hosts_file" where
  "update_hosts_at entries f =
     write_hosts_at (update_text entries (case read_hosts_at f of Some c \<Rightarrow> c | None \<Rightarrow> [])) f"

definition remove_hosts_at :: "hosts_file \<Rightarrow> (hosts_error + unit) \<times> hosts_file" where
  "remove_hosts_at f =
     write_hosts_at (remove_text (case read_hosts_at f of Some c \<Rightarrow> c | None \<Rightarrow> [])) f"

definition default_hosts :: string where
  "default_hosts = concat (map (\<lambda>l. l @ [LF]) [
     ''# Copyright (c) 1993-2009 Microsoft Corp.'',
     ''#'',
     ''# This is a sample HOSTS file used by Microsoft TCP/IP for Windows.'',
     ''#'',
     ''# This file contains the mappings of IP addresses to host names. Each'',
     ''# entry should be kept on an individual line. The IP address should'',
     ''# be placed in the first column followed by the corresponding host name.'',
     ''# The IP address and the host name should be separated by at least one'',
     ''# space.'',
     ''#'',
     ''# Additionally, comments (such as these) may be inserted on individual'',
     ''# lines or following the machine name denoted by a '' @ [CHR 0x27] @ ''#'' @ [CHR 0x27] @ '' symbol.'',
     ''#'',
     ''# For example:'',
     ''#'',
     ''#      102.54.94.97     rhino.acme.com          # source server'',
     ''#       38.25.63.10     x.acme.com              # x client host'',
     [],
     ''# localhost name resolution is handled within DNS itself.'',
     ''#'' @ [CHR 0x09] @ ''127.0.0.1       localhost'',
     ''#'' @ [CHR 0x09] @ ''::1             localhost''])"

definition reset_file :: "hosts_file \<Rightarrow> (hosts_error + unit) \<times> hosts_file" where
  "reset_file f = write_hosts_at default_hosts f"

section \<open>Facts on lines\<close>

lemma is_mark_marks [simp]:
  "is_mark mark_start mark_start" "is_mark mark_end mark_end"
  "is_mark backup_mark_start backup_mark_start" "is_mark backup_mark_end backup_mark_end"
  "\<not> is_mark backup_mark_start mark_start" "\<not> is_mark [] mark_start" "\<not> is_mark [] mark_end"
  "\<not> is_mark [] backup_mark_start" "\<not> is_mark [] backup_mark_end"
  "\<not> is_mark mark_start mark_end" "\<not> is_mark backup_mark_start mark_end"
  "\<not> is_mark backup_mark_end mark_start" "\<not> is_mark backup_mark_end mark_end"
  by code_simp+

lemma marks_plain [simp]:
  "trim_end_matches CR mark_start = mark_start" "trim_end_matches CR mark_end = mark_end"
  "trim_end_matches CR backup_mark_start = backup_mark_start"
  "trim_end_matches CR backup_mark_end = backup_mark_end" "trim_end_matches CR [] = []"
  "trim [] = []" "line_domains [] = None" "LF \<notin> set mark_start" "LF \<notin> set mark_end"
  "LF \<notin> set backup_mark_start" "LF \<notin> set backup_mark_end"
  by code_simp+

definition unmarked :: "string \<Rightarrow> bool" where
  "unmarked l = (\<not> is_mark l mark_start \<and> \<not> is_mark l mark_end \<and>
     \<not> is_mark l backup_mark_start \<and> \<not> is_mark l backup_mark_end)"

text \<open>A line as the scanners see it: no line feed inside, no carriage return at the end.\<close>

definition plain :: "string \<Rightarrow> bool" where
  "plain l = (trim_end_matches CR l = l \<and> LF \<notin> set l)"

definition is_managed :: "string set \<Rightarrow> string \<Rightarrow> bool" where
  "is_managed m l = (case line_domains l of Some ds \<Rightarrow> is_hit m ds | None \<Rightarrow> False)"

abbreviation nonblank :: "string \<Rightarrow> bool" where
  "nonblank l \<equiv> trim l \<noteq> []"

lemma is_managed_nonblank: "is_managed m l \<Longrightarrow> nonblank l"
  by (auto simp: is_managed_def line_domains_def is_blank_or_comment_def)

lemma line_domains_nonblank: "line_domains l = Some ds \<Longrightarrow> nonblank l"
  by (auto simp: line_domains_def is_blank_or_comment_def)

lemma trim_end_matches_idem [simp]: "trim_end_matches c (trim_end_matches c l) = trim_end_matches c l"
  by (simp add: trim_end_matches_def)

lemma trim_end_matches_set: "set (trim_end_matches c l) \<subseteq> set l"
  by (auto simp: trim_end_matches_def dest: set_dropWhileD)

lemma plain_raw: "LF \<notin> set l \<Longrightarrow> plain (trim_end_matches CR l)"
  using trim_end_matches_set [of CR l] by (auto simp: plain_def)

lemma pop_blank_spec: "\<exists>bs. ls = pop_blank ls @ bs \<and> (\<forall>l\<in>set bs. trim l = [])"
  unfolding pop_blank_def
  by (rule exI [of _ "rev (takeWhile (\<lambda>l. trim l = []) (rev ls))"])
    (auto simp: rev_append [symmetric] dest: set_takeWhileD)

lemma pop_blank_filter: "filter nonblank (pop_blank ls) = filter nonblank ls"
  using pop_blank_spec [of ls] by (metis (mono_tags, lifting) append_Nil2 filter_False filter_append)

lemma pop_blank_set: "set (pop_blank ls) \<subseteq> set ls"
  using pop_blank_spec [of ls] by (metis Un_upper1 set_append)

lemma pop_blank_snoc [simp]: "trim l = [] \<Longrightarrow> pop_blank (ls @ [l]) = pop_blank ls"
  and pop_blank_Nil [simp]: "pop_blank [] = []"
  and pop_blank_idem [simp]: "pop_blank (pop_blank ls) = pop_blank ls"
  by (simp_all add: pop_blank_def)

section \<open>Facts on the scanners\<close>

text \<open>Pushing a list of lines into the backup; \<open>seen\<close> is always the set of the lines there.\<close>

definition st :: "phase \<Rightarrow> string list \<Rightarrow> string list \<Rightarrow> scan" where
  "st ph m b = \<lparr>s_phase = ph, s_main = m, s_backup = b, s_seen = set b\<rparr>"

lemma st_simps [simp]:
  "s_phase (st ph m b) = ph" "s_main (st ph m b) = m" "s_backup (st ph m b) = b"
  "(st ph m b)\<lparr>s_phase := ph'\<rparr> = st ph' m b" "push_main l (st ph m b) = st ph (m @ [l]) b"
  by (simp_all add: st_def push_main_def)

lemma scan0_st: "scan0 = st Main [] []"
  by (simp add: scan0_def st_def)

lemma push_backup_st: "push_backup l (st ph m b) = st ph m (push_new b (filter nonblank [l]))"
  by (auto simp: push_backup_def push_unique_def st_def)

lemma update_main_line:
  "unmarked l \<Longrightarrow> plain l \<Longrightarrow> update_line mg l (st Main m b) =
     st Main (m @ filter (\<lambda>l. \<not> is_managed mg l) [l]) (push_new b (filter (is_managed mg) [l]))"
  by (auto simp: update_line_def unmarked_def plain_def push_backup_st is_managed_def
      line_domains_nonblank split: option.splits)

lemma update_main:
  "\<forall>l\<in>set ls. unmarked l \<and> plain l \<Longrightarrow> fold (update_line mg) ls (st Main m b) =
     st Main (m @ filter (\<lambda>l. \<not> is_managed mg l) ls) (push_new b (filter (is_managed mg) ls))"
  by (induction ls arbitrary: m b) (auto simp: update_main_line)

lemma update_block:
  "\<forall>l\<in>set ls. \<not> is_mark l mark_end \<and> plain l \<Longrightarrow> fold (update_line mg) ls (st Block m b) = st Block m b"
  by (induction ls) (auto simp: update_line_def plain_def)

text \<open>Which lines a scan for the entries \<open>mg\<close> keeps in the backup block.\<close>

definition stays :: "string set \<Rightarrow> string \<Rightarrow> bool" where
  "stays mg l = (nonblank l \<and> (line_domains l = None \<or> is_managed mg l))"

definition returns :: "string set \<Rightarrow> string \<Rightarrow> bool" where
  "returns mg l = (line_domains l \<noteq> None \<and> \<not> is_managed mg l)"

lemma update_backup_line:
  "\<not> is_mark l backup_mark_end \<Longrightarrow> plain l \<Longrightarrow> update_line mg l (st Backup m b) =
     st Backup (m @ filter (returns mg) [l]) (push_new b (filter (stays mg) [l]))"
  by (auto simp: update_line_def plain_def push_backup_st is_managed_def stays_def returns_def
      line_domains_nonblank split: option.splits)

lemma update_backup:
  "\<forall>l\<in>set ls. \<not> is_mark l backup_mark_end \<and> plain l \<Longrightarrow> fold (update_line mg) ls (st Backup m b) =
     st Backup (m @ filter (returns mg) ls) (push_new b (filter (stays mg) ls))"
  by (induction ls arbitrary: m b) (auto simp: update_backup_line)

lemma remove_main:
  "\<forall>l\<in>set ls. unmarked l \<and> plain l \<Longrightarrow> fold remove_line ls (st Main m b) = st Main (m @ ls) b"
  by (induction ls arbitrary: m) (auto simp: remove_line_def unmarked_def plain_def)

lemma remove_block:
  "\<forall>l\<in>set ls. \<not> is_mark l mark_end \<and> plain l \<Longrightarrow> fold remove_line ls (st Block m b) = st Block m b"
  by (induction ls) (auto simp: remove_line_def plain_def)

lemma remove_backup:
  "\<forall>l\<in>set ls. \<not> is_mark l backup_mark_end \<and> plain l \<Longrightarrow> fold remove_line ls (st Backup m b) =
     st Backup m (push_new b (filter nonblank ls))"
  by (induction ls arbitrary: b) (auto simp: remove_line_def plain_def push_backup_st)

text \<open>The rendered file, scanned again: markers switch the phase.\<close>

lemma update_marks:
  "update_line mg mark_start (st Main m b) = st Block m b"
  "update_line mg mark_end (st Block m b) = st Main m b"
  "update_line mg backup_mark_start (st Main m b) = st Backup m b"
  "update_line mg backup_mark_end (st Backup m b) = st Main m b"
  "update_line mg [] (st Main m b) = st Main (m @ [[]]) b"
  by (simp_all add: update_line_def)

lemma remove_marks:
  "remove_line mark_start (st Main m b) = st Block m b"
  "remove_line mark_end (st Block m b) = st Main m b"
  "remove_line backup_mark_start (st Main m b) = st Backup m b"
  "remove_line backup_mark_end (st Backup m b) = st Main m b"
  "remove_line [] (st Main m b) = st Main (m @ [[]]) b"
  by (simp_all add: remove_line_def)

definition good_file :: "string list \<Rightarrow> string list \<Rightarrow> string list \<Rightarrow> bool" where
  "good_file main es backup =
     ((\<forall>l\<in>set main. unmarked l \<and> plain l) \<and> (\<forall>l\<in>set es. \<not> is_mark l mark_end \<and> plain l) \<and>
      (\<forall>l\<in>set backup. unmarked l \<and> plain l))"

lemma good_fileD:
  assumes "good_file main es backup"
  shows "\<forall>l\<in>set (pop_blank main). unmarked l \<and> plain l"
    and "\<forall>l\<in>set es. \<not> is_mark l mark_end \<and> plain l"
    and "\<forall>l\<in>set backup. \<not> is_mark l backup_mark_end \<and> plain l"
  using assms pop_blank_set [of main] by (auto simp: good_file_def unmarked_def)

text \<open>The blank lines \<open>render\<close> puts around the blocks come back as main lines.\<close>

lemma update_render:
  assumes "good_file main es backup"
  shows "fold (update_line mg) (render main es backup) scan0 =
     st Main (filter (\<lambda>l. \<not> is_managed mg l) (pop_blank main) @
         (if pop_blank main = [] then [] else [[]]) @ (if backup = [] then [] else [[]]) @
         filter (returns mg) backup @ [[]])
       (push_new (push_new [] (filter (is_managed mg) (pop_blank main))) (filter (stays mg) backup))"
  by (simp add: render_def Let_def scan0_st update_main [OF good_fileD(1) [OF assms]]
      update_block [OF good_fileD(2) [OF assms]] update_backup [OF good_fileD(3) [OF assms]] update_marks)

lemma remove_render:
  assumes "good_file main es backup"
  shows "fold remove_line (render main es backup) scan0 =
     st Main (pop_blank main @ (if pop_blank main = [] then [] else [[]]) @
         (if backup = [] then [] else [[]]) @ [[]]) (push_new [] (filter nonblank backup))"
  by (simp add: render_def Let_def scan0_st remove_main [OF good_fileD(1) [OF assms]]
      remove_block [OF good_fileD(2) [OF assms]] remove_backup [OF good_fileD(3) [OF assms]] remove_marks)

lemma pop_blank_append_blank: "\<forall>l\<in>set bs. trim l = [] \<Longrightarrow> pop_blank (ls @ bs) = pop_blank ls"
  by (induction bs arbitrary: ls rule: rev_induct) (auto simp flip: append_assoc)

lemma join_hosts_lines:
  assumes "\<forall>l\<in>set out. LF \<notin> set l" "\<exists>l\<in>set out. l \<noteq> []"
  shows "lines (join_hosts out) = out"
proof -
  have "out \<noteq> []" using assms(2) by auto
  have "join crlf out \<noteq> []"
    using assms(2)
  proof (induction out rule: induct_list012)
    case (3 x y zs)
    then show ?case by simp
  qed auto
  then have "join_hosts out = concat (map (\<lambda>l. l @ crlf) out)"
    using \<open>out \<noteq> []\<close> by (simp add: join_hosts_def join_crlf_terminated)
  then show ?thesis using lines_crlf_list [OF assms(1), of "[]"] by simp
qed

lemma lines_render:
  assumes "good_file main es backup"
  shows "lines (join_hosts (render main es backup)) = render main es backup"
proof (rule join_hosts_lines)
  show "\<forall>l\<in>set (render main es backup). LF \<notin> set l"
    using assms pop_blank_set [of main] by (auto simp: render_def Let_def good_file_def plain_def)
  show "\<exists>l\<in>set (render main es backup). l \<noteq> []"
    by (auto simp: render_def Let_def mark_start_def)
qed

section \<open>The user's lines\<close>

definition user_lines :: "string \<Rightarrow> string list" where
  "user_lines c = map (trim_end_matches CR) (lines c)"

definition good_entries :: "(string \<times> string) list \<Rightarrow> bool" where
  "good_entries es = list_all (\<lambda>l. \<not> is_mark l mark_end \<and> LF \<notin> set l) (entry_lines es)"

lemma update_line_raw: "update_line mg (trim_end_matches CR l) = update_line mg l"
  and remove_line_raw: "remove_line (trim_end_matches CR l) = remove_line l"
  by (simp_all add: update_line_def remove_line_def fun_eq_iff)

lemma fold_user_lines:
  "fold (update_line mg) (lines c) s = fold (update_line mg) (user_lines c) s"
  "fold remove_line (lines c) s = fold remove_line (user_lines c) s"
  by (simp_all add: user_lines_def fold_map comp_def update_line_raw remove_line_raw)

lemma user_lines_plain: "l \<in> set (user_lines c) \<Longrightarrow> plain l"
  by (auto simp: user_lines_def intro!: plain_raw dest: lines_no_LF)

lemma last_trim: "trim s \<noteq> [] \<Longrightarrow> last (trim s) \<noteq> CR"
  using trim_cases [of s] by (auto simp: is_ws_def code_of_def)

lemma entry_lines_plain:
  assumes "good_entries es"
  shows "\<forall>l\<in>set (entry_lines es). \<not> is_mark l mark_end \<and> plain l"
proof
  fix l assume l: "l \<in> set (entry_lines es)"
  then obtain d i where "l = trim i @ '' '' @ trim d" "trim d \<noteq> []"
    by (auto simp: entry_lines_def map_filter_def split: if_splits)
  moreover then have "last l \<noteq> CR" "l \<noteq> []" using last_trim [of d] by auto
  then have "trim_end_matches CR l = l"
    by (cases l rule: rev_cases) (auto simp: trim_end_matches_def)
  ultimately show "\<not> is_mark l mark_end \<and> plain l"
    using assms l by (auto simp: good_entries_def list_all_iff plain_def)
qed

text \<open>The abstract state of the file: the user's main lines and the lines moved aside. A file has
  a view when it holds no marker of ours, or when the program wrote it.\<close>

definition file_view :: "string \<Rightarrow> string list \<Rightarrow> string list \<Rightarrow> bool" where
  "file_view text main backup =
     ((user_lines text = main \<and> backup = [] \<and> list_all unmarked main \<or>
       (\<exists>es. good_file main es backup \<and> text = join_hosts (render main es backup))) \<and>
      distinct backup \<and> (\<forall>l\<in>set backup. line_domains l \<noteq> None))"

text \<open>The user's lines of a view, blank lines aside.\<close>

definition owned :: "string list \<Rightarrow> string list \<Rightarrow> string set" where
  "owned main backup = set (filter nonblank main) \<union> set backup"

lemma view_clean:
  assumes "file_view text main backup" "l \<in> set main \<union> set backup"
  shows "unmarked l \<and> plain l"
proof -
  have "plain l" if "user_lines text = main" "l \<in> set main" using that user_lines_plain by blast
  then show ?thesis using assms by (auto simp: file_view_def good_file_def list_all_iff)
qed

lemma update_scan:
  assumes "file_view text main backup"
  obtains bs where "\<forall>l\<in>set bs. l = []"
    "fold (update_line mg) (lines text) scan0 =
       st Main (filter (\<lambda>l. \<not> is_managed mg l) main @ bs) (push_new [] (filter (is_managed mg) main))
     \<and> backup = [] \<or>
     fold (update_line mg) (lines text) scan0 =
       st Main (filter (\<lambda>l. \<not> is_managed mg l) (pop_blank main) @ bs @ filter (returns mg) backup @ [[]])
         (push_new (push_new [] (filter (is_managed mg) (pop_blank main))) (filter (stays mg) backup))"
proof -
  consider "user_lines text = main" "backup = []"
    | es where "good_file main es backup" "text = join_hosts (render main es backup)"
    using assms by (auto simp: file_view_def)
  then show ?thesis
  proof cases
    case 1
    then have "\<forall>l\<in>set main. unmarked l \<and> plain l" using view_clean [OF assms] by blast
    from update_main [OF this, of mg "[]" "[]"] 1 show ?thesis
      by (intro that [of "[]"]) (simp_all add: fold_user_lines scan0_st)
  next
    case 2
    then show ?thesis
      by (intro that [of "(if pop_blank main = [] then [] else [[]]) @ (if backup = [] then [] else [[]])"])
        (simp_all add: update_render lines_render)
  qed
qed

lemma owned_filter: "set (filter nonblank xs) = {l \<in> set xs. nonblank l}" by simp

lemma pop_blank_nonblank: "{l \<in> set (pop_blank ls). nonblank l} = {l \<in> set ls. nonblank l}"
  using arg_cong [OF pop_blank_filter [of ls], of set] by simp

lemma update_view:
  assumes "file_view text main backup" "good_entries es"
  shows "\<exists>main' backup'. file_view (update_text es text) main' backup' \<and>
    owned main' backup' = owned main backup \<and> (\<forall>l\<in>set main'. \<not> is_managed (managed_of es) l) \<and>
    (\<forall>l\<in>set backup'. is_managed (managed_of es) l) \<and> update_text es text = join_hosts (render main' (entry_lines es) backup')"
proof -
  let ?mg = "managed_of es"
  obtain m b where s: "fold (update_line ?mg) (lines text) scan0 = st Main m b"
    and m: "set m \<subseteq> set main \<union> set backup \<union> {[]}" "\<forall>l\<in>set m. \<not> is_managed ?mg l"
    and b: "set b \<subseteq> set main \<union> set backup" "\<forall>l\<in>set b. is_managed ?mg l" "distinct b"
    and o: "owned m b = owned main backup"
  proof (rule update_scan [OF assms(1), of ?mg], elim disjE conjE)
    fix bs assume bs: "\<forall>l\<in>set bs. l = []" and e: "backup = []"
      "fold (update_line ?mg) (lines text) scan0 =
       st Main (filter (\<lambda>l. \<not> is_managed ?mg l) main @ bs) (push_new [] (filter (is_managed ?mg) main))"
    show thesis
      by (rule that [OF e(2)]) (use bs e(1) is_managed_nonblank [of ?mg] in
          \<open>auto simp: owned_def is_managed_def [of _ "[]"] intro!: distinct_push_new\<close>)
  next
    fix bs assume bs: "\<forall>l\<in>set bs. l = []" and e: "fold (update_line ?mg) (lines text) scan0 =
       st Main (filter (\<lambda>l. \<not> is_managed ?mg l) (pop_blank main) @ bs @ filter (returns ?mg) backup @ [[]])
         (push_new (push_new [] (filter (is_managed ?mg) (pop_blank main))) (filter (stays ?mg) backup))"
    have B: "l \<in> set backup \<Longrightarrow> line_domains l \<noteq> None" for l using assms(1) by (auto simp: file_view_def)
    have sr: "stays ?mg l = is_managed ?mg l \<and> returns ?mg l = (\<not> is_managed ?mg l) \<and> nonblank l"
      if lb: "l \<in> set backup" for l
    proof -
      obtain ds where "line_domains l = Some ds" using B [OF lb] by auto
      then show ?thesis using line_domains_nonblank by (simp add: stays_def returns_def)
    qed
    have pm: "l \<in> set (pop_blank main) \<Longrightarrow> l \<in> set main" for l using pop_blank_set [of main] by blast
    have pn: "l \<in> set main \<Longrightarrow> nonblank l \<Longrightarrow> l \<in> set (pop_blank main)" for l
      using pop_blank_nonblank [of main] by blast
    show thesis
      by (rule that [OF e]) (use bs sr pm pn is_managed_nonblank [of ?mg] in
          \<open>auto simp: owned_def is_managed_def [of _ "[]"] intro!: distinct_push_new\<close>)
  qed
  have u: "update_text es text = join_hosts (render m (entry_lines es) b)"
    by (simp add: update_text_def s)
  have bl: "unmarked l \<and> plain l" if "l \<in> set m" for l
    using that view_clean [OF assms(1)] m(1) by (auto simp: unmarked_def plain_def)
  have "good_file m (entry_lines es) b"
    using view_clean [OF assms(1)] entry_lines_plain [OF assms(2)] b(1) bl by (auto simp: good_file_def)
  then have "file_view (update_text es text) m b"
    using b u by (auto simp: file_view_def is_managed_def split: option.splits)
  with o m(2) b(2) u show ?thesis by blast
qed

lemma lines_restore:
  assumes "\<forall>l\<in>set main \<union> set backup. unmarked l \<and> plain l" "\<forall>l\<in>set backup. nonblank l"
  shows "lines (join_hosts (restore main backup)) = restore main backup"
proof (cases "restore main backup = []")
  case True
  then show ?thesis by (simp add: join_hosts_def)
next
  case False
  have m: "set (pop_blank main) \<subseteq> set main" by (rule pop_blank_set)
  have last: "trim (last (pop_blank main)) \<noteq> []" if "pop_blank main \<noteq> []"
    using that hd_dropWhile [of "\<lambda>l. trim l = []" "rev main"] by (auto simp: pop_blank_def last_rev)
  show ?thesis
  proof (rule join_hosts_lines)
    show "\<forall>l\<in>set (restore main backup). LF \<notin> set l"
      using assms(1) m by (auto simp: restore_def Let_def plain_def)
    have "\<exists>l\<in>set (restore main backup). nonblank l"
    proof (cases "backup = []")
      case True
      then have "pop_blank main \<noteq> []" using False by (simp add: restore_def)
      then show ?thesis using last True by (auto simp: restore_def intro!: bexI [of _ "last (pop_blank main)"])
    next
      case False
      then have "hd backup \<in> set (restore main backup)" "nonblank (hd backup)"
        using assms(2) by (auto simp: restore_def Let_def)
      then show ?thesis by blast
    qed
    then show "\<exists>l\<in>set (restore main backup). l \<noteq> []" by (metis trim_Nil)
  qed
qed

text \<open>What stopping leaves, from any view.\<close>

lemma remove_text_view:
  assumes "file_view text main backup"
  shows "remove_text text = join_hosts (restore main backup)"
proof -
  have c: "\<forall>l\<in>set main \<union> set backup. unmarked l \<and> plain l" using view_clean [OF assms] by blast
  have d: "distinct backup" and nb: "\<forall>l\<in>set backup. nonblank l"
    using assms line_domains_nonblank by (auto simp: file_view_def)
  then have fb: "push_new [] (filter nonblank backup) = backup"
    by (simp add: filter_id_conv [THEN iffD2] push_new_fresh)
  have "\<exists>m. fold remove_line (lines text) scan0 = st Main m backup \<and> pop_blank m = pop_blank main"
  proof -
    consider "user_lines text = main" "backup = []"
      | es where "good_file main es backup" "text = join_hosts (render main es backup)"
      using assms by (auto simp: file_view_def)
    then show ?thesis
    proof cases
      case 1
      then have "\<forall>l\<in>set main. unmarked l \<and> plain l" using c by blast
      from remove_main [OF this, of "[]" "[]"] 1 show ?thesis
        by (intro exI [of _ main]) (simp add: fold_user_lines scan0_st)
    next
      case 2
      define bs :: "string list" where "bs = (if pop_blank main = [] then [] else [[]]) @ (if backup = [] then [] else [[]]) @ [[]]"
      have "fold remove_line (lines text) scan0 = st Main (pop_blank main @ bs) backup"
        using 2 fb by (simp add: lines_render remove_render bs_def)
      moreover have "pop_blank (pop_blank main @ bs) = pop_blank main"
        by (subst pop_blank_append_blank) (auto simp: bs_def)
      ultimately show ?thesis by blast
    qed
  qed
  then show ?thesis by (auto simp: remove_text_def restore_def Let_def)
qed

lemma remove_view:
  assumes "file_view text main backup"
  shows "lines (remove_text text) = restore main backup"
proof -
  have c: "\<forall>l\<in>set main \<union> set backup. unmarked l \<and> plain l" using view_clean [OF assms] by blast
  have "\<forall>l\<in>set backup. nonblank l" using assms line_domains_nonblank by (auto simp: file_view_def)
  then show ?thesis by (simp add: remove_text_view [OF assms] lines_restore [OF c])
qed

lemma fold_view:
  assumes "list_all unmarked (user_lines c)" "list_all good_entries ess"
  shows "\<exists>main backup. file_view (fold update_text ess c) main backup \<and> owned main backup = owned (user_lines c) []"
proof -
  have "\<exists>main backup. file_view (fold update_text ess t) main backup \<and> owned main backup = owned m0 b0"
    if "file_view t m0 b0" for t m0 b0
    using assms(2) that
  proof (induction ess arbitrary: t m0 b0)
    case (Cons es ess)
    then obtain m1 b1 where "file_view (update_text es t) m1 b1" "owned m1 b1 = owned m0 b0"
      using update_view [of t m0 b0 es] by auto
    with Cons show ?case by fastforce
  qed auto
  moreover have "file_view c (user_lines c) []" using assms(1) by (simp add: file_view_def)
  ultimately show ?thesis by blast
qed

lemma update_rendered:
  assumes v: "file_view (join_hosts (render main (entry_lines es) backup)) main backup"
    and n: "\<forall>l\<in>set main. \<not> is_managed (managed_of es) l" and b: "\<forall>l\<in>set backup. is_managed (managed_of es) l"
    and es: "good_entries es"
  shows "update_text es (join_hosts (render main (entry_lines es) backup)) =
    join_hosts (render main (entry_lines es) backup)"
proof -
  let ?mg = "managed_of es"
  have g: "good_file main (entry_lines es) backup"
    using view_clean [OF v] entry_lines_plain [OF es] by (auto simp: good_file_def)
  have B: "filter (returns ?mg) backup = []" "filter (stays ?mg) backup = backup" "push_new [] backup = backup"
    using v b is_managed_nonblank [of ?mg] by (auto simp: filter_empty_conv filter_id_conv returns_def
        stays_def file_view_def push_new_fresh)
  have M: "filter (is_managed ?mg) (pop_blank main) = []" "filter (\<lambda>l. \<not> is_managed ?mg l) (pop_blank main) = pop_blank main"
    using n pop_blank_set [of main] by (auto simp: filter_empty_conv filter_id_conv)
  define bs :: "string list" where "bs = (if pop_blank main = [] then [] else [[]]) @ (if backup = [] then [] else [[]]) @ [[]]"
  have "pop_blank (pop_blank main @ bs) = pop_blank main"
    by (subst pop_blank_append_blank) (auto simp: bs_def)
  then have "render (pop_blank main @ bs) (entry_lines es) backup = render main (entry_lines es) backup"
    by (simp add: render_def)
  moreover have "fold (update_line ?mg) (render main (entry_lines es) backup) scan0 = st Main (pop_blank main @ bs) backup"
    by (simp add: update_render [OF g] B M bs_def)
  ultimately show ?thesis by (simp add: update_text_def lines_render [OF g])
qed

section \<open>What a resolver reads\<close>

text \<open>A resolver takes the first line of the file that names the host.\<close>

definition names_host :: "string \<Rightarrow> string \<Rightarrow> bool" where
  "names_host d l = (case line_domains l of Some ds \<Rightarrow> d \<in> set ds | None \<Rightarrow> False)"

definition hosts_lookup :: "string list \<Rightarrow> string \<Rightarrow> ipaddr option" where
  "hosts_lookup ls d = (case List.find (names_host d) ls of
     Some l \<Rightarrow> parse_ip (hd (split_ws (trim l))) | None \<Rightarrow> None)"

definition token :: "string \<Rightarrow> bool" where
  "token s = (s \<noteq> [] \<and> list_all (\<lambda>c. \<not> is_ws c) s \<and> hd s \<noteq> CHR ''#'')"

definition entry_ok :: "string \<times> string \<Rightarrow> bool" where
  "entry_ok e = (token (fst e) \<and> token (snd e) \<and> parse_ip (snd e) \<noteq> None)"

lemma split_ws_acc_token:
  "list_all (\<lambda>c. \<not> is_ws c) s \<Longrightarrow> split_ws_acc acc (s @ t) = split_ws_acc (rev s @ acc) t"
  by (induction s arbitrary: acc) auto

lemma is_ws_space [simp]: "is_ws CHR '' ''"
  by (simp add: is_ws_def code_of_def)

lemma split_ws_tokens: "token a \<Longrightarrow> token b \<Longrightarrow> split_ws (a @ '' '' @ b) = [a, b]"
  using split_ws_acc_token [of b "[]" "[]"]
  by (auto simp: split_ws_def token_def split_ws_acc_token)

lemma trim_token: "token s \<Longrightarrow> trim s = s"
  by (auto simp: token_def trim_nonempty_iff list_all_iff)

lemma trim_tokens: "token a \<Longrightarrow> token b \<Longrightarrow> trim (a @ '' '' @ b) = a @ '' '' @ b"
  by (rule trim_nonempty_iff [THEN iffD2]) (auto simp: token_def list_all_iff)

lemma entry_line_domains:
  assumes "entry_ok (d, ip)"
  shows "line_domains (ip @ '' '' @ d) = Some [to_lower d]"
proof -
  have t: "token ip" "token d" using assms by (auto simp: entry_ok_def)
  then have "\<not> is_blank_or_comment (ip @ '' '' @ d)"
    unfolding is_blank_or_comment_def Let_def trim_tokens [OF t] by (cases ip) (auto simp: token_def)
  moreover have "takeWhile (\<lambda>t. \<not> starts_with t ''#'') [d] = [d]"
    using t(2) by (cases d) (auto simp: token_def)
  ultimately show ?thesis
    using assms unfolding line_domains_def trim_tokens [OF t] split_ws_tokens [OF t]
    by (auto simp: entry_ok_def)
qed

lemma entry_lines_ok:
  "list_all entry_ok es \<Longrightarrow> entry_lines es = map (\<lambda>(d, ip). ip @ '' '' @ d) es"
  by (induction es) (auto simp: entry_lines_def entry_ok_def trim_token map_filter_simps token_def)

lemma entry_not_mark: "token ip \<Longrightarrow> token d \<Longrightarrow> \<not> is_mark (ip @ '' '' @ d) mark_end"
proof
  assume t: "token ip" "token d" and "is_mark (ip @ '' '' @ d) mark_end"
  then have "to_lower (ip @ '' '' @ d) = to_lower mark_end"
    unfolding is_mark_def eq_ignore_case_def split_ws_tokens [OF t] by simp
  moreover have "hd (to_lower mark_end) = CHR ''#''" by code_simp
  ultimately have "hd (to_lower (ip @ '' '' @ d)) = CHR ''#''" by metis
  then have "lower_char (hd ip) = CHR ''#''" using t(1) by (cases ip) (auto simp: token_def)
  then have "hd ip = CHR ''#''" by (rule lower_char_fixed) (simp add: code_of_def)
  with t(1) show False by (simp add: token_def)
qed

lemma token_no_LF: "token s \<Longrightarrow> LF \<notin> set s"
  by (auto simp: token_def list_all_iff is_ws_def code_of_def)

lemma entries_good: "list_all entry_ok es \<Longrightarrow> good_entries es"
  using token_no_LF entry_not_mark
  by (fastforce simp: good_entries_def entry_lines_ok list_all_iff entry_ok_def)

lemma managed_entry: "list_all entry_ok es \<Longrightarrow> (d, ip) \<in> set es \<Longrightarrow> to_lower d \<in> managed_of es"
  by (induction es) (auto simp: managed_of_def entry_ok_def trim_token token_def)

lemma find_skip: "\<forall>x\<in>set xs. \<not> P x \<Longrightarrow> List.find P (xs @ ys) = List.find P ys"
  by (induction xs) auto

lemma names_host_marks [simp]: "\<not> names_host d mark_start" "\<not> names_host d []"
proof -
  have "line_domains mark_start = None" by code_simp
  then show "\<not> names_host d mark_start" "\<not> names_host d []" by (simp_all add: names_host_def)
qed

lemma names_entry: "entry_ok (d, ip) \<Longrightarrow> names_host h (ip @ CHR '' '' # d) = (h = to_lower d)"
  using entry_line_domains [of d ip] by (simp add: names_host_def)

lemma names_managed: "\<not> is_managed m l \<Longrightarrow> d \<in> m \<Longrightarrow> \<not> names_host d l"
  by (auto simp: names_host_def is_managed_def is_hit_def list_ex_iff split: option.splits)

section \<open>Properties\<close>

text \<open>C1. Starting, restarting and stopping the proxy loses none of the user's hosts lines: after any
  sequence of updates with any entry lists, the final removal leaves exactly the non-blank lines the
  user's file had (as sets), and no marker of the program.\<close>

theorem updates_then_remove_restores:
  assumes "list_all unmarked (user_lines c)" and "list_all good_entries ess"
  shows "set (filter nonblank (lines (remove_text (fold update_text ess c)))) = set (filter nonblank (user_lines c))
    \<and> \<not> contains_by_tag (Some (remove_text (fold update_text ess c)))"
proof -
  obtain main backup where v: "file_view (fold update_text ess c) main backup"
    and o: "owned main backup = owned (user_lines c) []" using fold_view [OF assms] by blast
  have nb: "\<forall>l\<in>set backup. nonblank l" using v line_domains_nonblank by (auto simp: file_view_def)
  have "set (filter nonblank (restore main backup)) = owned main backup"
    using nb pop_blank_nonblank [of main] by (auto simp: restore_def Let_def owned_def)
  moreover have "\<forall>l\<in>set (restore main backup). \<not> is_mark l mark_start \<and> \<not> is_mark l mark_end"
    using view_clean [OF v] pop_blank_set [of main] by (auto simp: restore_def Let_def unmarked_def)
  ultimately show ?thesis
    using o by (auto simp: remove_view [OF v] contains_by_tag_def list_ex_iff owned_def)
qed

text \<open>Updating is idempotent: writing the same entries again leaves the text of the file as it
  is, from any file without markers and after any earlier sequence of updates.\<close>

theorem update_idempotent:
  assumes "list_all unmarked (user_lines c)" "list_all good_entries ess" "good_entries es"
  shows "update_text es (update_text es (fold update_text ess c)) = update_text es (fold update_text ess c)"
proof -
  obtain m0 b0 where v0: "file_view (fold update_text ess c) m0 b0"
    using fold_view [OF assms(1,2)] by blast
  obtain main backup where v: "file_view (update_text es (fold update_text ess c)) main backup"
    and n: "\<forall>l\<in>set main. \<not> is_managed (managed_of es) l"
    and u: "update_text es (fold update_text ess c) = join_hosts (render main (entry_lines es) backup)"
    and b: "\<forall>l\<in>set backup. is_managed (managed_of es) l"
    using update_view [OF v0 assms(3)] by blast
  show ?thesis using update_rendered [OF v [unfolded u] n b assms(3)] by (simp add: u)
qed

text \<open>C36. While the proxy runs its entries win: for well-formed entries, the first line of the
  written file that names a managed domain is the first entry for it, whatever the user's file
  mapped the domain to.\<close>

theorem update_entries_win:
  assumes "list_all unmarked (user_lines c)" "list_all good_entries ess"
    and es: "list_all entry_ok (es1 @ (d, ip) # es2)" and first: "\<forall>e\<in>set es1. to_lower (fst e) \<noteq> to_lower d"
  shows "hosts_lookup (lines (update_text (es1 @ (d, ip) # es2) (fold update_text ess c))) (to_lower d) = parse_ip ip"
proof -
  let ?es = "es1 @ (d, ip) # es2" and ?d = "to_lower d"
  obtain m0 b0 where v0: "file_view (fold update_text ess c) m0 b0" using fold_view [OF assms(1,2)] by blast
  obtain main backup where v: "file_view (update_text ?es (fold update_text ess c)) main backup"
    and n: "\<forall>l\<in>set main. \<not> is_managed (managed_of ?es) l"
    and u: "update_text ?es (fold update_text ess c) = join_hosts (render main (entry_lines ?es) backup)"
    using update_view [OF v0 entries_good [OF es]] by blast
  have g: "good_file main (entry_lines ?es) backup"
    using view_clean [OF v] entry_lines_plain [OF entries_good [OF es]] by (auto simp: good_file_def)
  define pre where "pre = (let m = pop_blank main in if m \<noteq> [] then m @ [[]] else m) @ [mark_start] @
    map (\<lambda>(d, ip). ip @ '' '' @ d) es1"
  have "\<exists>post. render main (entry_lines ?es) backup = pre @ (ip @ '' '' @ d) # post"
    by (cases "backup = []") (simp_all add: render_def entry_lines_ok [OF es] pre_def Let_def)
  then obtain post where r: "render main (entry_lines ?es) backup = pre @ (ip @ '' '' @ d) # post" by blast
  have dm: "?d \<in> managed_of ?es" using managed_entry [OF es, of d ip] by simp
  have "\<forall>l\<in>set pre. \<not> names_host ?d l"
    using n pop_blank_set [of main] names_managed [OF _ dm] first es
    by (auto simp: pre_def Let_def names_entry list_all_iff)
  moreover have "names_host ?d (ip @ '' '' @ d)" using es by (simp add: names_entry)
  ultimately have "List.find (names_host ?d) (render main (entry_lines ?es) backup) = Some (ip @ '' '' @ d)"
    by (simp add: r find_skip)
  moreover have "token ip" "token d" using es by (auto simp: entry_ok_def)
  ultimately show ?thesis
    unfolding hosts_lookup_def u lines_render [OF g] by (simp add: trim_tokens [simplified] split_ws_tokens [simplified])
qed

text \<open>A write never leaves the file larger than 50 MB by its own doing, refuses such a text
  without touching the file, succeeds only with the text on disk, and puts a read-only attribute
  it had to clear back even when the write failed.\<close>

theorem write_hosts_safe:
  assumes "write_hosts_at text f = (r, f')"
  shows "(max_file_length < length text \<longrightarrow> r = Inl TooLarge \<and> f' = f)
    \<and> (r = Inr () \<longrightarrow> data f' = Some (bytes_of text) \<and> length text \<le> max_file_length)
    \<and> (data f' \<noteq> None \<longrightarrow> readonly f' = readonly f \<or> data f = None)
    \<and> (r = Inl NeedsAdmin \<longrightarrow> (\<exists>left. write_fails f = Some (PermissionDenied, left)))"
  using assms
  by (auto simp: write_hosts_at_def Let_def split: if_splits option.splits prod.splits)

section \<open>Witnesses\<close>

definition sample_hosts :: string where
  "sample_hosts = ''# mine'' @ crlf @ ''10.0.0.1 a.com'' @ crlf @ crlf @ ''10.0.0.2 b.com'' @ crlf"

lemma sample_unmarked: "list_all unmarked (user_lines sample_hosts)"
  by code_simp

lemma updates_then_remove_witness:
  "set (filter nonblank (lines (remove_text (fold update_text [[(''a.com'', ''127.0.0.1'')], []] sample_hosts))))
     = {''# mine'', ''10.0.0.1 a.com'', ''10.0.0.2 b.com''}"
proof -
  have g: "list_all good_entries [[(''a.com'', ''127.0.0.1'')], []]" by code_simp
  have u: "filter nonblank (user_lines sample_hosts) = [''# mine'', ''10.0.0.1 a.com'', ''10.0.0.2 b.com'']"
    by code_simp
  show ?thesis using updates_then_remove_restores [OF sample_unmarked g] unfolding u by simp
qed

lemma update_idempotent_witness:
  "update_text [(''a.com'', ''127.0.0.1'')] (update_text [(''a.com'', ''127.0.0.1'')] sample_hosts) =
     update_text [(''a.com'', ''127.0.0.1'')] sample_hosts"
proof -
  have g: "good_entries [(''a.com'', ''127.0.0.1'')]" by code_simp
  show ?thesis using update_idempotent [OF sample_unmarked _ g, of "[]"] by simp
qed

lemma update_entries_win_witness:
  "hosts_lookup (lines (update_text [(''a.com'', ''127.0.0.1'')] sample_hosts)) ''a.com'' = Some loopback4"
proof -
  have e: "list_all entry_ok [(''a.com'', ''127.0.0.1'')]" "to_lower ''a.com'' = ''a.com''"
    "parse_ip ''127.0.0.1'' = Some loopback4" by code_simp+
  show ?thesis
    using update_entries_win [of sample_hosts "[]" "[]" "''a.com''" "''127.0.0.1''" "[]"] sample_unmarked e by simp
qed

lemma write_hosts_witness:
  "\<exists>r f'. write_hosts_at ''x'' \<lparr>data = Some [], read_ok = True, readonly = True, set_perm_ok = True,
     write_fails = Some (PermissionDenied, Some [])\<rparr> = (r, f') \<and> readonly f'"
proof -
  let ?f = "\<lparr>data = Some [], read_ok = True, readonly = True, set_perm_ok = True,
     write_fails = Some (PermissionDenied, Some [])\<rparr>"
  obtain r f' where w: "write_hosts_at ''x'' ?f = (r, f')" by (cases "write_hosts_at ''x'' ?f")
  moreover have "data f' \<noteq> None" using w by (auto simp: write_hosts_at_def Let_def max_file_length_def)
  ultimately show ?thesis using write_hosts_safe [OF w] by auto
qed

section \<open>Where the code loses lines\<close>

text \<open>A file that cannot be read is taken for an empty one: the user's lines are overwritten.\<close>

lemma unreadable_file_overwritten:
  "snd (update_hosts_at [] \<lparr>data = Some (bytes_of (''10.0.0.1 a'' @ crlf)), read_ok = False, readonly = False,
     set_perm_ok = True, write_fails = None\<rparr>) =
   \<lparr>data = Some (bytes_of (update_text [] [])), read_ok = False, readonly = False, set_perm_ok = True,
     write_fails = None\<rparr>"
proof -
  have "length (update_text [] []) \<le> 100" by code_simp
  then show ?thesis by (simp add: update_hosts_at_def read_hosts_at_def write_hosts_at_def max_file_length_def)
qed

text \<open>Everything after a start marker without its end marker is taken for the program's block.\<close>

lemma unterminated_block_drops_rest:
  "remove_text (mark_start @ crlf @ ''10.0.0.1 a'' @ crlf) = []"
  by code_simp

end
