(* ===== verification/Io.thy ===== *)
theory Io
  imports RustNet
begin

text \<open>
  Byte streams. A state holds what the peer will send (\<open>inp\<close>), in which portions the reads deliver
  it (\<open>segs\<close>, the bytes the next reads return at most), what happens after the last byte
  (\<open>ending\<close>: end of file, an error, or silence until a timeout), what has been written (\<open>outp\<close>) and
  how many more bytes the writer accepts before it fails (\<open>room\<close>, \<open>None\<close> for no limit). Bytes are
  characters. A failed call returns \<open>None\<close>; where the code has no timeout a silent peer is modelled
  like a failing one, since nothing more happens on the connection in either case.
\<close>

datatype ending = Eof | Fail | Stall

record io =
  inp :: string
  segs :: "nat list"
  ending_of :: ending
  outp :: string
  room :: "nat option"

definition read_some :: "nat \<Rightarrow> io \<Rightarrow> string option \<times> io" where
  "read_some n s =
     (if inp s = [] then (case ending_of s of Eof \<Rightarrow> (Some [], s) | _ \<Rightarrow> (None, s))
      else (let k = min n (case segs s of [] \<Rightarrow> length (inp s) | g # _ \<Rightarrow> max 1 g) in
        (Some (take k (inp s)), s\<lparr>inp := drop k (inp s), segs := tl (segs s)\<rparr>)))"

text \<open>\<open>write_all\<close>: on failure the bytes that still fitted are out, and every later write fails.\<close>

definition write_all :: "string \<Rightarrow> io \<Rightarrow> bool \<times> io" where
  "write_all bs s = (case room s of
     None \<Rightarrow> (True, s\<lparr>outp := outp s @ bs\<rparr>)
   | Some r \<Rightarrow> if length bs \<le> r then (True, s\<lparr>outp := outp s @ bs, room := Some (r - length bs)\<rparr>)
       else (False, s\<lparr>outp := outp s @ take r bs, room := Some 0\<rparr>))"

text \<open>\<open>read_full\<close>, \<open>read_exact\<close>: fill a buffer of \<open>n\<close> bytes.\<close>

function read_full :: "nat \<Rightarrow> io \<Rightarrow> string option \<times> io" where
  "read_full n s =
     (if n = 0 then (Some [], s)
      else (case read_some n s of
          (None, s') \<Rightarrow> (None, s')
        | (Some bs, s') \<Rightarrow>
            if bs = [] then (None, s')
            else (case read_full (n - length bs) s' of
                (None, s'') \<Rightarrow> (None, s'')
              | (Some cs, s'') \<Rightarrow> (Some (bs @ cs), s''))))"
  by pat_completeness auto
termination
  by (relation "measure fst") (auto simp: read_some_def Let_def split: if_splits ending.splits list.splits)

declare read_full.simps [simp del]

section \<open>Facts on reading\<close>

text \<open>\<open>moves s bs s'\<close>: the call read exactly \<open>bs\<close>; \<open>sends s bs s'\<close>: it wrote exactly \<open>bs\<close>.\<close>

definition takes :: "io \<Rightarrow> string \<Rightarrow> io \<Rightarrow> bool" where
  "takes s bs s' = (inp s = bs @ inp s' \<and> ending_of s' = ending_of s)"

definition quiet :: "io \<Rightarrow> io \<Rightarrow> bool" where
  "quiet s s' = (outp s' = outp s \<and> room s' = room s)"

lemma takes_refl [simp]: "takes s [] s" and quiet_refl [simp]: "quiet s s"
  by (simp_all add: takes_def quiet_def)

lemma takes_trans: "takes s a t \<Longrightarrow> takes t b u \<Longrightarrow> takes s (a @ b) u"
  by (simp add: takes_def)

lemma quiet_trans: "quiet s t \<Longrightarrow> quiet t u \<Longrightarrow> quiet s u"
  by (simp add: quiet_def)

lemma read_some_spec:
  "read_some n s = (r, s') \<Longrightarrow> quiet s s' \<and>
     (case r of None \<Rightarrow> s' = s \<and> inp s = [] | Some bs \<Rightarrow> takes s bs s' \<and> length bs \<le> n \<and>
        (0 < n \<longrightarrow> (bs = [] \<longleftrightarrow> inp s = [])))"
  by (auto simp: read_some_def takes_def quiet_def Let_def split: if_splits ending.splits list.splits)

lemma read_some_one:
  "inp s = c # cs \<Longrightarrow> \<exists>s'. read_some 1 s = (Some [c], s') \<and> inp s' = cs \<and> quiet s s' \<and> ending_of s' = ending_of s"
  by (auto simp: read_some_def quiet_def Let_def split: list.splits)

lemma read_full_spec:
  "read_full n s = (r, s') \<Longrightarrow> quiet s s' \<and> length (inp s') \<le> length (inp s) \<and>
     (\<forall>bs. r = Some bs \<longrightarrow> takes s bs s' \<and> length bs = n)"
proof (induction n s arbitrary: r s' rule: read_full.induct)
  case (1 n s)
  show ?case
  proof (cases "n = 0")
    case True
    with 1(2) show ?thesis by (auto simp: read_full.simps)
  next
    case False
    obtain x s1 where x: "read_some n s = (x, s1)" by (cases "read_some n s")
    note rs = read_some_spec [OF x]
    show ?thesis
    proof (cases "x = None \<or> x = Some []")
      case True
      with 1(2) False x rs show ?thesis
        by (auto simp: read_full.simps [of n s] takes_def split: option.splits)
    next
      case f: False
      then obtain bs where bs: "x = Some bs" "bs \<noteq> []" by auto
      obtain y s2 where y: "read_full (n - length bs) s1 = (y, s2)" by (cases "read_full (n - length bs) s1")
      have ih: "quiet s1 s2 \<and> length (inp s2) \<le> length (inp s1) \<and>
          (\<forall>cs. y = Some cs \<longrightarrow> takes s1 cs s2 \<and> length cs = n - length bs)"
        using 1(1) [OF False x [symmetric] bs(1) bs(2) y] .
      have r: "r = map_option (\<lambda>cs. bs @ cs) y" "s' = s2"
        using 1(2) False x bs y by (auto simp: read_full.simps [of n s] split: option.splits)
      show ?thesis
        using rs ih bs r by (auto simp: takes_def quiet_def)
    qed
  qed
qed

text \<open>With enough input a full read succeeds, however the input is segmented.\<close>

lemma read_full_enough:
  "n \<le> length (inp s) \<Longrightarrow> \<exists>s'. read_full n s = (Some (take n (inp s)), s') \<and> inp s' = drop n (inp s)"
proof (induction n s rule: read_full.induct)
  case (1 n s)
  show ?case
  proof (cases "n = 0")
    case True
    then show ?thesis by (simp add: read_full.simps)
  next
    case False
    obtain x s1 where x: "read_some n s = (x, s1)" by (cases "read_some n s")
    have ne: "inp s \<noteq> []" using 1(2) False by auto
    then obtain bs where bs: "x = Some bs" "bs \<noteq> []"
      using read_some_spec [OF x] False by (cases x) auto
    have t: "inp s = bs @ inp s1" "length bs \<le> n" using read_some_spec [OF x] bs by (auto simp: takes_def)
    then have "n - length bs \<le> length (inp s1)" using 1(2) by simp
    from 1(1) [OF False x [symmetric] bs this] obtain s2
      where "read_full (n - length bs) s1 = (Some (take (n - length bs) (inp s1)), s2)"
        "inp s2 = drop (n - length bs) (inp s1)" by blast
    with x bs t False show ?thesis by (simp add: read_full.simps [of n s])
  qed
qed

lemma write_all_spec:
  "write_all bs s = (ok, s') \<Longrightarrow> inp s' = inp s \<and> segs s' = segs s \<and> ending_of s' = ending_of s \<and>
     (ok \<longrightarrow> outp s' = outp s @ bs) \<and> prefix (outp s) (outp s') \<and> (room s = None \<longrightarrow> ok \<and> room s' = None)"
  by (auto simp: write_all_def split: option.splits if_splits)

end
