(* ===== verification/Http1.thy ===== *)
theory Http1
  imports Io
begin

text \<open>
  \<open>crates/core/src/http1.rs\<close>: reading one request, serialising it for the upstream, reading a
  response head and relaying the body in its framing, and trying the candidate endpoints in
  order. Sockets are the streams of theory Io; what a connection attempt yields is a
  parameter.
\<close>

section \<open>Requests\<close>

record http_request =
  r_method :: string
  r_path :: string
  r_headers :: "(string \<times> string) list"
  r_body :: string

definition find_header :: "string \<Rightarrow> (string \<times> string) list \<Rightarrow> string option" where
  "find_header name hs = map_option snd (List.find (\<lambda>(k, _). eq_ignore_case k name) hs)"

definition header :: "http_request \<Rightarrow> string \<Rightarrow> string option" where
  "header req name = find_header name (r_headers req)"

definition default_port :: "string option \<Rightarrow> u16" where
  "default_port p = (case Option.bind p (\<lambda>p. parse_u16 (trim p)) of Some n \<Rightarrow> n | None \<Rightarrow> 443)"

text \<open>A bracketed IPv6 literal: the address and what follows the bracket.\<close>

definition bracketed :: "string \<Rightarrow> (string \<times> string) option" where
  "bracketed h = (case strip_prefix ''['' h of None \<Rightarrow> None | Some rest \<Rightarrow> split_once CHR '']'' rest)"

definition request_host :: "http_request \<Rightarrow> string option" where
  "request_host req = map_option (\<lambda>h. case bracketed h of
       Some (a, _) \<Rightarrow> a
     | None \<Rightarrow> hd (split_on CHR '':'' h)) (header req ''Host'')"

definition host_port :: "http_request \<Rightarrow> (string \<times> u16) option" where
  "host_port req = map_option (\<lambda>h. case bracketed h of
       Some (a, rest) \<Rightarrow> (a, default_port (strip_prefix '':'' rest))
     | None \<Rightarrow> (case rsplit_once CHR '':'' h of
         Some (host, port) \<Rightarrow> (host, default_port (Some port))
       | None \<Rightarrow> (h, 443))) (header req ''Host'')"

definition head_end :: string where "head_end = crlf @ crlf"

text \<open>The byte-wise loops of \<open>read_request\<close>, \<open>read_one_response_head\<close> and \<open>read_line\<close>: they
  read until the bytes end with a delimiter and give up beyond a length.\<close>

function read_until :: "string \<Rightarrow> nat \<Rightarrow> string \<Rightarrow> io \<Rightarrow> string option \<times> io" where
  "read_until delim mx buf s = (case read_some 1 s of
     (None, s') \<Rightarrow> (None, s')
   | (Some bs, s') \<Rightarrow>
       if bs = [] then (None, s')
       else (let buf' = buf @ bs in
         if ends_with buf' delim then (Some buf', s')
         else if mx < length buf' then (None, s')
         else read_until delim mx buf' s'))"
  by pat_completeness auto
termination
  by (relation "measure (\<lambda>(_, _, _, s). length (inp s))")
    (auto simp: read_some_def Let_def split: if_splits ending.splits list.splits)

declare read_until.simps [simp del]

definition read_head :: "io \<Rightarrow> string option \<times> io" where
  "read_head = read_until head_end 65536 []"

definition read_line :: "nat \<Rightarrow> io \<Rightarrow> string option \<times> io" where
  "read_line mx = read_until crlf mx []"

lemma read_some_one_dec:
  "read_some (Suc 0) s = (Some bs, s') \<Longrightarrow> bs \<noteq> [] \<Longrightarrow> length (inp s') < length (inp s)"
  by (auto simp: read_some_def Let_def split: if_splits ending.splits list.splits)

lemma read_until_spec:
  "read_until delim mx buf s = (r, s') \<Longrightarrow> quiet s s' \<and> length (inp s') \<le> length (inp s) \<and>
     (\<forall>l. r = Some l \<longrightarrow> (\<exists>bs. l = buf @ bs \<and> bs \<noteq> [] \<and> takes s bs s') \<and> ends_with l delim)"
proof (induction delim mx buf s arbitrary: r s' rule: read_until.induct)
  case (1 delim mx buf s)
  obtain x s1 where x: "read_some 1 s = (x, s1)" by (cases "read_some 1 s")
  note rs = read_some_spec [OF x]
  show ?case
  proof (cases "x = None \<or> x = Some []")
    case True
    then show ?thesis using 1(2) x rs
      by (auto simp: read_until.simps [of delim mx buf s] takes_def split: option.splits)
  next
    case False
    then obtain bs where bs: "x = Some bs" "bs \<noteq> []" by auto
    then have q: "quiet s s1" "takes s bs s1" using rs by auto
    consider "ends_with (buf @ bs) delim" | "\<not> ends_with (buf @ bs) delim" "mx < length (buf @ bs)"
      | "\<not> ends_with (buf @ bs) delim" "\<not> mx < length (buf @ bs)" by blast
    then show ?thesis
    proof cases
      case 3
      then have "read_until delim mx (buf @ bs) s1 = (r, s')"
        using 1(2) x bs by (simp add: read_until.simps [of delim mx buf s] Let_def)
      from 1(1) [OF x [symmetric] bs(1,2) refl 3 this] q bs(2) show ?thesis
        by (fastforce simp: takes_def quiet_def)
    qed (use 1(2) x bs q in \<open>auto simp: read_until.simps [of delim mx buf s] takes_def Let_def\<close>)
  qed
qed

lemma read_until_exact:
  assumes "inp s = l @ rest" "l \<noteq> []" "ends_with (buf @ l) delim" "length (buf @ l) \<le> Suc mx"
    and "\<And>q. strict_prefix q l \<Longrightarrow> q \<noteq> [] \<Longrightarrow> \<not> ends_with (buf @ q) delim"
  shows "\<exists>s'. read_until delim mx buf s = (Some (buf @ l), s') \<and> inp s' = rest \<and> quiet s s' \<and> ending_of s' = ending_of s"
  using assms
proof (induction l arbitrary: buf s)
  case (Cons c l)
  have "inp s = c # (l @ rest)" using Cons.prems(1) by simp
  from read_some_one [OF this] obtain s1 where s1: "read_some 1 s = (Some [c], s1)"
    "inp s1 = l @ rest" "quiet s s1" "ending_of s1 = ending_of s" by blast
  show ?case
  proof (cases "l = []")
    case True
    then show ?thesis using Cons.prems(3) s1 by (simp add: read_until.simps [of delim mx buf s] Let_def)
  next
    case False
    have n: "\<not> ends_with (buf @ [c]) delim" using Cons.prems(5) [of "[c]"] False by (simp add: strict_prefix_def)
    have "\<exists>s'. read_until delim mx (buf @ [c]) s1 = (Some ((buf @ [c]) @ l), s') \<and> inp s' = rest \<and>
        quiet s1 s' \<and> ending_of s' = ending_of s1"
    proof (rule Cons.IH [OF s1(2) False])
      show "ends_with ((buf @ [c]) @ l) delim" "length ((buf @ [c]) @ l) \<le> Suc mx" using Cons.prems by simp_all
      fix q assume "strict_prefix q l"
      then show "\<not> ends_with ((buf @ [c]) @ q) delim" using Cons.prems(5) [of "c # q"] by simp
    qed
    moreover have "\<not> mx < length (buf @ [c])" using Cons.prems(4) False by (cases l) auto
    ultimately show ?thesis using s1 n
      by (auto simp: read_until.simps [of delim mx buf s] Let_def intro: quiet_trans)
  qed
qed simp

lemma read_line_spec:
  "read_line mx s = (r, s') \<Longrightarrow> quiet s s' \<and> length (inp s') \<le> length (inp s) \<and>
     (\<forall>l. r = Some l \<longrightarrow> takes s l s' \<and> l \<noteq> [] \<and> ends_with l crlf)"
  unfolding read_line_def using read_until_spec by fastforce

lemma read_line_dec:
  "read_line mx s = (r, s') \<Longrightarrow> length (inp s') \<le> length (inp s) \<and> (r \<noteq> None \<longrightarrow> length (inp s') < length (inp s))"
  using read_line_spec [of mx s r s'] by (auto simp: takes_def)

lemma prefix_crlf_end:
  assumes "LF \<notin> set l" "strict_prefix q (l @ crlf)"
  shows "\<not> ends_with q crlf"
proof -
  have "prefix q (l @ [CR])" using assms(2) prefix_snoc [of q "l @ [CR]" LF] by (auto simp: strict_prefix_def)
  then have "LF \<notin> set q" using assms(1) set_mono_prefix by fastforce
  then show ?thesis by (auto simp: suffix_def)
qed

lemma read_line_exact:
  assumes "inp s = l @ crlf @ rest" "LF \<notin> set l" "length l < mx"
  shows "\<exists>s'. read_line mx s = (Some (l @ crlf), s') \<and> inp s' = rest \<and> quiet s s' \<and> ending_of s' = ending_of s"
  unfolding read_line_def
  using read_until_exact [where s = s and l = "l @ crlf" and rest = rest and buf = "[]" and delim = crlf and mx = mx] assms prefix_crlf_end [OF assms(2)]
    suffixI [of "l @ crlf" l crlf]
  by simp

definition parse_headers :: "string list \<Rightarrow> (string \<times> string) list" where
  "parse_headers ls = List.map_filter (\<lambda>line. map_option (\<lambda>(k, v). (trim k, trim v)) (split_once CHR '':'' line)) ls"

definition has_token :: "string \<Rightarrow> string \<Rightarrow> (string \<times> string) list \<Rightarrow> bool" where
  "has_token name tok hs = list_ex (\<lambda>(k, v). eq_ignore_case k name \<and> contains (to_lower v) tok) hs"

definition parse_chunk_size :: "string \<Rightarrow> nat option" where
  "parse_chunk_size line = parse_hex u64_max (trim (hd (split_on CHR '';'' (trim (utf8_lossy line)))))"

text \<open>\<open>try_reserve_exact\<close> may refuse a size: \<open>alloc n\<close> tells whether \<open>n\<close> bytes can be had.\<close>

definition read_n :: "(nat \<Rightarrow> bool) \<Rightarrow> nat \<Rightarrow> io \<Rightarrow> string option \<times> io" where
  "read_n alloc n s = (if alloc n then read_full n s else (None, s))"

text \<open>The trailer section of a chunked request body.\<close>

function skip_trailers :: "io \<Rightarrow> bool \<times> io" where
  "skip_trailers s = (case read_line 8192 s of
     (None, s') \<Rightarrow> (False, s')
   | (Some line, s') \<Rightarrow> if line = crlf then (True, s') else skip_trailers s')"
  by pat_completeness auto
termination
  by (relation "measure (\<lambda>s. length (inp s))") (auto dest: read_line_dec [OF sym])

function read_chunks :: "(nat \<Rightarrow> bool) \<Rightarrow> string \<Rightarrow> io \<Rightarrow> string option \<times> io" where
  "read_chunks alloc body s = (case read_line 4096 s of
     (None, s1) \<Rightarrow> (None, s1)
   | (Some size_line, s1) \<Rightarrow>
       (case parse_chunk_size size_line of
          None \<Rightarrow> (None, s1)
        | Some n \<Rightarrow>
            if n = 0 then (case skip_trailers s1 of (ok, s2) \<Rightarrow> (if ok then Some body else None, s2))
            else (case read_n alloc n s1 of
                (None, s2) \<Rightarrow> (None, s2)
              | (Some chunk, s2) \<Rightarrow>
                  (case read_full 2 s2 of
                     (None, s3) \<Rightarrow> (None, s3)
                   | (Some e, s3) \<Rightarrow>
                       if e \<noteq> crlf then (None, s3) else read_chunks alloc (body @ chunk) s3))))"
  by pat_completeness auto
termination
proof (relation "measure (\<lambda>(_, _, s). length (inp s))", goal_cases)
  case (2 alloc body s r s1 line n q s2 chunk p s3 e)
  then have "length (inp s1) < length (inp s)" using read_line_dec [of 4096 s r s1] by simp
  moreover have "length (inp s2) \<le> length (inp s1)"
    using 2 read_full_spec [of n s1 q s2] by (auto simp: read_n_def split: if_splits)
  moreover have "length (inp s3) \<le> length (inp s2)" using 2 read_full_spec [of 2 s2 p s3] by simp
  ultimately show ?case by simp
qed simp

declare skip_trailers.simps [simp del] read_chunks.simps [simp del]

definition content_length_of :: "(string \<times> string) list \<Rightarrow> nat option" where
  "content_length_of hs = Option.bind (find_header ''Content-Length'' hs) (\<lambda>v. parse_uint u64_max (trim v))"

definition continue_line :: string where
  "continue_line = ''HTTP/1.1 100 Continue'' @ crlf @ crlf"

definition read_body_of :: "(nat \<Rightarrow> bool) \<Rightarrow> (string \<times> string) list \<Rightarrow> io \<Rightarrow> string option \<times> io" where
  "read_body_of alloc headers s =
     (let content_length = (case content_length_of headers of Some n \<Rightarrow> n | None \<Rightarrow> 0) in
      if has_token ''Transfer-Encoding'' ''chunked'' headers then read_chunks alloc [] s
      else if 0 < content_length then read_n alloc content_length s
      else (Some [], s))"

definition read_request :: "(nat \<Rightarrow> bool) \<Rightarrow> io \<Rightarrow> http_request option \<times> io" where
  "read_request alloc s = (case read_head s of
     (None, s1) \<Rightarrow> (None, s1)
   | (Some buf, s1) \<Rightarrow>
       (case lines (utf8_lossy buf) of
          [] \<Rightarrow> (None, s1)
        | request_line # rest \<Rightarrow>
            (case split_ws request_line of
               method # path # _ \<Rightarrow>
                 (let headers = parse_headers rest;
                      (ok, s2) = (if has_token ''Expect'' ''100-continue'' headers
                        then write_all continue_line s1 else (True, s1)) in
                  if \<not> ok then (None, s2)
                  else (case read_body_of alloc headers s2 of
                     (None, s3) \<Rightarrow> (None, s3)
                   | (Some body, s3) \<Rightarrow>
                       (Some \<lparr>r_method = method, r_path = path, r_headers = headers, r_body = body\<rparr>, s3)))
             | _ \<Rightarrow> (None, s1))))"

section \<open>Writing a request\<close>

definition dropped_header :: "string \<Rightarrow> bool" where
  "dropped_header kl = (kl = ''proxy-connection'' \<or> kl = ''proxy-authorization'' \<or>
     kl = ''proxy-authenticate'' \<or> kl = ''keep-alive'' \<or> kl = ''upgrade'' \<or> kl = ''expect'')"

definition framing_header :: "string \<Rightarrow> bool" where
  "framing_header kl = (kl = ''transfer-encoding'' \<or> kl = ''content-length'')"

definition header_line :: "string \<Rightarrow> string \<Rightarrow> string" where
  "header_line k v = k @ '': '' @ v @ crlf"

record writing =
  has_host :: bool
  has_conn :: bool
  body_was_framed :: bool
  cookies :: "string list"
  wout :: string

definition emit :: "string \<Rightarrow> writing \<Rightarrow> writing" where
  "emit bs w = w\<lparr>wout := wout w @ bs\<rparr>"

definition write_header :: "string \<Rightarrow> string \<times> string \<Rightarrow> writing \<Rightarrow> writing" where
  "write_header host_value kv w = (case kv of (k, v) \<Rightarrow> let kl = to_lower k in
     if dropped_header kl then w
     else if framing_header kl then w\<lparr>body_was_framed := True\<rparr>
     else if kl = ''cookie'' then (if trim v \<noteq> [] then w\<lparr>cookies := cookies w @ [trim v]\<rparr> else w)
     else if kl = ''host'' then emit (header_line ''Host'' host_value) (w\<lparr>has_host := True\<rparr>)
     else emit (header_line k v) (if kl = ''connection'' then w\<lparr>has_conn := True\<rparr> else w))"

definition host_value_of :: "string \<Rightarrow> u16 \<Rightarrow> string" where
  "host_value_of host port = (if port = 80 \<or> port = 443 then host else host @ '':'' @ show_u16 port)"

definition request_target :: "http_request \<Rightarrow> string \<Rightarrow> u16 \<Rightarrow> bool \<Rightarrow> string" where
  "request_target req host port absolute =
     (if absolute then (if port = 443 then ''https'' else ''http'') @ ''://'' @ host @ r_path req
      else r_path req)"

definition write_request :: "http_request \<Rightarrow> string \<Rightarrow> u16 \<Rightarrow> bool \<Rightarrow> string" where
  "write_request req host port absolute =
     (let start = r_method req @ '' '' @ request_target req host port absolute @ '' HTTP/1.1'' @ crlf;
          hv = host_value_of host port;
          w = fold (write_header hv) (r_headers req)
                \<lparr>has_host = False, has_conn = False, body_was_framed = False, cookies = [], wout = start\<rparr>
      in wout w @
         (if \<not> has_host w then header_line ''Host'' hv else []) @
         (if cookies w \<noteq> [] then ''Cookie: '' @ join ''; '' (cookies w) @ crlf else []) @
         (if body_was_framed w then ''Content-Length: '' @ show_nat (length (r_body req)) @ crlf else []) @
         (if \<not> has_conn w then ''Connection: keep-alive'' @ crlf else []) @
         crlf @ r_body req)"

section \<open>Responses\<close>

record response_head =
  status :: u16
  reason :: string
  h_headers :: "(string \<times> string) list"

definition parse_response_head :: "string \<Rightarrow> response_head option" where
  "parse_response_head buf = (case lines (utf8_lossy buf) of
     [] \<Rightarrow> None
   | status_line # rest \<Rightarrow>
       (case splitn 3 CHR '' '' status_line of
          _ # code # sl \<Rightarrow>
            map_option (\<lambda>st. \<lparr>status = st, reason = (case sl of r # _ \<Rightarrow> r | [] \<Rightarrow> []),
              h_headers = parse_headers rest\<rparr>) (parse_u16 code)
        | _ \<Rightarrow> None))"

definition read_one_response_head :: "io \<Rightarrow> response_head option \<times> io" where
  "read_one_response_head s = (case read_head s of
     (None, s1) \<Rightarrow> (None, s1)
   | (Some buf, s1) \<Rightarrow> (parse_response_head buf, s1))"

definition interim :: "u16 \<Rightarrow> bool" where
  "interim st = (st = 100 \<or> st = 102 \<or> st = 103)"

lemma read_head_dec:
  "read_head s = (r, s') \<Longrightarrow> length (inp s') \<le> length (inp s) \<and> (r \<noteq> None \<longrightarrow> length (inp s') < length (inp s))"
  unfolding read_head_def using read_until_spec by (fastforce simp: takes_def)

text \<open>Interim responses are skipped; running out of time is the \<open>Stall\<close> of the stream.\<close>

function read_response_head :: "io \<Rightarrow> response_head option \<times> io" where
  "read_response_head s = (case read_one_response_head s of
     (None, s1) \<Rightarrow> (None, s1)
   | (Some rh, s1) \<Rightarrow> if interim (status rh) then read_response_head s1 else (Some rh, s1))"
  by pat_completeness auto
termination
  by (relation "measure (\<lambda>s. length (inp s))")
    (auto simp: read_one_response_head_def split: prod.splits option.splits dest: read_head_dec)

declare read_response_head.simps [simp del]

section \<open>Relaying a response body\<close>

text \<open>These read from the upstream and write to the client; both ends are in the one state.\<close>

function stream_exact_n :: "nat \<Rightarrow> io \<Rightarrow> bool \<times> io" where
  "stream_exact_n n s =
     (if n = 0 then (True, s)
      else (case read_some (min n 65536) s of
          (None, s1) \<Rightarrow> (False, s1)
        | (Some bs, s1) \<Rightarrow>
            if bs = [] then (False, s1)
            else (case write_all bs s1 of
                (ok, s2) \<Rightarrow> if ok then stream_exact_n (n - length bs) s2 else (False, s2))))"
  by pat_completeness auto
termination
  by (relation "measure fst") (auto simp: read_some_def Let_def split: if_splits ending.splits list.splits)

declare stream_exact_n.simps [simp del]

lemma write_all_inp: "write_all bs s = (ok, s') \<Longrightarrow> inp s' = inp s"
  using write_all_spec by blast

lemma stream_exact_n_dec: "stream_exact_n n s = (ok, s') \<Longrightarrow> length (inp s') \<le> length (inp s)"
proof (induction n s arbitrary: ok s' rule: stream_exact_n.induct)
  case (1 n s)
  show ?case
  proof (cases "n = 0")
    case True
    with 1(2) show ?thesis by (simp add: stream_exact_n.simps)
  next
    case False
    obtain x s1 where x: "read_some (min n 65536) s = (x, s1)" by (cases "read_some (min n 65536) s")
    have l1: "length (inp s1) \<le> length (inp s)"
      using read_some_spec [OF x] by (auto simp: takes_def split: option.splits)
    show ?thesis
    proof (cases "x = None \<or> x = Some []")
      case True
      with 1(2) False x l1 show ?thesis
        by (auto simp: stream_exact_n.simps [of n s] split: option.splits)
    next
      case f: False
      then obtain bs where bs: "x = Some bs" "bs \<noteq> []" by auto
      obtain k s2 where w: "write_all bs s1 = (k, s2)" by (cases "write_all bs s1")
      note ih = 1(1) [OF False x [symmetric] bs(1) bs(2) w [symmetric]]
      show ?thesis
        using 1(2) False x bs w l1 write_all_inp [OF w] ih
        by (cases k) (fastforce simp: stream_exact_n.simps [of n s])+
    qed
  qed
qed

function relay_trailers :: "io \<Rightarrow> bool \<times> io" where
  "relay_trailers s = (case read_line 8192 s of
     (None, s1) \<Rightarrow> (False, s1)
   | (Some line, s1) \<Rightarrow> (case write_all line s1 of
       (ok, s2) \<Rightarrow> if \<not> ok then (False, s2) else if line = crlf then (True, s2) else relay_trailers s2))"
  by pat_completeness auto
termination
proof (relation "measure (\<lambda>s. length (inp s))", goal_cases)
  case (2 s r s1 line ok s2)
  then show ?case using read_line_dec [of 8192 s r s1] write_all_inp [of line s1 ok s2] by simp
qed simp

text \<open>\<open>relay_chunked\<close>: every byte that is read is written, size lines and trailers included.\<close>

function relay_chunked :: "io \<Rightarrow> bool \<times> io" where
  "relay_chunked s = (case read_line 4096 s of
     (None, s1) \<Rightarrow> (False, s1)
   | (Some size_line, s1) \<Rightarrow>
       (case parse_chunk_size size_line of
          None \<Rightarrow> (False, s1)
        | Some n \<Rightarrow>
            (case write_all size_line s1 of (ok, s2) \<Rightarrow>
               if \<not> ok then (False, s2)
               else if n = 0 then relay_trailers s2
               else (case stream_exact_n n s2 of (ok, s3) \<Rightarrow>
                 if \<not> ok then (False, s3)
                 else (case read_full 2 s3 of
                     (None, s4) \<Rightarrow> (False, s4)
                   | (Some e, s4) \<Rightarrow> (case write_all e s4 of (ok, s5) \<Rightarrow>
                       if \<not> ok then (False, s5) else relay_chunked s5))))))"
  by pat_completeness auto
termination
proof (relation "measure (\<lambda>s. length (inp s))", goal_cases)
  case (2 s r s1 line n ok s2 ok' s3 q s4 e ok'' s5)
  then show ?case
    using read_line_dec [of 4096 s r s1] write_all_inp [of line s1 ok s2]
      stream_exact_n_dec [of n s2 ok' s3] read_full_spec [of 2 s3 q s4] write_all_inp [of e s4 ok'' s5]
    by simp
qed simp

function relay_chunked_decoded :: "io \<Rightarrow> bool \<times> io" where
  "relay_chunked_decoded s = (case read_line 4096 s of
     (None, s1) \<Rightarrow> (False, s1)
   | (Some size_line, s1) \<Rightarrow>
       (case parse_chunk_size size_line of
          None \<Rightarrow> (False, s1)
        | Some n \<Rightarrow>
            if n = 0 then skip_trailers s1
            else (case stream_exact_n n s1 of (ok, s2) \<Rightarrow>
              if \<not> ok then (False, s2)
              else (case read_full 2 s2 of
                  (None, s3) \<Rightarrow> (False, s3)
                | (Some e, s3) \<Rightarrow> relay_chunked_decoded s3))))"
  by pat_completeness auto
termination
proof (relation "measure (\<lambda>s. length (inp s))", goal_cases)
  case (2 s r s1 line n ok s2 q s3 e)
  then show ?case
    using read_line_dec [of 4096 s r s1] stream_exact_n_dec [of n s1 ok s2] read_full_spec [of 2 s2 q s3]
    by simp
qed simp

text \<open>No framing: relay until the upstream closes.\<close>

function relay_to_close :: "io \<Rightarrow> bool \<times> io" where
  "relay_to_close s = (case read_some 65536 s of
     (None, s1) \<Rightarrow> (False, s1)
   | (Some bs, s1) \<Rightarrow>
       if bs = [] then (True, s1)
       else (case write_all bs s1 of (ok, s2) \<Rightarrow> if ok then relay_to_close s2 else (False, s2)))"
  by pat_completeness auto
termination
proof (relation "measure (\<lambda>s. length (inp s))", goal_cases)
  case (2 s r s1 bs ok s2)
  then show ?case using read_some_spec [of 65536 s r s1] write_all_inp [of bs s1 ok s2]
    by (auto simp: takes_def split: option.splits)
qed simp

declare relay_trailers.simps [simp del] relay_chunked.simps [simp del]
  relay_chunked_decoded.simps [simp del] relay_to_close.simps [simp del]

section \<open>The response to the client\<close>

definition connection_of :: "response_head \<Rightarrow> string" where
  "connection_of rh = (case find_header ''Connection'' (h_headers rh) of Some v \<Rightarrow> to_lower v | None \<Rightarrow> [])"

definition keep_alive :: "response_head \<Rightarrow> bool" where
  "keep_alive rh = (\<not> contains (connection_of rh) ''close'')"

definition bodyless :: "string \<Rightarrow> response_head \<Rightarrow> bool" where
  "bodyless request_method rh = (eq_ignore_case request_method ''HEAD'' \<or>
     100 \<le> status rh \<and> status rh < 200 \<or> status rh = 204 \<or> status rh = 304)"

definition is_chunked :: "response_head \<Rightarrow> bool" where
  "is_chunked rh = has_token ''Transfer-Encoding'' ''chunked'' (h_headers rh)"

definition forwarded_header :: "bool \<Rightarrow> string \<Rightarrow> bool" where
  "forwarded_header chunked kl = (\<not> (kl = ''transfer-encoding'' \<and> \<not> chunked) \<and>
     \<not> (kl = ''content-length'' \<and> chunked) \<and>
     \<not> (kl = ''connection'' \<or> kl = ''keep-alive'' \<or> kl = ''proxy-connection'' \<or> kl = ''upgrade''))"

definition client_head :: "response_head \<Rightarrow> string" where
  "client_head rh = ''HTTP/1.1 '' @ show_u16 (status rh) @ '' '' @ reason rh @ crlf @
     concat (map (\<lambda>(k, v). header_line k v)
       (filter (\<lambda>(k, v). forwarded_header (is_chunked rh) (to_lower k)) (h_headers rh))) @
     (if keep_alive rh then [] else ''Connection: close'' @ crlf) @ crlf"

definition stream_response_body_inner :: "response_head \<Rightarrow> string \<Rightarrow> bool \<Rightarrow> io \<Rightarrow> bool option \<times> io" where
  "stream_response_body_inner rh request_method decode_chunked s =
     (case write_all (client_head rh) s of (ok, s1) \<Rightarrow>
        if \<not> ok then (None, s1)
        else if bodyless request_method rh then (Some (keep_alive rh), s1)
        else if is_chunked rh then
          (case (if decode_chunked then relay_chunked_decoded s1 else relay_chunked s1) of
             (ok, s2) \<Rightarrow> (if ok then Some (keep_alive rh) else None, s2))
        else (case content_length_of (h_headers rh) of
            Some len \<Rightarrow> (case stream_exact_n len s1 of (ok, s2) \<Rightarrow> (if ok then Some (keep_alive rh) else None, s2))
          | None \<Rightarrow> (case relay_to_close s1 of (ok, s2) \<Rightarrow> (if ok then Some False else None, s2))))"

definition stream_response_body :: "response_head \<Rightarrow> string \<Rightarrow> io \<Rightarrow> bool option \<times> io" where
  "stream_response_body rh request_method = stream_response_body_inner rh request_method False"

definition stream_response_body_decoded :: "response_head \<Rightarrow> string \<Rightarrow> io \<Rightarrow> bool option \<times> io" where
  "stream_response_body_decoded rh request_method = stream_response_body_inner rh request_method True"

section \<open>Endpoints\<close>

fun candidate_loop :: "sockaddr list \<Rightarrow> u16 \<Rightarrow> ipaddr list \<Rightarrow> sockaddr list" where
  "candidate_loop out port [] = out"
| "candidate_loop out port (ip # ips) =
     candidate_loop (if (ip, port) \<in> set out then out else out @ [(ip, port)]) port ips"

definition candidate_endpoints :: "ipaddr list \<Rightarrow> u16 \<Rightarrow> ipaddr list \<Rightarrow> sockaddr list" where
  "candidate_endpoints preferred port ips = candidate_loop [] port (preferred @ ips)"

text \<open>One attempt under its ten second budget: refused, failed in the handshake, too slow, or a
  connection.\<close>

datatype 'c attempt = TcpFailed | TlsFailed | TimedOut | Connected 'c

fun connect_upstream :: "(sockaddr \<Rightarrow> 'c attempt) \<Rightarrow> sockaddr list \<Rightarrow> (sockaddr \<times> 'c) option" where
  "connect_upstream tcp [] = None"
| "connect_upstream tcp (a # as) = (case tcp a of
     Connected c \<Rightarrow> Some (a, c) | _ \<Rightarrow> connect_upstream tcp as)"

fun tls_loop :: "(sockaddr \<Rightarrow> 'c attempt) \<Rightarrow> sockaddr list \<Rightarrow> (sockaddr \<times> 'c) option" where
  "tls_loop tls [] = None"
| "tls_loop tls (a # as) = (case tls a of Connected c \<Rightarrow> Some (a, c) | _ \<Rightarrow> tls_loop tls as)"

text \<open>\<open>server_name\<close> is \<open>ServerName::try_from\<close> of the TLS library; an IP address as the name makes
  it omit the SNI extension.\<close>

datatype 'n sni_name = Named 'n | ByAddress ipaddr

definition connect_upstream_tls ::
  "(string \<Rightarrow> 'n option) \<Rightarrow> ('n sni_name \<Rightarrow> sockaddr \<Rightarrow> 'c attempt) \<Rightarrow> sockaddr list \<Rightarrow> string \<Rightarrow> (sockaddr \<times> 'c) option" where
  "connect_upstream_tls server_name connect addrs sni = (case server_name sni of
     None \<Rightarrow> None | Some n \<Rightarrow> tls_loop (connect (Named n)) addrs)"

definition connect_upstream_tls_no_sni ::
  "('n sni_name \<Rightarrow> sockaddr \<Rightarrow> 'c attempt) \<Rightarrow> sockaddr list \<Rightarrow> (sockaddr \<times> 'c) option" where
  "connect_upstream_tls_no_sni connect addrs = tls_loop (\<lambda>a. connect (ByAddress (sa_ip a)) a) addrs"

text \<open>Both connect loops keep the first endpoint that succeeds end to end.\<close>

locale dialer =
  fixes dial :: "('a \<Rightarrow> 'c attempt) \<Rightarrow> 'a list \<Rightarrow> ('a \<times> 'c) option"
  assumes dial_Nil: "dial f [] = None"
    and dial_Cons: "dial f (a # as) = (case f a of Connected c \<Rightarrow> Some (a, c) | _ \<Rightarrow> dial f as)"
begin

lemma dial_None_iff: "dial f as = None \<longleftrightarrow> (\<forall>a\<in>set as. \<forall>c. f a \<noteq> Connected c)"
  by (induction as) (auto simp: dial_Nil dial_Cons split: attempt.splits)

lemma dial_Some_iff:
  "dial f as = Some (a, c) \<longleftrightarrow>
     (\<exists>us vs. as = us @ a # vs \<and> f a = Connected c \<and> (\<forall>u\<in>set us. \<forall>d. f u \<noteq> Connected d))"
proof
  show "dial f as = Some (a, c) \<Longrightarrow>
    \<exists>us vs. as = us @ a # vs \<and> f a = Connected c \<and> (\<forall>u\<in>set us. \<forall>d. f u \<noteq> Connected d)"
  proof (induction as)
    case (Cons x as)
    show ?case
    proof (cases "\<exists>d. f x = Connected d")
      case True
      with Cons.prems show ?thesis by (intro exI [of _ "[]"] exI [of _ as]) (auto simp: dial_Cons)
    next
      case False
      with Cons.prems have "dial f as = Some (a, c)" by (auto simp: dial_Cons split: attempt.splits)
      with Cons.IH obtain us vs where "as = us @ a # vs" "f a = Connected c" "\<forall>u\<in>set us. \<forall>d. f u \<noteq> Connected d"
        by blast
      with False show ?thesis by (intro exI [of _ "x # us"] exI [of _ vs]) auto
    qed
  qed (simp add: dial_Nil)
next
  assume "\<exists>us vs. as = us @ a # vs \<and> f a = Connected c \<and> (\<forall>u\<in>set us. \<forall>d. f u \<noteq> Connected d)"
  then obtain us vs where "as = us @ a # vs" "f a = Connected c" "\<forall>u\<in>set us. \<forall>d. f u \<noteq> Connected d" by blast
  moreover have "\<forall>u\<in>set us. \<forall>d. f u \<noteq> Connected d \<Longrightarrow> dial f (us @ a # vs) = dial f (a # vs)"
    by (induction us) (auto simp: dial_Cons split: attempt.splits)
  ultimately show "dial f as = Some (a, c)" by (simp add: dial_Cons)
qed

end

interpretation tcp: dialer connect_upstream
  by unfold_locales auto

interpretation tls: dialer tls_loop
  by unfold_locales auto

section \<open>Facts on relaying\<close>

text \<open>\<open>copies\<close>: what was read has been written, byte for byte.\<close>

definition copies :: "io \<Rightarrow> io \<Rightarrow> bool" where
  "copies s s' = (\<exists>bs. inp s = bs @ inp s' \<and> outp s' = outp s @ bs)"

lemma copies_refl [simp]: "copies s s" by (simp add: copies_def)

lemma copies_trans: "copies s t \<Longrightarrow> copies t u \<Longrightarrow> copies s u"
  by (auto simp: copies_def)

lemma read_write_copies:
  "takes s bs s1 \<Longrightarrow> quiet s s1 \<Longrightarrow> write_all bs s1 = (True, s2) \<Longrightarrow> copies s s2"
  using write_all_spec [of bs s1 True s2] by (auto simp: takes_def quiet_def copies_def)

lemma stream_exact_n_step:
  assumes "0 < n" "read_some (min n 65536) s = (Some bs, s1)" "bs \<noteq> []" "write_all bs s1 = (ok, s2)"
  shows "stream_exact_n n s = (if ok then stream_exact_n (n - length bs) s2 else (False, s2))"
  using assms by (simp add: stream_exact_n.simps [of n s])

lemma stream_exact_n_copies:
  "stream_exact_n n s = (True, s') \<Longrightarrow> copies s s' \<and> length (inp s) = n + length (inp s')"
proof (induction n s rule: stream_exact_n.induct)
  case (1 n s)
  show ?case
  proof (cases "n = 0")
    case True
    with 1(2) show ?thesis by (simp add: stream_exact_n.simps)
  next
    case False
    obtain x s1 where x: "read_some (min n 65536) s = (x, s1)" by (cases "read_some (min n 65536) s")
    with 1(2) False obtain bs where bs: "x = Some bs" "bs \<noteq> []"
      by (cases x) (auto simp: stream_exact_n.simps [of n s] split: if_splits)
    obtain ok s2 where w: "write_all bs s1 = (ok, s2)" by (cases "write_all bs s1")
    have st: "stream_exact_n n s = (if ok then stream_exact_n (n - length bs) s2 else (False, s2))"
      using stream_exact_n_step [of n s bs s1 ok s2] False x bs w by simp
    with 1(2) have ok: "ok" "stream_exact_n (n - length bs) s2 = (True, s')" by (auto split: if_splits)
    have rs: "takes s bs s1" "quiet s s1" "length bs \<le> n" using read_some_spec [OF x] bs by auto
    have c: "copies s s2" using read_write_copies [OF rs(1,2)] w ok by simp
    have "copies s2 s' \<and> length (inp s2) = n - length bs + length (inp s')"
      using 1(1) [OF False x [symmetric] bs w [symmetric]] ok by simp
    moreover have "inp s = bs @ inp s2" using rs(1) write_all_inp [OF w] by (simp add: takes_def)
    ultimately show ?thesis using c rs(3) copies_trans by auto
  qed
qed

lemma relay_trailers_copies: "relay_trailers s = (True, s') \<Longrightarrow> copies s s'"
proof (induction s rule: relay_trailers.induct)
  case (1 s)
  obtain x s1 where x: "read_line 8192 s = (x, s1)" by (cases "read_line 8192 s")
  with 1(2) obtain l where l: "x = Some l" by (cases x) (auto simp: relay_trailers.simps [of s])
  obtain ok s2 where w: "write_all l s1 = (ok, s2)" by (cases "write_all l s1")
  with 1(2) x l have ok: ok by (auto simp: relay_trailers.simps [of s] split: if_splits)
  have c: "copies s s2" using read_write_copies read_line_spec [OF x] l w ok by auto
  show ?case
  proof (cases "l = crlf")
    case True
    with 1(2) x l w ok c show ?thesis by (simp add: relay_trailers.simps [of s])
  next
    case False
    then have "relay_trailers s2 = (True, s')" using 1(2) x l w ok by (simp add: relay_trailers.simps [of s])
    with 1(1) [OF x [symmetric] l w [symmetric]] ok False c show ?thesis using copies_trans by blast
  qed
qed

lemma relay_chunked_copies: "relay_chunked s = (True, s') \<Longrightarrow> copies s s'"
proof (induction s rule: relay_chunked.induct)
  case (1 s)
  note u = relay_chunked.simps [of s]
  obtain x s1 where x: "read_line 4096 s = (x, s1)" by (cases "read_line 4096 s")
  with 1(2) obtain l where l: "x = Some l" by (cases x) (auto simp: u)
  with 1(2) x obtain n where n: "parse_chunk_size l = Some n" by (cases "parse_chunk_size l") (auto simp: u)
  obtain ok s2 where w: "write_all l s1 = (ok, s2)" by (cases "write_all l s1")
  with 1(2) x l n have ok: ok by (auto simp: u split: if_splits)
  have c: "copies s s2" using read_write_copies read_line_spec [OF x] l w ok by auto
  show ?case
  proof (cases "n = 0")
    case True
    then have "relay_trailers s2 = (True, s')" using 1(2) x l n w ok by (simp add: u)
    with c show ?thesis using relay_trailers_copies copies_trans by blast
  next
    case False
    obtain ok3 s3 where e: "stream_exact_n n s2 = (ok3, s3)" by (cases "stream_exact_n n s2")
    with 1(2) x l n w ok False have ok3: ok3 by (auto simp: u split: if_splits)
    obtain y s4 where y: "read_full 2 s3 = (y, s4)" by (cases "read_full 2 s3")
    with 1(2) x l n w ok False e ok3 obtain d where d: "y = Some d" by (cases y) (auto simp: u)
    obtain ok5 s5 where z: "write_all d s4 = (ok5, s5)" by (cases "write_all d s4")
    with 1(2) x l n w ok False e ok3 y d have ok5: ok5 and r: "relay_chunked s5 = (True, s')"
      by (auto simp: u split: if_splits)
    have "relay_chunked s5 = (True, s') \<Longrightarrow> copies s5 s'"
      using 1(1) [OF x [symmetric] l n w [symmetric] _ False e [symmetric] _ y [symmetric] d z [symmetric]] ok ok3 ok5
      by simp
    moreover have "copies s2 s3" using stream_exact_n_copies [of n s2 s3] e ok3 by simp
    moreover have "copies s3 s5"
      using read_write_copies [of s3 d s4 s5] read_full_spec [OF y] d z ok5 by simp
    ultimately show ?thesis using c r copies_trans by blast
  qed
qed

lemma relay_to_close_copies: "relay_to_close s = (True, s') \<Longrightarrow> copies s s' \<and> inp s' = [] \<and> ending_of s' = Eof"
proof (induction s rule: relay_to_close.induct)
  case (1 s)
  note u = relay_to_close.simps [of s]
  obtain x s1 where x: "read_some 65536 s = (x, s1)" by (cases "read_some 65536 s")
  with 1(2) obtain bs where bs: "x = Some bs" by (cases x) (auto simp: u)
  show ?case
  proof (cases "bs = []")
    case True
    then have "inp s = []" using read_some_spec [OF x] bs by auto
    then show ?thesis using True 1(2) x bs
      by (auto simp: u read_some_def split: ending.splits)
  next
    case False
    obtain ok s2 where w: "write_all bs s1 = (ok, s2)" by (cases "write_all bs s1")
    with 1(2) x bs False have ok: ok and r: "relay_to_close s2 = (True, s')"
      by (auto simp: u split: if_splits)
    have "copies s s2" using read_write_copies read_some_spec [OF x] bs w ok by auto
    with 1(1) [OF x [symmetric] bs False w [symmetric]] ok r show ?thesis using copies_trans by blast
  qed
qed

section \<open>Relays that fail\<close>

text \<open>\<open>truncates\<close>: however the relay ended, the client got a prefix of what the upstream sent.\<close>

definition truncates :: "io \<Rightarrow> io \<Rightarrow> bool" where
  "truncates s s' = (\<exists>bs. outp s' = outp s @ bs \<and> prefix bs (inp s))"

lemma copies_truncates: "copies s s' \<Longrightarrow> truncates s s'"
  by (auto simp: copies_def truncates_def)

lemma quiet_truncates: "quiet s s' \<Longrightarrow> truncates s s'"
  by (simp add: quiet_def truncates_def)

lemma truncates_trans: "copies s s1 \<Longrightarrow> truncates s1 s' \<Longrightarrow> truncates s s'"
  by (auto simp: copies_def truncates_def)

lemma write_all_prefix: "write_all bs s = (ok, s') \<Longrightarrow> \<exists>q. outp s' = outp s @ q \<and> prefix q bs"
  by (auto simp: write_all_def take_is_prefix split: option.splits if_splits)

lemma read_write_truncates:
  assumes "takes s bs s1" "quiet s s1" "write_all bs s1 = (ok, s2)"
  shows "truncates s s2"
  using write_all_prefix [OF assms(3)] assms(1,2)
  by (auto simp: truncates_def takes_def quiet_def intro: prefix_order.trans [of _ bs])

lemma stream_exact_n_truncates: "stream_exact_n n s = (ok, s') \<Longrightarrow> truncates s s'"
proof (induction n s arbitrary: ok s' rule: stream_exact_n.induct)
  case (1 n s)
  show ?case
  proof (cases "n = 0")
    case True
    then show ?thesis using 1(2) by (simp add: stream_exact_n.simps truncates_def)
  next
    case False
    obtain x s1 where x: "read_some (min n 65536) s = (x, s1)" by fastforce
    note rs = read_some_spec [OF x]
    show ?thesis
    proof (cases "x = None \<or> x = Some []")
      case True
      then have "s' = s1" using 1(2) False x by (auto simp: stream_exact_n.simps [of n s] split: option.splits)
      then show ?thesis using rs quiet_truncates by blast
    next
      case ne: False
      then obtain bs where bs: "x = Some bs" "bs \<noteq> []" by auto
      obtain ok2 s2 where w: "write_all bs s1 = (ok2, s2)" by fastforce
      have t: "takes s bs s1" "quiet s s1" using rs bs by auto
      show ?thesis
      proof (cases ok2)
        case True
        have "stream_exact_n (n - length bs) s2 = (ok, s')"
          using 1(2) False x bs w True by (simp add: stream_exact_n.simps [of n s])
        then have "truncates s2 s'" using 1(1) [OF False x [symmetric] bs w [symmetric] True] by blast
        then show ?thesis using truncates_trans [OF read_write_copies [OF t, of s2]] w True by simp
      next
        case f: False
        then have "s' = s2" using 1(2) False x bs w by (simp add: stream_exact_n.simps [of n s])
        then show ?thesis using read_write_truncates [OF t w] by simp
      qed
    qed
  qed
qed

lemma relay_trailers_truncates: "relay_trailers s = (ok, s') \<Longrightarrow> truncates s s'"
proof (induction s arbitrary: ok s' rule: relay_trailers.induct)
  case (1 s)
  note u = relay_trailers.simps [of s]
  obtain x s1 where x: "read_line 8192 s = (x, s1)" by fastforce
  show ?case
  proof (cases x)
    case None
    then show ?thesis using 1(2) x read_line_spec [OF x] by (auto simp: u intro: quiet_truncates)
  next
    case (Some l)
    obtain ok2 s2 where w: "write_all l s1 = (ok2, s2)" by fastforce
    have t: "takes s l s1" "quiet s s1" using read_line_spec [OF x] Some by auto
    show ?thesis
    proof (cases "ok2 \<and> l \<noteq> crlf")
      case True
      then have "relay_trailers s2 = (ok, s')" using 1(2) x Some w by (simp add: u)
      then have "truncates s2 s'" using 1(1) [OF x [symmetric] Some w [symmetric]] True by simp
      then show ?thesis using truncates_trans [OF read_write_copies [OF t, of s2]] w True by simp
    next
      case False
      then have "s' = s2" using 1(2) x Some w by (auto simp: u split: if_splits)
      then show ?thesis using read_write_truncates [OF t w] by simp
    qed
  qed
qed

lemma relay_to_close_truncates: "relay_to_close s = (ok, s') \<Longrightarrow> truncates s s'"
proof (induction s arbitrary: ok s' rule: relay_to_close.induct)
  case (1 s)
  note u = relay_to_close.simps [of s]
  obtain x s1 where x: "read_some 65536 s = (x, s1)" by fastforce
  note rs = read_some_spec [OF x]
  show ?case
  proof (cases "x = None \<or> x = Some []")
    case True
    then have "s' = s1" using 1(2) x by (auto simp: u split: option.splits)
    then show ?thesis using rs quiet_truncates by blast
  next
    case ne: False
    then obtain bs where bs: "x = Some bs" "bs \<noteq> []" by auto
    obtain ok2 s2 where w: "write_all bs s1 = (ok2, s2)" by fastforce
    have t: "takes s bs s1" "quiet s s1" using rs bs by auto
    show ?thesis
    proof (cases ok2)
      case True
      then have "relay_to_close s2 = (ok, s')" using 1(2) x bs w by (simp add: u)
      then have "truncates s2 s'" using 1(1) [OF x [symmetric] bs w [symmetric] True] by blast
      then show ?thesis using truncates_trans [OF read_write_copies [OF t, of s2]] w True by simp
    next
      case f: False
      then have "s' = s2" using 1(2) x bs w by (simp add: u)
      then show ?thesis using read_write_truncates [OF t w] by simp
    qed
  qed
qed

lemma relay_chunked_truncates: "relay_chunked s = (ok, s') \<Longrightarrow> truncates s s'"
proof (induction s arbitrary: ok s' rule: relay_chunked.induct)
  case (1 s)
  note u = relay_chunked.simps [of s]
  obtain x s1 where x: "read_line 4096 s = (x, s1)" by fastforce
  show ?case
  proof (cases "x = None \<or> parse_chunk_size (the x) = None")
    case True
    then have "s' = s1" using 1(2) x by (auto simp: u split: option.splits)
    then show ?thesis using read_line_spec [OF x] by (auto intro: quiet_truncates)
  next
    case False
    then obtain l n where l: "x = Some l" "parse_chunk_size l = Some n" by auto
    obtain ok2 s2 where w: "write_all l s1 = (ok2, s2)" by fastforce
    have t: "takes s l s1" "quiet s s1" using read_line_spec [OF x] l by auto
    consider "\<not> ok2" "s' = s2" | "ok2" "n = 0" "relay_trailers s2 = (ok, s')" | "ok2" "n \<noteq> 0"
      using 1(2) x l w by (auto simp: u split: if_splits)
    then show ?thesis
    proof cases
      case 3
      have c: "copies s s2" using read_write_copies [OF t] w 3 by simp
      obtain ok3 s3 where e: "stream_exact_n n s2 = (ok3, s3)" by fastforce
      obtain q s4 where f: "read_full 2 s3 = (q, s4)" by fastforce
      note fs = read_full_spec [OF f]
      show ?thesis
      proof (cases "ok3 \<and> q \<noteq> None")
        case True
        then obtain d where d: "q = Some d" "ok3" by auto
        obtain ok5 s5 where g: "write_all d s4 = (ok5, s5)" by fastforce
        have t2: "takes s3 d s4" "quiet s3 s4" using fs d by auto
        have c3: "copies s s3" using copies_trans [OF c] stream_exact_n_copies [of n s2 s3] e d by simp
        show ?thesis
        proof (cases ok5)
          case True
          then have "relay_chunked s5 = (ok, s')" using 1(2) x l w 3 e f d g by (simp add: u)
          then have "truncates s5 s'" using 1(1) [OF x [symmetric] l(1) l(2) w [symmetric] _ 3(2) e [symmetric] _ f [symmetric] d(1) g [symmetric]] 3 d True
            by simp
          then show ?thesis using truncates_trans [OF copies_trans [OF c3 read_write_copies [OF t2, of s5]]] g True by simp
        next
          case ff: False
          then have "s' = s5" using 1(2) x l w 3 e f d g by (simp add: u)
          then show ?thesis using truncates_trans [OF c3] read_write_truncates [OF t2 g] by simp
        qed
      next
        case False
        then have "s' = s3 \<and> \<not> ok3 \<or> ok3 \<and> s' = s4 \<and> q = None" using 1(2) x l w 3 e f by (cases ok3) (auto simp: u split: option.splits)
        then show ?thesis
        proof
          assume "s' = s3 \<and> \<not> ok3"
          then show ?thesis using truncates_trans [OF c] stream_exact_n_truncates [OF e] by simp
        next
          assume a: "ok3 \<and> s' = s4 \<and> q = None"
          then have "copies s s3" using copies_trans [OF c] stream_exact_n_copies [of n s2 s3] e by simp
          then show ?thesis using a fs truncates_trans quiet_truncates by blast
        qed
      qed
    qed (use read_write_truncates [OF t w] truncates_trans [OF read_write_copies [OF t]] w relay_trailers_truncates in auto)
  qed
qed

text \<open>Whatever happens after the head is out, the client has the head and a prefix of the upstream's bytes.\<close>

lemma stream_response_body_truncates:
  assumes "stream_response_body rh meth s = (r, s')" "room s = None"
  shows "\<exists>bs. outp s' = outp s @ client_head rh @ bs \<and> prefix bs (inp s)"
proof -
  obtain s1 where w: "write_all (client_head rh) s = (True, s1)" "outp s1 = outp s @ client_head rh" "inp s1 = inp s"
    using assms(2) by (simp add: write_all_def)
  have "truncates s1 s'"
    using assms(1) w(1) unfolding stream_response_body_def stream_response_body_inner_def
    by (auto split: if_splits option.splits prod.splits
        intro: relay_chunked_truncates stream_exact_n_truncates relay_to_close_truncates copies_truncates)
  then show ?thesis using w by (auto simp: truncates_def)
qed

section \<open>Well-formed bodies\<close>

text \<open>The wire form of a chunked body: size lines (with extensions) and data, the last size line,
  the trailer lines and the empty line.\<close>

definition good_line :: "nat \<Rightarrow> string \<Rightarrow> bool" where
  "good_line mx l = (LF \<notin> set l \<and> length l < mx)"

fun good_chunk :: "string \<times> string \<Rightarrow> bool" where
  "good_chunk (t, d) = (good_line 4096 t \<and> d \<noteq> [] \<and> parse_chunk_size (t @ crlf) = Some (length d))"

fun chunk_wire :: "string \<times> string \<Rightarrow> string" where
  "chunk_wire (t, d) = t @ crlf @ d @ crlf"

definition tail_wire :: "string \<Rightarrow> string list \<Rightarrow> string" where
  "tail_wire lst trailers = lst @ crlf @ concat (map (\<lambda>l. l @ crlf) trailers) @ crlf"

definition body_wire :: "(string \<times> string) list \<Rightarrow> string \<Rightarrow> string list \<Rightarrow> string" where
  "body_wire chunks lst trailers = concat (map chunk_wire chunks) @ tail_wire lst trailers"

definition good_tail :: "string \<Rightarrow> string list \<Rightarrow> bool" where
  "good_tail lst trailers = (good_line 4096 lst \<and> parse_chunk_size (lst @ crlf) = Some 0 \<and>
     list_all (\<lambda>l. good_line 8192 l \<and> l \<noteq> []) trailers)"

text \<open>A writer that always accepts.\<close>

lemma write_free: "room s = None \<Longrightarrow> write_all bs s = (True, s\<lparr>outp := outp s @ bs\<rparr>)"
  by (simp add: write_all_def)

lemma stream_exact_n_exact:
  "room s = None \<Longrightarrow> n \<le> length (inp s) \<Longrightarrow>
     \<exists>s'. stream_exact_n n s = (True, s') \<and> inp s' = drop n (inp s) \<and> outp s' = outp s @ take n (inp s) \<and> room s' = None"
proof (induction n s rule: stream_exact_n.induct)
  case (1 n s)
  show ?case
  proof (cases "n = 0")
    case True
    with 1(2) show ?thesis by (simp add: stream_exact_n.simps)
  next
    case False
    obtain x s1 where x: "read_some (min n 65536) s = (x, s1)" by (cases "read_some (min n 65536) s")
    have "inp s \<noteq> []" using False 1(3) by auto
    then obtain bs where bs: "x = Some bs" "bs \<noteq> []" using read_some_spec [OF x] False by (cases x) auto
    have q: "takes s bs s1" "quiet s s1" "length bs \<le> n" using read_some_spec [OF x] bs by auto
    then have r: "room s1 = None" "inp s = bs @ inp s1" "outp s1 = outp s" using 1(2) by (auto simp: quiet_def takes_def)
    define s2 where "s2 = s1\<lparr>outp := outp s1 @ bs\<rparr>"
    have w: "write_all bs s1 = (True, s2)" using write_free [OF r(1)] by (simp add: s2_def)
    have "\<exists>s'. stream_exact_n (n - length bs) s2 = (True, s') \<and> inp s' = drop (n - length bs) (inp s2) \<and>
        outp s' = outp s2 @ take (n - length bs) (inp s2) \<and> room s' = None"
      using 1(1) [OF False x [symmetric] bs w [symmetric]] r 1(3) by (simp add: s2_def)
    then show ?thesis
      using stream_exact_n_step [of n s bs s1 True s2] False x bs w r q(3) by (auto simp: s2_def)
  qed
qed

lemma skip_trailers_exact:
  "inp s = concat (map (\<lambda>l. l @ crlf) trailers) @ crlf @ rest \<Longrightarrow> list_all (\<lambda>l. good_line 8192 l \<and> l \<noteq> []) trailers \<Longrightarrow>
     \<exists>s'. skip_trailers s = (True, s') \<and> inp s' = rest \<and> quiet s s'"
proof (induction trailers arbitrary: s)
  case Nil
  then show ?case using read_line_exact [of s "[]" rest 8192] by (auto simp: skip_trailers.simps [of s])
next
  case (Cons l ls)
  then have l: "LF \<notin> set l" "length l < 8192" "l \<noteq> []"
    and i: "inp s = l @ crlf @ (concat (map (\<lambda>l. l @ crlf) ls) @ crlf @ rest)" by (auto simp: good_line_def)
  from read_line_exact [OF i l(1,2)] obtain s1 where s1: "read_line 8192 s = (Some (l @ crlf), s1)"
    "inp s1 = concat (map (\<lambda>l. l @ crlf) ls) @ crlf @ rest" "quiet s s1" by blast
  from Cons.IH [OF s1(2)] Cons.prems(2) obtain s' where "skip_trailers s1 = (True, s')" "inp s' = rest" "quiet s1 s'"
    by auto
  with s1 l(3) show ?case by (auto simp: skip_trailers.simps [of s] intro: quiet_trans)
qed

lemma relay_trailers_exact:
  "inp s = concat (map (\<lambda>l. l @ crlf) trailers) @ crlf @ rest \<Longrightarrow> list_all (\<lambda>l. good_line 8192 l \<and> l \<noteq> []) trailers \<Longrightarrow>
     room s = None \<Longrightarrow> \<exists>s'. relay_trailers s = (True, s') \<and> inp s' = rest"
proof (induction trailers arbitrary: s)
  case Nil
  then show ?case using read_line_exact [of s "[]" rest 8192]
    by (auto simp: relay_trailers.simps [of s] write_free quiet_def)
next
  case (Cons l ls)
  then have l: "LF \<notin> set l" "length l < 8192" "l \<noteq> []"
    and i: "inp s = l @ crlf @ (concat (map (\<lambda>l. l @ crlf) ls) @ crlf @ rest)" by (auto simp: good_line_def)
  from read_line_exact [OF i l(1,2)] obtain s1 where s1: "read_line 8192 s = (Some (l @ crlf), s1)"
    "inp s1 = concat (map (\<lambda>l. l @ crlf) ls) @ crlf @ rest" "quiet s s1" by blast
  then have w: "write_all (l @ crlf) s1 = (True, s1\<lparr>outp := outp s1 @ l @ crlf\<rparr>)"
    using Cons.prems(3) by (simp add: write_free quiet_def)
  from Cons.IH [of "s1\<lparr>outp := outp s1 @ l @ crlf\<rparr>"] s1 Cons.prems(2,3)
  obtain s' where "relay_trailers (s1\<lparr>outp := outp s1 @ l @ crlf\<rparr>) = (True, s')" "inp s' = rest"
    by (auto simp: quiet_def)
  with s1 w l(3) show ?case by (auto simp: relay_trailers.simps [of s])
qed

lemma chunked_cons:
  assumes "inp s = body_wire ((t, d) # chunks) lst trailers @ rest" "good_chunk (t, d)"
  obtains s1 where "read_line 4096 s = (Some (t @ crlf), s1)" "quiet s s1"
    "inp s1 = d @ crlf @ body_wire chunks lst trailers @ rest" "ending_of s1 = ending_of s"
proof -
  have "inp s = t @ crlf @ (d @ crlf @ body_wire chunks lst trailers @ rest)" "LF \<notin> set t" "length t < 4096"
    using assms by (auto simp: body_wire_def good_line_def)
  from read_line_exact [OF this] that show ?thesis by blast
qed

lemma chunked_tail:
  assumes "inp s = body_wire [] lst trailers @ rest" "good_tail lst trailers"
  obtains s1 where "read_line 4096 s = (Some (lst @ crlf), s1)" "quiet s s1"
    "inp s1 = concat (map (\<lambda>l. l @ crlf) trailers) @ crlf @ rest"
proof -
  have "inp s = lst @ crlf @ (concat (map (\<lambda>l. l @ crlf) trailers) @ crlf @ rest)" "LF \<notin> set lst" "length lst < 4096"
    using assms by (auto simp: body_wire_def tail_wire_def good_tail_def good_line_def)
  from read_line_exact [OF this] that show ?thesis by blast
qed

lemma read_full_two:
  assumes "inp s = crlf @ rest"
  obtains s1 where "read_full 2 s = (Some crlf, s1)" "inp s1 = rest" "quiet s s1"
proof -
  obtain s1 where "read_full 2 s = (Some (take 2 (inp s)), s1)" "inp s1 = drop 2 (inp s)"
    using read_full_enough [of 2 s] assms by auto
  with that [of s1] read_full_spec [of 2 s _ s1] assms show ?thesis by simp
qed

lemma relay_chunked_decoded_exact:
  "inp s = body_wire chunks lst trailers @ rest \<Longrightarrow> list_all good_chunk chunks \<Longrightarrow> good_tail lst trailers \<Longrightarrow>
     room s = None \<Longrightarrow>
     \<exists>s'. relay_chunked_decoded s = (True, s') \<and> inp s' = rest \<and> outp s' = outp s @ concat (map snd chunks)"
proof (induction chunks arbitrary: s)
  case Nil
  from chunked_tail [OF Nil(1,3)] obtain s1 where s1: "read_line 4096 s = (Some (lst @ crlf), s1)" "quiet s s1"
    "inp s1 = concat (map (\<lambda>l. l @ crlf) trailers) @ crlf @ rest" by blast
  have z: "parse_chunk_size (lst @ crlf) = Some 0" "list_all (\<lambda>l. good_line 8192 l \<and> l \<noteq> []) trailers"
    using Nil(3) by (auto simp: good_tail_def)
  from skip_trailers_exact [OF s1(3) z(2)] s1 z(1) show ?case
    by (auto simp: relay_chunked_decoded.simps [of s] quiet_def)
next
  case (Cons c chunks)
  obtain t d where c: "c = (t, d)" by (cases c)
  then have g: "good_chunk (t, d)" using Cons.prems(2) by simp
  then have pn: "parse_chunk_size (t @ crlf) = Some (length d)" "length d \<noteq> 0" by auto
  from chunked_cons [OF Cons.prems(1) [unfolded c] g] obtain s1 where s1: "read_line 4096 s = (Some (t @ crlf), s1)"
    "quiet s s1" "inp s1 = d @ crlf @ body_wire chunks lst trailers @ rest" by blast
  then have rm: "room s1 = None" "outp s1 = outp s" using Cons.prems(4) by (auto simp: quiet_def)
  from stream_exact_n_exact [OF rm(1), of "length d"] s1(3) obtain s2 where s2: "stream_exact_n (length d) s1 = (True, s2)"
    "inp s2 = crlf @ (body_wire chunks lst trailers @ rest)" "outp s2 = outp s1 @ d" "room s2 = None" by auto
  from read_full_two [OF s2(2)] obtain s3 where s3: "read_full 2 s2 = (Some crlf, s3)"
    "inp s3 = body_wire chunks lst trailers @ rest" "quiet s2 s3" by blast
  with Cons.IH [OF s3(2)] Cons.prems(2,3) s2(4) obtain s4 where "relay_chunked_decoded s3 = (True, s4)" "inp s4 = rest"
    "outp s4 = outp s3 @ concat (map snd chunks)" by (auto simp: quiet_def)
  with s1 s2 s3 pn rm show ?case by (auto simp: relay_chunked_decoded.simps [of s] c quiet_def)
qed

lemma relay_chunked_exact:
  "inp s = body_wire chunks lst trailers @ rest \<Longrightarrow> list_all good_chunk chunks \<Longrightarrow> good_tail lst trailers \<Longrightarrow>
     room s = None \<Longrightarrow> \<exists>s'. relay_chunked s = (True, s') \<and> inp s' = rest"
proof (induction chunks arbitrary: s)
  case Nil
  from chunked_tail [OF Nil(1,3)] obtain s1 where s1: "read_line 4096 s = (Some (lst @ crlf), s1)" "quiet s s1"
    "inp s1 = concat (map (\<lambda>l. l @ crlf) trailers) @ crlf @ rest" by blast
  have z: "parse_chunk_size (lst @ crlf) = Some 0" "list_all (\<lambda>l. good_line 8192 l \<and> l \<noteq> []) trailers"
    using Nil(3) by (auto simp: good_tail_def)
  have rm: "room s1 = None" using Nil(4) s1(2) by (simp add: quiet_def)
  from relay_trailers_exact [of "s1\<lparr>outp := outp s1 @ lst @ crlf\<rparr>", OF _ z(2)] s1(3) rm
  show ?case using s1(1) z(1) write_free [OF rm]
    by (auto simp: relay_chunked.simps [of s])
next
  case (Cons c chunks)
  obtain t d where c: "c = (t, d)" by (cases c)
  then have g: "good_chunk (t, d)" using Cons.prems(2) by simp
  then have pn: "parse_chunk_size (t @ crlf) = Some (length d)" "length d \<noteq> 0" by auto
  from chunked_cons [OF Cons.prems(1) [unfolded c] g] obtain s1 where s1: "read_line 4096 s = (Some (t @ crlf), s1)"
    "quiet s s1" "inp s1 = d @ crlf @ body_wire chunks lst trailers @ rest" by blast
  then have rm: "room s1 = None" using Cons.prems(4) by (auto simp: quiet_def)
  define s2 where "s2 = s1\<lparr>outp := outp s1 @ t @ crlf\<rparr>"
  have s2: "write_all (t @ crlf) s1 = (True, s2)" "room s2 = None"
    "inp s2 = d @ crlf @ body_wire chunks lst trailers @ rest"
    using write_free [OF rm] rm s1(3) by (simp_all add: s2_def)
  from stream_exact_n_exact [OF s2(2), of "length d"] s2(3) obtain s3 where s3: "stream_exact_n (length d) s2 = (True, s3)"
    "inp s3 = crlf @ (body_wire chunks lst trailers @ rest)" "room s3 = None" by auto
  from read_full_two [OF s3(2)] obtain s4 where s4: "read_full 2 s3 = (Some crlf, s4)"
    "inp s4 = body_wire chunks lst trailers @ rest" "quiet s3 s4" by blast
  define s5 where "s5 = s4\<lparr>outp := outp s4 @ crlf\<rparr>"
  have s5: "write_all crlf s4 = (True, s5)" "room s5 = None" "inp s5 = body_wire chunks lst trailers @ rest"
    using s3(3) s4 write_free [of s4] by (simp_all add: s5_def quiet_def)
  from Cons.IH [OF s5(3) _ Cons.prems(3) s5(2)] Cons.prems(2) obtain s6 where "relay_chunked s5 = (True, s6)" "inp s6 = rest"
    by auto
  with s1 s2 s3 s4 s5 pn show ?case by (auto simp: relay_chunked.simps [of s] c)
qed

lemma read_chunks_exact:
  "inp s = body_wire chunks lst trailers @ rest \<Longrightarrow> list_all good_chunk chunks \<Longrightarrow> good_tail lst trailers \<Longrightarrow>
     \<forall>c\<in>set chunks. alloc (length (snd c)) \<Longrightarrow>
     \<exists>s'. read_chunks alloc body s = (Some (body @ concat (map snd chunks)), s') \<and> inp s' = rest \<and> quiet s s'"
proof (induction chunks arbitrary: s body)
  case Nil
  from chunked_tail [OF Nil(1,3)] obtain s1 where s1: "read_line 4096 s = (Some (lst @ crlf), s1)" "quiet s s1"
    "inp s1 = concat (map (\<lambda>l. l @ crlf) trailers) @ crlf @ rest" by blast
  have z: "parse_chunk_size (lst @ crlf) = Some 0" "list_all (\<lambda>l. good_line 8192 l \<and> l \<noteq> []) trailers"
    using Nil(3) by (auto simp: good_tail_def)
  from skip_trailers_exact [OF s1(3) z(2)] s1 z(1) show ?case
    by (auto simp: read_chunks.simps [of alloc body s] intro: quiet_trans)
next
  case (Cons c chunks)
  obtain t d where c: "c = (t, d)" by (cases c)
  then have g: "good_chunk (t, d)" using Cons.prems(2) by simp
  then have pn: "parse_chunk_size (t @ crlf) = Some (length d)" "length d \<noteq> 0" by auto
  from chunked_cons [OF Cons.prems(1) [unfolded c] g] obtain s1 where s1: "read_line 4096 s = (Some (t @ crlf), s1)"
    "quiet s s1" "inp s1 = d @ crlf @ body_wire chunks lst trailers @ rest" by blast
  from read_full_enough [of "length d" s1] s1(3) obtain s2 where s2: "read_full (length d) s1 = (Some d, s2)"
    "inp s2 = crlf @ (body_wire chunks lst trailers @ rest)" by auto
  have q2: "quiet s1 s2" using read_full_spec [OF s2(1)] by simp
  have rn: "read_n alloc (length d) s1 = (Some d, s2)" using s2(1) Cons.prems(4) c by (simp add: read_n_def)
  from read_full_two [OF s2(2)] obtain s3 where s3: "read_full 2 s2 = (Some crlf, s3)"
    "inp s3 = body_wire chunks lst trailers @ rest" "quiet s2 s3" by blast
  from Cons.IH [OF s3(2) _ Cons.prems(3), of "body @ d"] Cons.prems(2,4) obtain s4
    where "read_chunks alloc (body @ d) s3 = (Some ((body @ d) @ concat (map snd chunks)), s4)" "inp s4 = rest" "quiet s3 s4"
    by auto
  with s1 rn q2 s3 pn show ?case
    by (auto simp: read_chunks.simps [of alloc body s] c intro: quiet_trans)
qed

section \<open>The serialised request, seen by the next parser\<close>

definition header_out :: "string \<Rightarrow> string \<times> string \<Rightarrow> (string \<times> string) option" where
  "header_out hv kv = (let kl = to_lower (fst kv) in
     if dropped_header kl \<or> framing_header kl \<or> kl = ''cookie'' then None
     else if kl = ''host'' then Some (''Host'', hv) else Some kv)"

definition cookies_of :: "(string \<times> string) list \<Rightarrow> string list" where
  "cookies_of hs = filter (\<lambda>v. v \<noteq> []) (map (\<lambda>(k, v). trim v) (filter (\<lambda>(k, v). to_lower k = ''cookie'') hs))"

definition has_name :: "string \<Rightarrow> (string \<times> string) list \<Rightarrow> bool" where
  "has_name n hs = list_ex (\<lambda>(k, v). to_lower k = n) hs"

definition framed :: "(string \<times> string) list \<Rightarrow> bool" where
  "framed hs = list_ex (\<lambda>(k, v). framing_header (to_lower k)) hs"

definition wire_headers :: "http_request \<Rightarrow> string \<Rightarrow> u16 \<Rightarrow> (string \<times> string) list" where
  "wire_headers req host port = (let hs = r_headers req; hv = host_value_of host port in
     List.map_filter (header_out hv) hs @
     (if has_name ''host'' hs then [] else [(''Host'', hv)]) @
     (if cookies_of hs = [] then [] else [(''Cookie'', join ''; '' (cookies_of hs))]) @
     (if framed hs then [(''Content-Length'', show_nat (length (r_body req)))] else []) @
     (if has_name ''connection'' hs then [] else [(''Connection'', ''keep-alive'')]))"

lemma write_header_step:
  "write_header hv kv w = \<lparr>has_host = has_host w \<or> to_lower (fst kv) = ''host'',
     has_conn = has_conn w \<or> to_lower (fst kv) = ''connection'',
     body_was_framed = body_was_framed w \<or> framing_header (to_lower (fst kv)),
     cookies = cookies w @ cookies_of [kv],
     wout = wout w @ concat (map (\<lambda>(k, v). header_line k v) (List.map_filter (header_out hv) [kv]))\<rparr>"
  by (cases kv, cases w)
    (auto simp: write_header_def header_out_def emit_def dropped_header_def framing_header_def
      cookies_of_def map_filter_def Let_def)

lemma cookies_of_append: "cookies_of (xs @ ys) = cookies_of xs @ cookies_of ys"
  by (simp add: cookies_of_def)

lemma map_filter_append: "List.map_filter f (xs @ ys) = List.map_filter f xs @ List.map_filter f ys"
  by (simp add: map_filter_def)

lemma write_headers_fold:
  "fold (write_header hv) hs w = \<lparr>has_host = has_host w \<or> has_name ''host'' hs,
     has_conn = has_conn w \<or> has_name ''connection'' hs,
     body_was_framed = body_was_framed w \<or> framed hs,
     cookies = cookies w @ cookies_of hs,
     wout = wout w @ concat (map (\<lambda>(k, v). header_line k v) (List.map_filter (header_out hv) hs))\<rparr>"
proof (induction hs arbitrary: w)
  case Nil
  then show ?case by (cases w) (simp add: has_name_def framed_def cookies_of_def map_filter_def)
next
  case (Cons kv hs)
  have c: "cookies_of (kv # hs) = cookies_of [kv] @ cookies_of hs"
    "List.map_filter (header_out hv) (kv # hs) = List.map_filter (header_out hv) [kv] @ List.map_filter (header_out hv) hs"
    using cookies_of_append [of "[kv]" hs] map_filter_append [of "header_out hv" "[kv]" hs] by simp_all
  have s: "fold (write_header hv) (kv # hs) w = fold (write_header hv) hs (write_header hv kv w)" by simp
  show ?case
    unfolding s Cons.IH unfolding write_header_step c
    by (cases kv) (auto simp: has_name_def framed_def)
qed

definition request_head :: "http_request \<Rightarrow> string \<Rightarrow> u16 \<Rightarrow> bool \<Rightarrow> string" where
  "request_head req host port absolute =
     concat (map (\<lambda>l. l @ crlf) ((r_method req @ '' '' @ request_target req host port absolute @ '' HTTP/1.1'') #
       map (\<lambda>(k, v). k @ '': '' @ v) (wire_headers req host port))) @ crlf"

lemma concat_header_lines:
  "concat (map (\<lambda>(k, v). header_line k v) hs) = concat (map (\<lambda>l. l @ crlf) (map (\<lambda>(k, v). k @ '': '' @ v) hs))"
  by (induction hs) (auto simp: header_line_def)

lemma header_block:
  "concat (map (\<lambda>l. l @ crlf) (start # map (\<lambda>(k, v). k @ '': '' @ v)
     (M @ (if a then [] else [(k1, v1)]) @ (if c then [] else [(k2, v2)]) @ (if f then [(k3, v3)] else []) @
      (if b then [] else [(k4, v4)])))) =
   start @ crlf @ concat (map (\<lambda>(k, v). header_line k v) M) @ (if \<not> a then header_line k1 v1 else []) @
     (if \<not> c then header_line k2 v2 else []) @ (if f then header_line k3 v3 else []) @
     (if \<not> b then header_line k4 v4 else [])"
  unfolding concat_header_lines by (cases a; cases c; cases f; cases b) (simp_all add: header_line_def)

lemma header_literals:
  "header_line ''Cookie'' x = ''Cookie: '' @ x @ crlf" "header_line ''Content-Length'' x = ''Content-Length: '' @ x @ crlf"
  "header_line ''Connection'' ''keep-alive'' = ''Connection: keep-alive'' @ crlf"
  by (simp_all add: header_line_def)

lemma write_request_head:
  "write_request req host port absolute = request_head req host port absolute @ r_body req"
  unfolding write_request_def request_head_def wire_headers_def Let_def header_block write_headers_fold
    writing.select_convs header_literals append_assoc append_Nil simp_thms
  by (rule TrueI)

text \<open>The end of the head is found where it is, not earlier.\<close>

lemma first_LF: "LF \<notin> set a \<Longrightarrow> LF \<notin> set b \<Longrightarrow> a @ LF # x = b @ LF # y \<Longrightarrow> a = b \<and> x = y"
  by (metis split_once_append option.inject prod.inject)

lemma head_end_unique:
  "\<forall>l\<in>set ls. LF \<notin> set l \<and> l \<noteq> [] \<Longrightarrow> z @ head_end @ r = concat (map (\<lambda>l. l @ crlf) ls) @ crlf \<Longrightarrow> r = []"
proof (induction ls arbitrary: z)
  case Nil
  then have "length (z @ head_end @ r) = 2" by simp
  then show ?case by (simp add: head_end_def)
next
  case (Cons l ls)
  let ?W = "concat (map (\<lambda>l. l @ crlf) ls) @ crlf"
  have e: "z @ head_end @ r = (l @ [CR]) @ LF # ?W" using Cons.prems(2) by simp
  have l: "LF \<notin> set (l @ [CR])" using Cons.prems(1) by simp
  show ?case
  proof (cases "LF \<in> set z")
    case False
    have "(z @ [CR]) @ LF # (crlf @ r) = (l @ [CR]) @ LF # ?W" using e by (simp add: head_end_def)
    moreover have "LF \<notin> set (z @ [CR])" using False by simp
    ultimately have w: "crlf @ r = ?W" using first_LF [OF _ l, of "z @ [CR]" "crlf @ r" ?W] by simp
    show ?thesis
    proof (cases ls)
      case Nil
      with w show ?thesis by simp
    next
      case (Cons m ms)
      with Cons.prems(1) have m: "LF \<notin> set m" "m \<noteq> []" by auto
      have "[CR] @ LF # r = (m @ [CR]) @ LF # (concat (map (\<lambda>l. l @ crlf) ms) @ crlf)" using w Cons by simp
      then have "[CR] = m @ [CR]" using first_LF [of "[CR]" "m @ [CR]"] m(1) by simp
      with m(2) show ?thesis by simp
    qed
  next
    case True
    then obtain a b where z: "z = a @ LF # b" "LF \<notin> set a" by (meson split_list_first)
    then have "a @ LF # (b @ head_end @ r) = (l @ [CR]) @ LF # ?W" using e by simp
    then have "b @ head_end @ r = ?W" using first_LF [OF z(2) l] by blast
    with Cons.IH [of b] Cons.prems(1) show ?thesis by auto
  qed
qed

lemma read_head_exact:
  assumes "inp s = hd_text @ rest" "hd_text = concat (map (\<lambda>l. l @ crlf) ls) @ crlf" "ls \<noteq> []"
    and ls: "\<forall>l\<in>set ls. LF \<notin> set l \<and> l \<noteq> []" and len: "length hd_text \<le> 65537"
  shows "\<exists>s'. read_head s = (Some hd_text, s') \<and> inp s' = rest \<and> quiet s s' \<and> ending_of s' = ending_of s"
proof -
  have "concat (map (\<lambda>l. l @ crlf) ls) = concat (map (\<lambda>l. l @ crlf) (butlast ls)) @ last ls @ crlf"
    using assms(3) by (induction ls rule: rev_induct) auto
  then have "hd_text = (concat (map (\<lambda>l. l @ crlf) (butlast ls)) @ last ls) @ head_end"
    by (simp add: assms(2) head_end_def)
  then have sf: "ends_with hd_text head_end" by (rule suffixI)
  have "\<not> ends_with q head_end" if sp: "strict_prefix q hd_text" for q
  proof
    assume "ends_with q head_end"
    then obtain z where "q = z @ head_end" by (auto simp: suffix_def)
    moreover obtain r where "hd_text = q @ r" "r \<noteq> []"
      using sp by (auto elim: strict_prefixE')
    ultimately have "z @ head_end @ r = concat (map (\<lambda>l. l @ crlf) ls) @ crlf" "r \<noteq> []" using assms(2) by simp_all
    with head_end_unique [OF ls] show False by blast
  qed
  with sf show ?thesis
    unfolding read_head_def
    using read_until_exact [where s = s and l = hd_text and rest = rest and buf = "[]" and delim = head_end and mx = 65536]
      assms(1,2) len by simp
qed

lemma trim_space [simp]: "trim (CHR '' '' # v) = trim v"
  by (simp add: trim_def trim_start_def is_ws_def code_of_def)

lemma parse_header_line:
  "CHR '':'' \<notin> set k \<Longrightarrow> split_once CHR '':'' (k @ '': '' @ v) = Some (k, CHR '' '' # v)"
  using split_once_append [of "CHR '':''" k "CHR '' '' # v"] by simp

lemma parse_header_lines:
  "\<forall>(k, v)\<in>set hs. CHR '':'' \<notin> set k \<and> trim k = k \<Longrightarrow>
     parse_headers (map (\<lambda>(k, v). k @ '': '' @ v) hs @ [[]]) = map (\<lambda>(k, v). (k, trim v)) hs"
proof (induction hs)
  case Nil
  then show ?case by (simp add: parse_headers_def map_filter_def)
next
  case (Cons h hs)
  obtain k v where "h = (k, v)" by (cases h)
  with Cons show ?case
    using parse_header_line [of k v] by (simp add: parse_headers_def map_filter_simps)
qed

text \<open>What the parser reads from a head of that shape.\<close>

definition plain_headers :: "(string \<times> string) list \<Rightarrow> bool" where
  "plain_headers hs = list_all (\<lambda>(k, v). CHR '':'' \<notin> set k \<and> LF \<notin> set k \<and> trim k = k \<and> LF \<notin> set v) hs"

definition word_ok :: "string \<Rightarrow> bool" where
  "word_ok s = (s \<noteq> [] \<and> list_all (\<lambda>c. \<not> is_ws c) s)"

lemma split_ws_acc_word:
  "list_all (\<lambda>c. \<not> is_ws c) s \<Longrightarrow> split_ws_acc acc (s @ t) = split_ws_acc (rev s @ acc) t"
  by (induction s arbitrary: acc) auto

lemma split_ws_request_line:
  "word_ok m \<Longrightarrow> word_ok p \<Longrightarrow> split_ws (m @ '' '' @ p @ '' HTTP/1.1'') = [m, p, ''HTTP/1.1'']"
proof -
  assume "word_ok m" "word_ok p"
  moreover have "split_ws_acc [] ''HTTP/1.1'' = [''HTTP/1.1'']" "is_ws CHR '' ''" by code_simp+
  ultimately show ?thesis by (simp add: split_ws_def split_ws_acc_word word_ok_def)
qed

lemma word_no_LF: "word_ok s \<Longrightarrow> LF \<notin> set s"
  by (auto simp: word_ok_def list_all_iff is_ws_def code_of_def)

lemma read_request_head:
  assumes rl: "word_ok m" "word_ok p" and hs: "plain_headers hs"
    and h: "hd_text = concat (map (\<lambda>l. l @ crlf) ((m @ '' '' @ p @ '' HTTP/1.1'') # map (\<lambda>(k, v). k @ '': '' @ v) hs)) @ crlf"
    and ok: "utf8_valid hd_text" "length hd_text \<le> 65537" "inp s = hd_text @ rest"
    and ex: "\<not> has_token ''Expect'' ''100-continue'' (map (\<lambda>(k, v). (k, trim v)) hs)"
  shows "\<exists>s1. quiet s s1 \<and> inp s1 = rest \<and> read_request alloc s =
    (case read_body_of alloc (map (\<lambda>(k, v). (k, trim v)) hs) s1 of
       (None, s3) \<Rightarrow> (None, s3)
     | (Some body, s3) \<Rightarrow> (Some \<lparr>r_method = m, r_path = p, r_headers = map (\<lambda>(k, v). (k, trim v)) hs, r_body = body\<rparr>, s3))"
proof -
  let ?ls = "(m @ '' '' @ p @ '' HTTP/1.1'') # map (\<lambda>(k, v). k @ '': '' @ v) hs"
  have ls: "\<forall>l\<in>set ?ls. LF \<notin> set l \<and> l \<noteq> []"
    using hs word_no_LF [OF rl(1)] word_no_LF [OF rl(2)] by (auto simp: plain_headers_def list_all_iff)
  obtain s1 where s1: "read_head s = (Some hd_text, s1)" "inp s1 = rest" "quiet s s1"
    using read_head_exact [OF ok(3) h _ ls ok(2)] by auto
  have "lines hd_text = ?ls @ [[]]"
    unfolding h using lines_crlf_list [of ?ls crlf] ls lines_crlf [of "[]" "[]"] by simp
  then have li: "lines (utf8_lossy hd_text) = (m @ '' '' @ p @ '' HTTP/1.1'') # (map (\<lambda>(k, v). k @ '': '' @ v) hs @ [[]])"
    by (simp add: utf8_lossy_valid [OF ok(1)])
  have ph: "parse_headers (map (\<lambda>(k, v). k @ '': '' @ v) hs @ [[]]) = map (\<lambda>(k, v). (k, trim v)) hs"
    by (rule parse_header_lines) (use hs in \<open>auto simp: plain_headers_def list_all_iff\<close>)
  have "read_request alloc s =
    (case read_body_of alloc (map (\<lambda>(k, v). (k, trim v)) hs) s1 of
       (None, s3) \<Rightarrow> (None, s3)
     | (Some body, s3) \<Rightarrow> (Some \<lparr>r_method = m, r_path = p, r_headers = map (\<lambda>(k, v). (k, trim v)) hs, r_body = body\<rparr>, s3))"
    unfolding read_request_def s1(1) prod.case option.case li list.case split_ws_request_line [OF rl] ph Let_def
    using ex by simp
  with s1 show ?thesis by blast
qed

lemma lower_names:
  "to_lower ''Host'' = ''host''" "to_lower ''Cookie'' = ''cookie''"
  "to_lower ''Content-Length'' = ''content-length''" "to_lower ''Connection'' = ''connection''"
  "to_lower ''Transfer-Encoding'' = ''transfer-encoding''" "to_lower ''Expect'' = ''expect''"
  by code_simp+

text \<open>The headers that go out: no framing but the new length, no expectation.\<close>

lemma wire_headers_names:
  assumes "(k, v) \<in> set (wire_headers req host port)"
  shows "\<not> dropped_header (to_lower k) \<and> to_lower k \<noteq> ''transfer-encoding''"
  using assms
  by (auto simp: wire_headers_def Let_def header_out_def map_filter_def dropped_header_def framing_header_def
      lower_names split: if_splits)

lemma wire_no_token:
  "\<not> has_token ''Expect'' tok (map (\<lambda>(k, v). (k, trim v)) (wire_headers req host port))"
  "\<not> has_token ''Transfer-Encoding'' tok (map (\<lambda>(k, v). (k, trim v)) (wire_headers req host port))"
  by (auto simp: has_token_def list_ex_iff eq_ignore_case_def dropped_header_def dest: wire_headers_names)

lemma wire_content_length:
  "filter (\<lambda>(k, v). to_lower k = ''content-length'') (wire_headers req host port) =
     (if framed (r_headers req) then [(''Content-Length'', show_nat (length (r_body req)))] else [])"
proof -
  have "filter (\<lambda>(k, v). to_lower k = ''content-length'') (List.map_filter (header_out hv) hs) = []" for hv hs
    by (auto simp: filter_empty_conv map_filter_def header_out_def framing_header_def Let_def lower_names
        split: if_splits)
  then show ?thesis by (auto simp: wire_headers_def Let_def lower_names)
qed

lemma find_filter: "List.find P xs = (case filter P xs of [] \<Rightarrow> None | x # _ \<Rightarrow> Some x)"
  by (induction xs) auto

lemma filter_trimmed:
  "filter (\<lambda>(k, v). P k) (map (\<lambda>(k, v). (k, trim v)) hs) = map (\<lambda>(k, v). (k, trim v)) (filter (\<lambda>(k, v). P k) hs)"
  by (induction hs) auto

lemma trim_show_nat [simp]: "trim (show_nat n) = show_nat n"
proof (rule trim_nonempty_iff [THEN iffD2])
  have "is_digit c \<Longrightarrow> \<not> is_ws c" for c by (auto simp: is_digit_def is_ws_def)
  moreover have "hd (show_nat n) \<in> set (show_nat n)" "last (show_nat n) \<in> set (show_nat n)" by simp_all
  ultimately show "\<not> is_ws (hd (show_nat n)) \<and> \<not> is_ws (last (show_nat n))" using show_nat_digit by blast
qed simp

lemma wire_length_value:
  assumes "length (r_body req) \<le> u64_max"
  shows "content_length_of (map (\<lambda>(k, v). (k, trim v)) (wire_headers req host port)) =
    (if framed (r_headers req) then Some (length (r_body req)) else None)"
  using assms
  by (simp add: content_length_of_def find_header_def find_filter eq_ignore_case_def lower_names filter_trimmed
      wire_content_length del: filter_map)

definition wf_request :: "http_request \<Rightarrow> bool" where
  "wf_request req = (word_ok (r_method req) \<and> word_ok (r_path req) \<and> plain_headers (r_headers req))"

lemma join_no_LF: "LF \<notin> set sep \<Longrightarrow> \<forall>v\<in>set vs. LF \<notin> set v \<Longrightarrow> LF \<notin> set (join sep vs)"
  by (induction sep vs rule: join.induct) auto

lemma trim_set: "set (trim s) \<subseteq> set s"
  by (auto simp: trim_def trim_end_def trim_start_def dest!: set_dropWhileD)

lemma wire_headers_plain:
  assumes "plain_headers (r_headers req)" "LF \<notin> set host"
  shows "plain_headers (wire_headers req host port)"
proof -
  have d: "LF \<notin> set (show_nat n)" for n using show_nat_digit [of LF n] by (auto simp: is_digit_def code_of_def)
  have hv: "LF \<notin> set (host_value_of host port)" using assms(2) d by (auto simp: host_value_of_def show_u16_def)
  have c: "LF \<notin> set (join ''; '' (cookies_of (r_headers req)))"
    using assms(1) trim_set by (intro join_no_LF) (fastforce simp: cookies_of_def plain_headers_def list_all_iff)+
  have lit: "trim ''Host'' = ''Host''" "trim ''Cookie'' = ''Cookie''" "trim ''Content-Length'' = ''Content-Length''"
    "trim ''Connection'' = ''Connection''" by code_simp+
  show ?thesis
    using assms(1) hv c d
    by (fastforce simp: plain_headers_def list_all_iff wire_headers_def Let_def lit map_filter_def header_out_def
        split: if_splits)
qed

section \<open>Properties\<close>


text \<open>Chunked bodies survive in every direction: on a well-formed chunked body the relay to an
  HTTP/1 client copies the wire bytes (size lines, extensions and trailers included), the relay to
  an HTTP/2 client writes exactly the entity bytes, the request reader collects exactly the entity
  bytes, and each leaves the stream at the byte after the body, for every segmentation.\<close>

theorem chunked_body_relayed:
  assumes "inp s = body_wire chunks lst trailers @ rest" "list_all good_chunk chunks" "good_tail lst trailers"
    and "room s = None" "\<forall>c\<in>set chunks. alloc (length (snd c))"
  shows "(\<exists>s1. relay_chunked s = (True, s1) \<and> inp s1 = rest \<and> outp s1 = outp s @ body_wire chunks lst trailers)
    \<and> (\<exists>s2. relay_chunked_decoded s = (True, s2) \<and> inp s2 = rest \<and> outp s2 = outp s @ concat (map snd chunks))
    \<and> (\<exists>s3. read_chunks alloc [] s = (Some (concat (map snd chunks)), s3) \<and> inp s3 = rest)"
proof -
  obtain s1 where s1: "relay_chunked s = (True, s1)" "inp s1 = rest"
    using relay_chunked_exact [OF assms(1-4)] by blast
  moreover have "outp s1 = outp s @ body_wire chunks lst trailers"
    using relay_chunked_copies [OF s1(1)] s1(2) assms(1) by (auto simp: copies_def)
  ultimately show ?thesis
    using relay_chunked_decoded_exact [OF assms(1-4)] read_chunks_exact [OF assms(1-3,5), of "[]"] by fastforce
qed

lemma stream_response_body_consumes:
  assumes "stream_response_body rh meth s = (Some ka, s')"
  shows "\<exists>bs. inp s = bs @ inp s' \<and> outp s' = outp s @ client_head rh @ bs
    \<and> (bodyless meth rh \<longrightarrow> bs = [] \<and> ka = keep_alive rh)
    \<and> (\<forall>len. \<not> bodyless meth rh \<longrightarrow> \<not> is_chunked rh \<longrightarrow> content_length_of (h_headers rh) = Some len \<longrightarrow> length bs = len)
    \<and> (\<not> bodyless meth rh \<longrightarrow> \<not> is_chunked rh \<longrightarrow> content_length_of (h_headers rh) = None \<longrightarrow> inp s' = [] \<and> \<not> ka)"
proof -
  obtain ok s1 where w: "write_all (client_head rh) s = (ok, s1)" by (cases "write_all (client_head rh) s")
  then have ok: ok using assms by (auto simp: stream_response_body_def stream_response_body_inner_def split: if_splits)
  have s1: "inp s1 = inp s" "outp s1 = outp s @ client_head rh" using write_all_spec [OF w] ok by auto
  note u = stream_response_body_def stream_response_body_inner_def w
  consider "bodyless meth rh" | "\<not> bodyless meth rh" "is_chunked rh"
    | len where "\<not> bodyless meth rh" "\<not> is_chunked rh" "content_length_of (h_headers rh) = Some len"
    | "\<not> bodyless meth rh" "\<not> is_chunked rh" "content_length_of (h_headers rh) = None" by blast
  then show ?thesis
  proof cases
    case 1
    then show ?thesis using assms ok s1 by (simp add: u)
  next
    case 2
    then have "relay_chunked s1 = (True, s')" using assms ok by (auto simp: u split: prod.splits if_splits)
    then show ?thesis using relay_chunked_copies [of s1 s'] s1 2 by (auto simp: copies_def)
  next
    case 3
    then have "stream_exact_n len s1 = (True, s')" using assms ok by (auto simp: u split: prod.splits if_splits)
    then show ?thesis using stream_exact_n_copies [of len s1 s'] s1 3 by (auto simp: copies_def)
  next
    case 4
    then have "relay_to_close s1 = (True, s')" "\<not> ka" using assms ok by (auto simp: u split: prod.splits if_splits)
    then show ?thesis using relay_to_close_copies [of s1 s'] s1 4 by (auto simp: copies_def)
  qed
qed

text \<open>C30. The response relay never invents, drops or reads ahead: if it reports success to an HTTP/1
  client, the client got the rewritten head followed by exactly the bytes taken from the upstream;
  none are taken for an answer without a body, exactly the announced number for a
  \<open>Content-Length\<close> body, and all of them up to the end of the connection when nothing frames
  the body, in which case the connection is not reused.\<close>

theorem stream_response_body_exact:
  assumes "stream_response_body rh meth s = (Some ka, s')"
  shows "\<exists>bs. inp s = bs @ inp s' \<and> outp s' = outp s @ client_head rh @ bs
    \<and> (bodyless meth rh \<longrightarrow> bs = [] \<and> ka = keep_alive rh)
    \<and> (\<forall>len. \<not> bodyless meth rh \<longrightarrow> \<not> is_chunked rh \<longrightarrow> content_length_of (h_headers rh) = Some len \<longrightarrow> length bs = len)
    \<and> (\<not> bodyless meth rh \<longrightarrow> \<not> is_chunked rh \<longrightarrow> content_length_of (h_headers rh) = None \<longrightarrow> inp s' = [] \<and> \<not> ka)"
  by (rule stream_response_body_consumes [OF assms])

lemma candidate_loop_push: "candidate_loop out port ips = push_new out (map (\<lambda>ip. (ip, port)) ips)"
  by (induction ips arbitrary: out) auto

text \<open>The endpoint sequence is the configured addresses, then the resolved ones, on the requested
  port, each once, in order of first occurrence: nothing is added and nothing dropped.\<close>

theorem candidate_endpoints_order:
  "distinct (candidate_endpoints preferred port ips)
   \<and> set (candidate_endpoints preferred port ips) = (set preferred \<union> set ips) \<times> {port}
   \<and> prefix (candidate_endpoints preferred port []) (candidate_endpoints preferred port ips)
   \<and> (distinct (preferred @ ips) \<longrightarrow> map sa_ip (candidate_endpoints preferred port ips) = preferred @ ips)"
proof -
  have d: "distinct xs \<Longrightarrow> push_new [] (map (\<lambda>ip. (ip, port)) xs) = map (\<lambda>ip. (ip, port)) xs" for xs :: "ipaddr list"
    by (subst push_new_fresh) (auto simp: distinct_map inj_on_def)
  show ?thesis
    by (auto simp: candidate_endpoints_def candidate_loop_push distinct_push_new push_new_append push_new_prefix
        d [of "preferred @ ips", simplified push_new_append map_append] comp_def)
qed

text \<open>The TLS dial returns the first endpoint whose handshake completes: all earlier ones failed,
  and it gives up only when every endpoint failed or the name is no server name.\<close>

theorem connect_upstream_tls_first:
  assumes "server_name sni = Some n"
  shows "(connect_upstream_tls server_name connect addrs sni = Some (a, c) \<longleftrightarrow>
      (\<exists>us vs. addrs = us @ a # vs \<and> connect (Named n) a = Connected c
        \<and> (\<forall>u\<in>set us. \<forall>d. connect (Named n) u \<noteq> Connected d)))
    \<and> (connect_upstream_tls server_name connect addrs sni = None \<longleftrightarrow>
      (\<forall>a\<in>set addrs. \<forall>c. connect (Named n) a \<noteq> Connected c))"
  unfolding connect_upstream_tls_def assms option.case
  using tls.dial_Some_iff [of "connect (Named n)" addrs a c] tls.dial_None_iff [of "connect (Named n)" addrs] by blast

section \<open>Witnesses\<close>

definition sample_request :: http_request where
  "sample_request = \<lparr>r_method = ''POST'', r_path = ''/x'', r_headers = [(''Host'', ''a.com''),
     (''Transfer-Encoding'', ''chunked''), (''Expect'', ''100-continue'')], r_body = ''abc''\<rparr>"

definition stream :: "string \<Rightarrow> nat list \<Rightarrow> io" where
  "stream bs gs = \<lparr>inp = bs, segs = gs, ending_of = Eof, outp = [], room = None\<rparr>"

lemma stream_simps [simp]: "inp (stream bs gs) = bs" "outp (stream bs gs) = []" "room (stream bs gs) = None"
  by (simp_all add: stream_def)


lemma chunked_body_witness:
  "\<exists>s2. relay_chunked_decoded (stream (''5;x'' @ crlf @ ''hello'' @ crlf @ ''0'' @ crlf @ crlf @ ''next'') [3, 1, 2]) = (True, s2)
     \<and> inp s2 = ''next'' \<and> outp s2 = ''hello''"
proof -
  have "list_all good_chunk [(''5;x'', ''hello'')]" "good_tail ''0'' []" by code_simp+
  from chunked_body_relayed [OF _ this, where s = "stream (''5;x'' @ crlf @ ''hello'' @ crlf @ ''0'' @ crlf @ crlf @ ''next'') [3, 1, 2]"
      and rest = "''next''" and alloc = "\<lambda>_. True"]
  show ?thesis by (auto simp: body_wire_def tail_wire_def)
qed

definition sample_head :: response_head where
  "sample_head = \<lparr>status = 200, reason = ''OK'', h_headers = [(''Content-Length'', ''2'')]\<rparr>"

lemma stream_response_body_witness:
  "\<exists>s'. stream_response_body sample_head ''GET'' (stream ''hiX'' []) = (Some True, s') \<and> inp s' = ''X''"
proof -
  have "fst (stream_response_body sample_head ''GET'' (stream ''hiX'' [])) = Some True" by code_simp
  then obtain s' where s': "stream_response_body sample_head ''GET'' (stream ''hiX'' []) = (Some True, s')"
    by (cases "stream_response_body sample_head ''GET'' (stream ''hiX'' [])") auto
  have "\<not> bodyless ''GET'' sample_head" "\<not> is_chunked sample_head" "content_length_of (h_headers sample_head) = Some 2"
    by code_simp+
  with stream_response_body_exact [OF s'] obtain bs where "''hiX'' = bs @ inp s'" "length bs = 2" by auto
  then have "inp s' = ''X''" by (cases bs; cases "tl bs") auto
  with s' show ?thesis by blast
qed

lemma connect_upstream_tls_witness:
  "connect_upstream_tls Some (\<lambda>n a. if sa_port a = 2 then Connected () else TlsFailed)
     [(loopback4, 1), (loopback4, 2)] ''a.com'' = Some ((loopback4, 2), ())"
proof -
  let ?c = "\<lambda>(n :: string sni_name) (a :: sockaddr). if sa_port a = 2 then Connected () else TlsFailed"
  have "\<exists>us vs. [(loopback4, 1), (loopback4, 2)] = us @ (loopback4, 2 :: u16) # vs \<and> ?c (Named ''a.com'') (loopback4, 2) = Connected ()
        \<and> (\<forall>u\<in>set us. \<forall>d. ?c (Named ''a.com'') u \<noteq> Connected d)"
    by (intro exI [of _ "[(loopback4, 1)]"] exI [of _ "[]"]) simp
  with connect_upstream_tls_first [of Some "''a.com''" "''a.com''" ?c "[(loopback4, 1), (loopback4, 2)]" "(loopback4, 2)" "()"]
  show ?thesis by simp
qed

lemma candidate_endpoints_witness:
  "map sa_ip (candidate_endpoints [ip4 20 205 243 166] 443 [ip4 8 8 8 8]) = [ip4 20 205 243 166, ip4 8 8 8 8]"
  by (rule candidate_endpoints_order [of "[ip4 20 205 243 166]" 443 "[ip4 8 8 8 8]", THEN conjunct2,
      THEN conjunct2, THEN conjunct2, rule_format, simplified]) (simp_all add: ip4_def)

end
