(* ===== verification/ClientHello.thy ===== *)
theory ClientHello
  imports RustStr "HOL-Library.Monad_Syntax"
begin

text \<open>
  The TLS peeks of \<open>crates/core/src/fwd.rs\<close>: \<open>sni_from_client_hello\<close>, the bounds-checked reader of
  the \<open>server_name\<close> extension, and the two polling loops that look at the first bytes of a client
  without consuming them. A poll is what one \<open>peek\<close> returns; the list of polls is the order in
  which the bytes arrive, and running out of polls is running out of time.
\<close>

section \<open>The reader\<close>

text \<open>The loop over the extensions, from offset \<open>j\<close>.\<close>

definition server_name :: "bytes \<Rightarrow> string option" where
  "server_name ext = do {
     t \<leftarrow> get_at 2 ext;
     if t \<noteq> 0 then None else do {
       a \<leftarrow> get_at 3 ext;
       b \<leftarrow> get_at 4 ext;
       raw \<leftarrow> get_range 5 (5 + unat (from_be16 a b)) ext;
       if utf8_valid (str_of raw) \<and> raw \<noteq> [] then Some (str_of raw) else None }}"

function scan_extensions :: "bytes \<Rightarrow> nat \<Rightarrow> string option" where
  "scan_extensions exts j =
     (if j + 4 \<le> length exts then
        (let ext_type = from_be16 (exts ! j) (exts ! (j + 1));
             ext_len = unat (from_be16 (exts ! (j + 2)) (exts ! (j + 3))) in
         (case get_range (j + 4) (j + 4 + ext_len) exts of
            None \<Rightarrow> None
          | Some ext \<Rightarrow>
              if ext_type = 0 then server_name ext else scan_extensions exts (j + 4 + ext_len)))
      else None)"
  by pat_completeness auto
termination
  by (relation "measure (\<lambda>(exts, j). length exts - j)") auto

declare scan_extensions.simps [simp del]

text \<open>Skipping the prefix of the hello: the offset of the extensions and their total length.\<close>

definition extension_block :: "bytes \<Rightarrow> bytes option" where
  "extension_block ch = do {
     sid \<leftarrow> get_at 34 ch;
     let i = 34 + (1 + unat sid);
     s1 \<leftarrow> get_at i ch; s2 \<leftarrow> get_at (i + 1) ch;
     let i = i + (2 + unat (from_be16 s1 s2));
     m \<leftarrow> get_at i ch;
     let i = i + (1 + unat m);
     e1 \<leftarrow> get_at i ch; e2 \<leftarrow> get_at (i + 1) ch;
     let i = i + 2;
     get_range i (i + unat (from_be16 e1 e2)) ch }"

definition sni_from_client_hello :: "bytes \<Rightarrow> string option" where
  "sni_from_client_hello record =
     (if length record < 5 \<or> record ! 0 \<noteq> 0x16 \<or> record ! 1 \<noteq> 0x03 then None
      else do {
        body \<leftarrow> get_from 5 record;
        t \<leftarrow> get_at 0 body;
        if t \<noteq> 1 then None else do {
          a \<leftarrow> get_at 1 body; b \<leftarrow> get_at 2 body; c \<leftarrow> get_at 3 body;
          ch \<leftarrow> get_range 4 (4 + (unat a * 65536 + unat b * 256 + unat c)) body;
          exts \<leftarrow> extension_block ch;
          scan_extensions exts 0 }})"

section \<open>The peeks\<close>

datatype poll = Peeked bytes | PeekFailed

definition client_hello_max :: nat where "client_hello_max = 16 * 1024"

fun peek_client_head :: "poll list \<Rightarrow> bytes option" where
  "peek_client_head [] = None"
| "peek_client_head (PeekFailed # ps) = Some []"
| "peek_client_head (Peeked bs # ps) =
     (if bs = [] then Some [] else if 2 \<le> length bs then Some (take 2 bs) else peek_client_head ps)"

fun peek_sni_loop :: "nat \<Rightarrow> poll list \<Rightarrow> string option" where
  "peek_sni_loop want [] = None"
| "peek_sni_loop want (PeekFailed # ps) = None"
| "peek_sni_loop want (Peeked bs # ps) =
     (let buf = take client_hello_max bs; have_n = length buf in
      if have_n = 0 then None
      else if 5 \<le> have_n \<and> (buf ! 0 \<noteq> 0x16 \<or> buf ! 1 \<noteq> 0x03) then None
      else (let want = (if 5 \<le> have_n then 5 + unat (from_be16 (buf ! 3) (buf ! 4)) else want) in
        if 5 \<le> have_n \<and> client_hello_max < want then None
        else if want \<le> have_n then sni_from_client_hello buf
        else peek_sni_loop want ps))"

definition peek_client_sni :: "poll list \<Rightarrow> string option" where
  "peek_client_sni ps = peek_sni_loop 5 ps"

section \<open>The writer the reader is checked against\<close>

text \<open>Length-prefixed fields as the TLS specification writes them.\<close>

definition be16_of :: "nat \<Rightarrow> bytes" where
  "be16_of n = to_be16 (word_of_nat n)"

definition vec8 :: "bytes \<Rightarrow> bytes" where
  "vec8 b = word_of_nat (length b) # b"

definition vec16 :: "bytes \<Rightarrow> bytes" where
  "vec16 b = be16_of (length b) @ b"

definition extension :: "u16 \<times> bytes \<Rightarrow> bytes" where
  "extension e = to_be16 (fst e) @ vec16 (snd e)"

definition server_name_ext :: "string \<Rightarrow> u16 \<times> bytes" where
  "server_name_ext name = (0, vec16 (0 # vec16 (bytes_of name)))"

record hello =
  fixed_part :: bytes
  session_id :: bytes
  cipher_suites :: bytes
  compressions :: bytes
  extensions :: "(u16 \<times> bytes) list"

definition hello_body :: "hello \<Rightarrow> bytes" where
  "hello_body h = fixed_part h @ vec8 (session_id h) @ vec16 (cipher_suites h) @ vec8 (compressions h) @
     vec16 (concat (map extension (extensions h)))"

definition be24_of :: "nat \<Rightarrow> bytes" where
  "be24_of n = [word_of_nat (n div 65536), word_of_nat (n div 256 mod 256), word_of_nat (n mod 256)]"

definition hello_record :: "hello \<Rightarrow> bytes" where
  "hello_record h = (let m = 1 # be24_of (length (hello_body h)) @ hello_body h in [0x16, 0x03, 0x01] @ vec16 m)"

definition wf_hello :: "hello \<Rightarrow> bool" where
  "wf_hello h = (length (fixed_part h) = 34 \<and> length (session_id h) < 256 \<and> length (cipher_suites h) < 65536 \<and>
     length (compressions h) < 256 \<and> length (concat (map extension (extensions h))) < 65536 \<and>
     list_all (\<lambda>e. length (snd e) < 65536) (extensions h) \<and> length (hello_body h) < 16777216)"

section \<open>Reading back what was written\<close>

lemma from_be16_of [wire_simps]: "n < 65536 \<Longrightarrow> unat (from_be16 (be16_of n ! 0) (be16_of n ! Suc 0)) = n"
  using from_be16_to_be16 [of "word_of_nat n :: u16"] by (simp add: be16_of_def to_be16_def)

lemma be16_of_list: "be16_of n = [be16_of n ! 0, be16_of n ! 1]"
  by (simp add: be16_of_def to_be16_def)

lemma length_be16_of [simp]: "length (be16_of n) = 2"
  by (simp add: be16_of_def)

lemma get_at_skip: "get_at (length a + k) (a @ b) = get_at k b"
  by (simp add: get_at_def)

lemma get_range_skip: "get_range (length a + k) (length a + l) (a @ b) = get_range k l b"
  by (simp add: get_range_def)

lemma get_range_at: "k = length a \<Longrightarrow> get_range k (k + length b) (a @ b @ c) = Some b"
  by (simp add: get_range_def)

lemma get_range_head: "get_range 0 (length a) (a @ b) = Some a"
  by (simp add: get_range_def)

text \<open>An extension whose type is not zero is skipped; a \<open>server_name\<close> is read.\<close>

lemma scan_skip:
  assumes "length (snd e) < 65536"
  shows "scan_extensions (pre @ extension e @ post) (length pre) =
    (if fst e = 0 then server_name (snd e) else scan_extensions (pre @ extension e @ post) (length (pre @ extension e)))"
proof -
  obtain t b where e: "e = (t, b)" by (cases e)
  let ?x = "pre @ extension e @ post"
  have ex: "extension e = [to_be16 t ! 0, to_be16 t ! 1, be16_of (length b) ! 0, be16_of (length b) ! 1] @ b"
    by (simp add: extension_def e vec16_def to_be16_def be16_of_def)
  have n: "?x ! length pre = to_be16 t ! 0" "?x ! (length pre + 1) = to_be16 t ! 1"
    "?x ! (length pre + 2) = be16_of (length b) ! 0" "?x ! (length pre + 3) = be16_of (length b) ! 1"
    by (simp_all add: ex nth_append)
  have tt: "from_be16 (to_be16 t ! 0) (to_be16 t ! 1) = t" by (simp add: to_be16_def from_be16_to_be16)
  have ln: "unat (from_be16 (be16_of (length b) ! 0) (be16_of (length b) ! 1)) = length b"
    using assms e by (simp add: from_be16_of)
  have rg: "get_range (length pre + 4) (length pre + 4 + length b) ?x = Some b"
    using get_range_at [of "length pre + 4" "pre @ take 4 (extension e)" b post] by (simp add: ex)
  have le: "length pre + 4 \<le> length ?x" by (simp add: ex)
  have len: "length (pre @ extension e) = length pre + 4 + length b" by (simp add: ex)
  show ?thesis
    unfolding len by (subst scan_extensions.simps, simp only: le n tt ln rg Let_def option.case if_True, simp add: e)
qed

lemma scan_list:
  "list_all (\<lambda>e. fst e \<noteq> 0 \<and> length (snd e) < 65536) es \<Longrightarrow>
     scan_extensions (pre @ concat (map extension es) @ post) (length pre) =
     scan_extensions (pre @ concat (map extension es) @ post) (length (pre @ concat (map extension es)))"
proof (induction es arbitrary: pre)
  case (Cons e es)
  have "scan_extensions (pre @ extension e @ (concat (map extension es) @ post)) (length pre) =
    scan_extensions ((pre @ extension e) @ concat (map extension es) @ post) (length (pre @ extension e))"
    using scan_skip [of e pre "concat (map extension es) @ post"] Cons.prems by simp
  also have "\<dots> = scan_extensions ((pre @ extension e) @ concat (map extension es) @ post)
      (length ((pre @ extension e) @ concat (map extension es)))"
    using Cons.prems by (intro Cons.IH) simp
  finally show ?case by simp
qed simp

lemma server_name_read:
  assumes "utf8_valid name" "name \<noteq> []" "length name < 65536"
  shows "server_name (snd (server_name_ext name)) = Some name"
proof -
  let ?l = "be16_of (length (bytes_of name))"
  let ?p = "[be16_of (length (0 # vec16 (bytes_of name))) ! 0, be16_of (length (0 # vec16 (bytes_of name))) ! 1,
    0, ?l ! 0, ?l ! 1]"
  have e: "snd (server_name_ext name) = ?p @ bytes_of name"
    unfolding server_name_ext_def snd_conv vec16_def
    by (subst (2) be16_of_list, subst be16_of_list) simp
  have g: "get_at 2 (?p @ bytes_of name) = Some 0" "get_at 3 (?p @ bytes_of name) = Some (?l ! 0)"
    "get_at 4 (?p @ bytes_of name) = Some (?l ! 1)"
    "get_range 5 (5 + length name) (?p @ bytes_of name) = Some (bytes_of name)"
    by (simp_all add: get_at_def get_range_def)
  have n: "unat (from_be16 (?l ! 0) (?l ! 1)) = length name"
    using from_be16_of [of "length name"] assms(3) by simp
  have ne: "bytes_of name \<noteq> []" using assms(2) by (metis length_0_conv length_bytes_of)
  show ?thesis
    unfolding e server_name_def g n Option.bind.bind_lunit by (simp add: assms(1) ne)
qed

text \<open>The fixed prefix of the hello is skipped by its own lengths.\<close>

lemma extension_block_read:
  assumes "wf_hello h"
  shows "extension_block (hello_body h) = Some (concat (map extension (extensions h)))"
proof -
  define F S C M E where d: "F = fixed_part h" "S = session_id h" "C = cipher_suites h" "M = compressions h"
    "E = concat (map extension (extensions h))"
  have l: "length F = 34" "length S < 256" "length C < 65536" "length M < 256" "length E < 65536"
    using assms by (auto simp: wf_hello_def d)
  let ?b = "F @ (word_of_nat (length S) # S) @ ([be16_of (length C) ! 0, be16_of (length C) ! 1] @ C) @
    (word_of_nat (length M) # M) @ ([be16_of (length E) ! 0, be16_of (length E) ! 1] @ E)"
  have b: "hello_body h = ?b"
    unfolding hello_body_def vec8_def vec16_def d [symmetric]
    by (subst be16_of_list [of "length C"], subst be16_of_list [of "length E"]) simp
  let ?i1 = "34 + (1 + length S)"
  let ?i2 = "?i1 + (2 + length C)"
  let ?i3 = "?i2 + (1 + length M)"
  have g: "get_at 34 ?b = Some (word_of_nat (length S))"
    "get_at ?i1 ?b = Some (be16_of (length C) ! 0)" "get_at (?i1 + 1) ?b = Some (be16_of (length C) ! 1)"
    "get_at ?i2 ?b = Some (word_of_nat (length M))"
    "get_at ?i3 ?b = Some (be16_of (length E) ! 0)" "get_at (?i3 + 1) ?b = Some (be16_of (length E) ! 1)"
    by (simp_all add: get_at_def nth_append l(1) nth_Cons')
  have ge: "get_range (?i3 + 2) (?i3 + 2 + length E) ?b = Some E"
    using get_range_at [of "?i3 + 2" "F @ (word_of_nat (length S) # S) @ ([be16_of (length C) ! 0, be16_of (length C) ! 1] @ C) @
      (word_of_nat (length M) # M) @ [be16_of (length E) ! 0, be16_of (length E) ! 1]" E "[]"] l(1) by simp
  have u: "unat (word_of_nat (length S) :: u8) = length S" "unat (word_of_nat (length M) :: u8) = length M"
    "unat (from_be16 (be16_of (length C) ! 0) (be16_of (length C) ! 1)) = length C"
    "unat (from_be16 (be16_of (length E) ! 0) (be16_of (length E) ! 1)) = length E"
    using l from_be16_of [of "length C"] from_be16_of [of "length E"] by simp_all
  show ?thesis
    unfolding b extension_block_def Let_def g u ge Option.bind.bind_lunit d(5) [symmetric] ..
qed

lemma be24_value:
  assumes "n < 16777216"
  shows "unat (be24_of n ! 0) * 65536 + unat (be24_of n ! 1) * 256 + unat (be24_of n ! 2) = n"
proof -
  have "n div 65536 < 256" using assms by (simp add: div_less_iff_less_mult)
  then have "unat (word_of_nat (n div 65536) :: u8) = n div 65536" by (rule unat_word_of_nat_u8)
  moreover have "n = n div 65536 * 65536 + n div 256 mod 256 * 256 + n mod 256"
  proof -
    have "n div 256 = n div 65536 * 256 + n div 256 mod 256"
      using div_mult_mod_eq [of "n div 256" 256] by (simp add: div_mult2_eq [symmetric])
    moreover have "n = n div 256 * 256 + n mod 256" by simp
    ultimately show ?thesis by linarith
  qed
  ultimately show ?thesis by (simp add: be24_of_def)
qed

lemma sni_of_hello:
  assumes "wf_hello h"
  shows "sni_from_client_hello (hello_record h @ rest) = scan_extensions (concat (map extension (extensions h))) 0"
proof -
  let ?n = "length (hello_body h)" and ?m = "1 # be24_of (length (hello_body h)) @ hello_body h"
  let ?r = "[0x16, 0x03, 0x01, be16_of (length ?m) ! 0, be16_of (length ?m) ! 1] @
    [1, be24_of ?n ! 0, be24_of ?n ! 1, be24_of ?n ! 2] @ hello_body h @ rest"
  have r: "hello_record h @ rest = ?r"
    unfolding hello_record_def Let_def vec16_def
    by (subst be16_of_list) (simp add: be24_of_def)
  have g: "get_from 5 ?r = Some ([1, be24_of ?n ! 0, be24_of ?n ! 1, be24_of ?n ! 2] @ hello_body h @ rest)"
    by (simp add: get_from_def)
  have v: "unat (be24_of ?n ! 0) * 65536 + unat (be24_of ?n ! 1) * 256 + unat (be24_of ?n ! 2) = ?n"
    using assms by (intro be24_value) (simp add: wf_hello_def)
  let ?b = "[1, be24_of ?n ! 0, be24_of ?n ! 1, be24_of ?n ! 2] @ hello_body h @ rest"
  have g2: "get_at 0 ?b = Some 1" "get_at 1 ?b = Some (be24_of ?n ! 0)" "get_at 2 ?b = Some (be24_of ?n ! 1)"
    "get_at 3 ?b = Some (be24_of ?n ! 2)" "get_range 4 (4 + ?n) ?b = Some (hello_body h)"
    by (simp_all add: get_at_def get_range_def)
  have c: "\<not> (length ?r < 5 \<or> ?r ! 0 \<noteq> 0x16 \<or> ?r ! 1 \<noteq> 0x03)" by simp
  show ?thesis
    unfolding r sni_from_client_hello_def if_not_P [OF c] g Option.bind.bind_lunit g2 v
      extension_block_read [OF assms] by simp
qed

section \<open>Properties\<close>

text \<open>C22. The SNI that is dialled is the name the client wrote: from any well-formed \<open>ClientHello\<close>
  (any prefix fields, any other extensions before and after, more bytes following), the reader
  returns exactly the host name of the \<open>server_name\<close> extension, and nothing when there is none.\<close>

theorem sni_roundtrip:
  assumes "wf_hello h" "extensions h = es1 @ es2" "list_all (\<lambda>e. fst e \<noteq> 0) es1"
    and "es2 = server_name_ext name # es3 \<or> es2 = []" "utf8_valid name" "name \<noteq> []" "length name < 65536"
  shows "sni_from_client_hello (hello_record h @ rest) = (if es2 = [] then None else Some name)"
proof -
  let ?E = "concat (map extension es1)"
  have e1: "list_all (\<lambda>e. fst e \<noteq> 0 \<and> length (snd e) < 65536) es1" and e2: "list_all (\<lambda>e. length (snd e) < 65536) es2"
    using assms(1,2,3) by (auto simp: wf_hello_def list_all_iff)
  have s: "scan_extensions (?E @ concat (map extension es2)) 0 = scan_extensions (?E @ concat (map extension es2)) (length ?E)"
    using scan_list [OF e1, of "[]" "concat (map extension es2)"] by simp
  show ?thesis
  proof (cases "es2 = []")
    case True
    then have "scan_extensions (?E @ concat (map extension es2)) (length ?E) = None"
      by (simp add: scan_extensions.simps)
    then show ?thesis using sni_of_hello [OF assms(1)] assms(2) s True by simp
  next
    case False
    then have es2: "es2 = server_name_ext name # es3" using assms(4) by blast
    have "scan_extensions (?E @ extension (server_name_ext name) @ concat (map extension es3)) (length ?E) = Some name"
      using scan_skip [of "server_name_ext name" ?E] e2 es2 server_name_read [OF assms(5-7)]
      by (simp add: server_name_ext_def)
    then show ?thesis using sni_of_hello [OF assms(1)] assms(2) s es2 by simp
  qed
qed

lemma peek_loop_segments:
  assumes "record ! 0 = 0x16" "record ! 1 = 0x03" "5 \<le> length record" "length record \<le> client_hello_max"
    and "5 + unat (from_be16 (record ! 3) (record ! 4)) = length record"
    and "\<forall>k\<in>set ks. 0 < k \<and> k < length record" "want = 5 \<or> want = length record"
  shows "peek_sni_loop want (map (\<lambda>k. Peeked (take k record)) ks @ Peeked record # ps) = sni_from_client_hello record"
  using assms(6,7)
proof (induction ks arbitrary: want)
  case Nil
  then show ?case using assms(1-5) by (auto simp: Let_def)
next
  case (Cons k ks)
  then have k: "0 < k" "k < length record" by auto
  have ne: "record \<noteq> []" using k by auto
  have t: "take client_hello_max (take k record) = take k record" "length (take k record) = k" "k \<noteq> 0"
    using k assms(4) by auto
  show ?case
  proof (cases "5 \<le> k")
    case True
    then show ?thesis using Cons assms k t ne by (simp add: Let_def)
  next
    case False
    then have "\<not> want \<le> k" using Cons.prems(2) assms(3) by auto
    then show ?thesis using Cons assms k t ne False by (simp add: Let_def)
  qed
qed

text \<open>The steered tunnel finds the SNI however the \<open>ClientHello\<close> arrives: for a hello record within
  the peek bound, any sequence of partial peeks followed by one that sees the whole record gives
  exactly what the reader gives on the record.\<close>

theorem peek_client_sni_segments:
  assumes "wf_hello h" "length (hello_record h) \<le> client_hello_max"
    and "\<forall>k\<in>set ks. 0 < k \<and> k < length (hello_record h)"
  shows "peek_client_sni (map (\<lambda>k. Peeked (take k (hello_record h))) ks @ Peeked (hello_record h) # ps) =
    scan_extensions (concat (map extension (extensions h))) 0"
proof -
  let ?m = "1 # be24_of (length (hello_body h)) @ hello_body h"
  have r: "hello_record h = [0x16, 0x03, 0x01, be16_of (length ?m) ! 0, be16_of (length ?m) ! Suc 0] @ ?m"
    unfolding hello_record_def Let_def vec16_def by (subst be16_of_list) simp
  have l: "length (hello_record h) = 5 + length ?m" by (simp add: r)
  then have "unat (from_be16 (be16_of (length ?m) ! 0) (be16_of (length ?m) ! Suc 0)) = length ?m"
    using assms(2) by (intro from_be16_of) (simp add: client_hello_max_def)
  then have "5 + unat (from_be16 (hello_record h ! 3) (hello_record h ! 4)) = length (hello_record h)"
    unfolding l by (simp add: r)
  then show ?thesis
    unfolding peek_client_sni_def
    using peek_loop_segments [of "hello_record h" ks 5 ps] assms(2,3) l sni_of_hello [OF assms(1), of "[]"]
    by (simp add: r)
qed

section \<open>Witnesses\<close>

definition sample_hello :: hello where
  "sample_hello = \<lparr>fixed_part = replicate 34 7, session_id = [1, 2], cipher_suites = [0x13, 1], compressions = [0],
     extensions = [(23, []), server_name_ext ''github.com'', (43, [2, 3, 4])]\<rparr>"

lemma sample_hello_wf: "wf_hello sample_hello" "length (hello_record sample_hello) = 84"
  by code_simp+

lemma sni_roundtrip_witness:
  "sni_from_client_hello (hello_record sample_hello) = Some ''github.com''"
proof -
  have v: "utf8_valid ''github.com''" "length ''github.com'' < 65536" by code_simp+
  show ?thesis
    using sni_roundtrip [OF sample_hello_wf(1), of "[(23, [])]" "[server_name_ext ''github.com'', (43, [2, 3, 4])]"
        "''github.com''" "[(43, [2, 3, 4])]" "[]"] v
    by (simp add: sample_hello_def)
qed

lemma peek_client_sni_witness:
  "peek_client_sni [Peeked (take 3 (hello_record sample_hello)), Peeked (take 40 (hello_record sample_hello)),
     Peeked (hello_record sample_hello)] = Some ''github.com''"
proof -
  have s: "scan_extensions (concat (map extension (extensions sample_hello))) 0 = Some ''github.com''"
    by code_simp
  show ?thesis
    using peek_client_sni_segments [OF sample_hello_wf(1), of "[3, 40]" "[]"] s
    by (simp add: sample_hello_wf client_hello_max_def)
qed

end
