(* ===== verification/DnsWire.thy ===== *)
theory DnsWire
  imports Model
begin

text \<open>
  The wire side of \<open>crates/core/src/dns.rs\<close>: record types, building a query packet, reading the
  answers of a DNS response and of a DoH JSON body, and the URL encoding of a host name. The
  packets of the DNS hook (theory DnsHook) are read by the same parser.
\<close>

section \<open>Record types\<close>

datatype qtype = TypeA | TypeAaaa

fun qcode :: "qtype \<Rightarrow> u16" where
  "qcode TypeA = 1"
| "qcode TypeAaaa = 28"

fun url_name :: "qtype \<Rightarrow> string" where
  "url_name TypeA = ''A''"
| "url_name TypeAaaa = ''AAAA''"

definition family_matches :: "ipaddr \<Rightarrow> qtype \<Rightarrow> bool" where
  "family_matches ip q = (case q of
     TypeA \<Rightarrow> (case ip of V4 _ \<Rightarrow> True | _ \<Rightarrow> False)
   | TypeAaaa \<Rightarrow> (case ip of V6 _ \<Rightarrow> True | _ \<Rightarrow> False))"

section \<open>Queries\<close>

text \<open>The buffer has \<open>n\<close> bytes; \<open>out\<close> is what has been written. The label bytes and the root label
  are bounds checked, the last four bytes are not: without room for them the index panics.\<close>

datatype built = Built bytes | TooLarge | Panicked

definition put_label :: "nat \<Rightarrow> string \<Rightarrow> bytes \<Rightarrow> bytes option" where
  "put_label n label out =
     (if n \<le> length out then None
      else if n < length out + 1 + length label then None
      else Some (out @ word_of_nat (length label) # bytes_of label))"

fun put_labels :: "nat \<Rightarrow> string list \<Rightarrow> bytes \<Rightarrow> bytes option" where
  "put_labels n [] out = Some out"
| "put_labels n (l # ls) out = (case put_label n l out of None \<Rightarrow> None | Some out' \<Rightarrow> put_labels n ls out')"

definition query_header :: "u16 \<Rightarrow> bytes" where
  "query_header i = to_be16 i @ [1, 0, 0, 1, 0, 0, 0, 0, 0, 0]"

definition build_a_query_with_id :: "string \<Rightarrow> u16 \<Rightarrow> qtype \<Rightarrow> nat \<Rightarrow> built" where
  "build_a_query_with_id host i q n =
     (if n < 12 then Panicked
      else (case put_labels n (split_on CHR ''.'' host) (query_header i) of
         None \<Rightarrow> TooLarge
       | Some w \<Rightarrow>
           if n \<le> length w then TooLarge
           else if n < length w + 5 then Panicked
           else Built (w @ [0] @ to_be16 (qcode q) @ [0, 1])))"

section \<open>Responses\<close>

datatype dns_error = ShortPacket | DnsTimeout | DnsIo | QueryTooLarge

function skip_labels :: "bytes \<Rightarrow> nat \<Rightarrow> nat" where
  "skip_labels buf i =
     (if i < length buf \<and> buf ! i \<noteq> 0 then skip_labels buf (i + (1 + unat (buf ! i))) else i)"
  by pat_completeness auto
termination
  by (relation "measure (\<lambda>(buf, i). length buf - i)") auto

declare skip_labels.simps [simp del]

definition u32_max :: u32 where "u32_max = - 1"

definition skip_owner :: "bytes \<Rightarrow> nat \<Rightarrow> nat" where
  "skip_owner buf i = (if and (buf ! i) 0xC0 = 0xC0 then i + 2 else skip_labels buf i + 1)"

fun parse_answers :: "nat \<Rightarrow> bytes \<Rightarrow> qtype \<Rightarrow> nat \<Rightarrow> ipaddr list \<Rightarrow> u32 \<Rightarrow> ipaddr list \<times> u32" where
  "parse_answers 0 buf q i out min_ttl = (out, min_ttl)"
| "parse_answers (Suc n) buf q i out min_ttl =
     (if length buf \<le> i then (out, min_ttl)
      else (let i = skip_owner buf i in
        if length buf < i + 10 then (out, min_ttl)
        else (let rtype = from_be16 (buf ! i) (buf ! (i + 1));
                  ttl = from_be32 (buf ! (i + 4)) (buf ! (i + 5)) (buf ! (i + 6)) (buf ! (i + 7));
                  rdlen = unat (from_be16 (buf ! (i + 8)) (buf ! (i + 9)));
                  i = i + 10 in
          if rtype = qcode q then
            parse_answers n buf q (i + rdlen)
              (if q = TypeA \<and> rdlen = 4 \<and> i + 4 \<le> length buf then out @ [V4 (take 4 (drop i buf))]
               else if q = TypeAaaa \<and> rdlen = 16 \<and> i + 16 \<le> length buf then out @ [V6 (take 16 (drop i buf))]
               else out)
              (min min_ttl ttl)
          else parse_answers n buf q (i + rdlen) out min_ttl)))"

definition parse_a_response :: "bytes \<Rightarrow> qtype \<Rightarrow> dns_error + (ipaddr list \<times> u32)" where
  "parse_a_response buf q =
     (if length buf < 12 then Inl ShortPacket
      else (let ancount = unat (from_be16 (buf ! 6) (buf ! 7));
                i = skip_labels buf 12 + 5;
                (out, min_ttl) = parse_answers ancount buf q i [] u32_max in
        Inr (out, if min_ttl = u32_max then 0 else min_ttl)))"

section \<open>DNS over HTTPS\<close>

definition json_get :: "string \<Rightarrow> json \<Rightarrow> json option" where
  "json_get k v = (case v of JObject kvs \<Rightarrow> map_of kvs k | _ \<Rightarrow> None)"

definition as_u64 :: "json \<Rightarrow> nat option" where
  "as_u64 v = (case v of JNumber s \<Rightarrow>
       if s \<noteq> [] \<and> list_all is_digit s then parse_uint u64_max s else None | _ \<Rightarrow> None)"

definition as_i64 :: "json \<Rightarrow> int option" where
  "as_i64 v = (case v of
     JNumber (c # s) \<Rightarrow>
       if c = CHR ''-'' then (if s \<noteq> [] \<and> list_all is_digit s
         then map_option (\<lambda>n. - int n) (parse_uint 9223372036854775808 s) else None)
       else if list_all is_digit (c # s) then map_option int (parse_uint 9223372036854775807 (c # s)) else None
   | _ \<Rightarrow> None)"

fun as_str :: "json \<Rightarrow> string option" where
  "as_str (JString s) = Some s"
| "as_str _ = None"

fun as_array :: "json \<Rightarrow> json list option" where
  "as_array (JArray vs) = Some vs"
| "as_array _ = None"

definition doh_entry :: "qtype \<Rightarrow> json \<Rightarrow> ipaddr list \<times> u32 \<Rightarrow> ipaddr list \<times> u32" where
  "doh_entry q a acc = (case acc of (ips, min_ttl) \<Rightarrow>
     if Option.bind (json_get ''type'' a) as_i64 \<noteq> Some (uint (qcode q)) then acc
     else ((case Option.bind (Option.bind (json_get ''data'' a) as_str) parse_ip of
              Some ip \<Rightarrow> ips @ [ip] | None \<Rightarrow> ips),
           (case Option.bind (json_get ''TTL'' a) as_u64 of
              Some ttl \<Rightarrow> min min_ttl (if ttl \<le> unat u32_max then word_of_nat ttl else u32_max)
            | None \<Rightarrow> min_ttl)))"

definition parse_doh_answer :: "json \<Rightarrow> qtype \<Rightarrow> ipaddr list \<times> u32" where
  "parse_doh_answer v q = (case Option.bind (json_get ''Answer'' v) as_array of
     None \<Rightarrow> ([], 0)
   | Some answers \<Rightarrow> (case fold (doh_entry q) answers ([], u32_max) of
       (ips, min_ttl) \<Rightarrow> (ips, if min_ttl = u32_max then 0 else min_ttl)))"

definition url_safe :: "char \<Rightarrow> bool" where
  "url_safe c = (let n = code_of c in (65 \<le> n \<and> n \<le> 90) \<or> (97 \<le> n \<and> n \<le> 122) \<or> (48 \<le> n \<and> n \<le> 57) \<or>
     c = CHR ''-'' \<or> c = CHR ''.'' \<or> c = CHR ''_'' \<or> c = CHR ''~'')"

definition upper_hex :: "nat \<Rightarrow> char" where
  "upper_hex n = (if n < 10 then char_of (48 + n) else char_of (55 + n))"

definition urlencoding :: "string \<Rightarrow> string" where
  "urlencoding s = concat (map (\<lambda>c. if url_safe c then [c]
     else [CHR ''%'', upper_hex (code_of c div 16), upper_hex (code_of c mod 16)]) s)"

section \<open>Reading what a server wrote\<close>

text \<open>The packets the parser is checked against: names as label lists, records with a compressed or
  a written-out owner name.\<close>

definition wf_label :: "string \<Rightarrow> bool" where
  "wf_label l = (l \<noteq> [] \<and> length l < 64)"

definition name_wire :: "string list \<Rightarrow> bytes" where
  "name_wire ls = concat (map (\<lambda>l. word_of_nat (length l) # bytes_of l) ls) @ [0]"

datatype owner = Pointer u8 | Written "string list"

record rr =
  rr_owner :: owner
  rr_type :: u16
  rr_class :: u16
  rr_ttl :: u32
  rr_data :: bytes

fun owner_wire :: "owner \<Rightarrow> bytes" where
  "owner_wire (Pointer p) = [0xC0, p]"
| "owner_wire (Written ls) = name_wire ls"

definition rr_wire :: "rr \<Rightarrow> bytes" where
  "rr_wire r = owner_wire (rr_owner r) @ to_be16 (rr_type r) @ to_be16 (rr_class r) @ to_be32 (rr_ttl r) @
     to_be16 (word_of_nat (length (rr_data r))) @ rr_data r"

definition wf_rr :: "rr \<Rightarrow> bool" where
  "wf_rr r = (length (rr_data r) < 65536 \<and> (case rr_owner r of Pointer _ \<Rightarrow> True | Written ls \<Rightarrow> list_all wf_label ls))"

text \<open>What an A or AAAA query should get from the records.\<close>

definition rr_addr :: "qtype \<Rightarrow> rr \<Rightarrow> ipaddr list" where
  "rr_addr q r = (if rr_type r \<noteq> qcode q then []
     else if q = TypeA \<and> length (rr_data r) = 4 then [V4 (rr_data r)]
     else if q = TypeAaaa \<and> length (rr_data r) = 16 then [V6 (rr_data r)] else [])"

definition rr_ttls :: "qtype \<Rightarrow> rr list \<Rightarrow> u32 list" where
  "rr_ttls q rs = map rr_ttl (filter (\<lambda>r. rr_type r = qcode q) rs)"

section \<open>Facts on the parser\<close>

lemma skip_labels_name:
  assumes "list_all wf_label ls"
  shows "skip_labels (pre @ name_wire ls @ post) (length pre) = length pre + length (name_wire ls) - 1"
  using assms
proof (induction ls arbitrary: pre)
  case Nil
  then show ?case by (simp add: name_wire_def skip_labels.simps)
next
  case (Cons l ls)
  let ?b = "pre @ name_wire (l # ls) @ post"
  have nw: "name_wire (l # ls) = (word_of_nat (length l) # bytes_of l) @ name_wire ls" by (simp add: name_wire_def)
  have l: "0 < length l" "length l < 256" using Cons.prems by (auto simp: wf_label_def)
  have u: "unat (word_of_nat (length l) :: u8) = length l" using l by simp
  then have nz: "(word_of_nat (length l) :: u8) \<noteq> 0" using l(1) by (metis unsigned_0 less_irrefl)
  have "skip_labels ?b (length pre) = skip_labels ?b (length pre + (1 + length l))"
    using nz u by (subst skip_labels.simps) (simp add: nw nth_append)
  also have "\<dots> = skip_labels ((pre @ word_of_nat (length l) # bytes_of l) @ name_wire ls @ post)
      (length (pre @ word_of_nat (length l) # bytes_of l))"
    by (simp add: nw)
  also have "\<dots> = length (pre @ word_of_nat (length l) # bytes_of l) + length (name_wire ls) - 1"
    using Cons.prems by (intro Cons.IH) simp
  finally show ?case by (simp add: nw name_wire_def)
qed

lemma label_byte_small:
  assumes "n < 64"
  shows "and (word_of_nat n :: u8) 0xC0 \<noteq> 0xC0"
proof -
  have "\<forall>k\<in>set [0..<64]. and (word_of_nat k :: u8) 0xC0 \<noteq> 0xC0" by code_simp
  then show ?thesis using assms by simp
qed

lemma name_wire_nonempty [simp]: "name_wire ls \<noteq> []"
  by (simp add: name_wire_def)

lemma skip_owner_wire:
  assumes "case ow of Pointer _ \<Rightarrow> True | Written ls \<Rightarrow> list_all wf_label ls"
  shows "skip_owner (pre @ owner_wire ow @ post) (length pre) = length pre + length (owner_wire ow)"
proof (cases ow)
  case (Pointer p)
  then show ?thesis by (simp add: skip_owner_def nth_append)
next
  case (Written ls)
  have "and (hd (name_wire ls)) 0xC0 \<noteq> 0xC0"
  proof (cases ls)
    case Nil
    then show ?thesis by (simp add: name_wire_def)
  next
    case (Cons l ls')
    then have "length l < 64" using assms Written by (simp add: wf_label_def)
    then show ?thesis using Cons label_byte_small by (simp add: name_wire_def)
  qed
  then have "and ((pre @ name_wire ls @ post) ! length pre) 0xC0 \<noteq> 0xC0"
    by (cases "name_wire ls") (simp_all add: nth_append)
  moreover have "0 < length (name_wire ls)" by simp
  ultimately show ?thesis
    using assms Written skip_labels_name [of ls pre post] by (simp add: skip_owner_def)
qed

lemma parse_answers_step:
  assumes "i < length buf" "skip_owner buf i = j" "j + 10 \<le> length buf"
    and "from_be16 (buf ! j) (buf ! (j + 1)) = ty"
    and "from_be32 (buf ! (j + 4)) (buf ! (j + 5)) (buf ! (j + 6)) (buf ! (j + 7)) = ttl"
    and "unat (from_be16 (buf ! (j + 8)) (buf ! (j + 9))) = l"
  shows "parse_answers (Suc n) buf q i out m =
    parse_answers n buf q (j + 10 + l)
      (if ty = qcode q \<and> q = TypeA \<and> l = 4 \<and> j + 14 \<le> length buf then out @ [V4 (take 4 (drop (j + 10) buf))]
       else if ty = qcode q \<and> q = TypeAaaa \<and> l = 16 \<and> j + 26 \<le> length buf
       then out @ [V6 (take 16 (drop (j + 10) buf))] else out)
      (if ty = qcode q then min m ttl else m)"
  using assms unfolding parse_answers.simps(2) Let_def by (simp add: add.commute add.left_commute)

lemma rr_parse:
  assumes "wf_rr r"
  shows "parse_answers (Suc n) (pre @ rr_wire r @ post) q (length pre) out m =
    parse_answers n (pre @ rr_wire r @ post) q (length (pre @ rr_wire r)) (out @ rr_addr q r)
      (if rr_type r = qcode q then min m (rr_ttl r) else m)"
proof -
  define B where "B = pre @ rr_wire r @ post"
  let ?o = "owner_wire (rr_owner r)" and ?d = "rr_data r"
  define a where "a = pre @ ?o"
  let ?i = "length a"
  have ld: "length ?d < 65536" using assms by (simp add: wf_rr_def)
  let ?h = "to_be16 (rr_type r) @ to_be16 (rr_class r) @ to_be32 (rr_ttl r) @ to_be16 (word_of_nat (length ?d))"
  have b: "B = a @ ?h @ ?d @ post" by (simp add: B_def rr_wire_def a_def)
  have nth: "k < 10 \<Longrightarrow> B ! (?i + k) = ?h ! k" for k
    unfolding b by (simp add: nth_append)
  have sk: "skip_owner B (length pre) = ?i"
    using assms skip_owner_wire [of "rr_owner r" pre] by (simp add: wf_rr_def rr_wire_def a_def B_def)
  have ty: "from_be16 (B ! ?i) (B ! (?i + 1)) = rr_type r"
    using nth [of 0] nth [of 1] by (simp add: to_be16_def from_be16_to_be16)
  have tt: "from_be32 (B ! (?i + 4)) (B ! (?i + 5)) (B ! (?i + 6)) (B ! (?i + 7)) = rr_ttl r"
    unfolding nth [of 4, simplified] nth [of 5, simplified] nth [of 6, simplified] nth [of 7, simplified]
    by (simp add: to_be16_def to_be32_def from_be32_to_be32)
  have rl: "unat (from_be16 (B ! (?i + 8)) (B ! (?i + 9))) = length ?d"
  proof -
    have "B ! (?i + 8) = to_be16 (word_of_nat (length ?d)) ! 0" "B ! (?i + 9) = to_be16 (word_of_nat (length ?d)) ! 1"
      unfolding nth [of 8, simplified] nth [of 9, simplified] by (simp_all add: to_be16_def to_be32_def)
    then show ?thesis using ld from_be16_to_be16 [of "word_of_nat (length ?d) :: u16"] by (simp add: to_be16_def)
  qed
  have len: "length pre < length B" "?i + 10 \<le> length B" by (simp_all add: b a_def)
  have tk: "take (length ?d) (drop (?i + 10) B) = ?d" "?i + 10 + length ?d \<le> length B" by (simp_all add: b)
  have nx: "?i + 10 + length ?d = length (pre @ rr_wire r)" by (simp add: rr_wire_def a_def)
  have o: "(if rr_type r = qcode q \<and> q = TypeA \<and> length ?d = 4 \<and> ?i + 14 \<le> length B then out @ [V4 (take 4 (drop (?i + 10) B))]
       else if rr_type r = qcode q \<and> q = TypeAaaa \<and> length ?d = 16 \<and> ?i + 26 \<le> length B
       then out @ [V6 (take 16 (drop (?i + 10) B))] else out) = out @ rr_addr q r"
    using tk by (cases q) (auto simp: rr_addr_def simp del: take_drop)
  show ?thesis
    using parse_answers_step [OF len(1) sk len(2) ty tt rl, of n q out m] unfolding o nx by (simp only: B_def)
qed

lemma rrs_parse:
  assumes "list_all wf_rr rs"
  shows "parse_answers (length rs) (pre @ concat (map rr_wire rs) @ post) q (length pre) out m =
    (out @ concat (map (rr_addr q) rs), fold min (rr_ttls q rs) m)"
  using assms
proof (induction rs arbitrary: pre out m)
  case Nil
  then show ?case by (simp add: rr_ttls_def)
next
  case (Cons r rs)
  have "parse_answers (length (r # rs)) (pre @ concat (map rr_wire (r # rs)) @ post) q (length pre) out m =
    parse_answers (length rs) ((pre @ rr_wire r) @ concat (map rr_wire rs) @ post) q (length (pre @ rr_wire r))
      (out @ rr_addr q r) (if rr_type r = qcode q then min m (rr_ttl r) else m)"
    using rr_parse [of r "length rs" pre "concat (map rr_wire rs) @ post"] Cons.prems by simp
  also have "\<dots> = ((out @ rr_addr q r) @ concat (map (rr_addr q) rs),
      fold min (rr_ttls q rs) (if rr_type r = qcode q then min m (rr_ttl r) else m))"
    using Cons.prems by (intro Cons.IH) simp
  finally show ?case by (simp add: rr_ttls_def min.commute)
qed

text \<open>A response: header with the answer count, the question, the records.\<close>

definition response_wire :: "bytes \<Rightarrow> bytes \<Rightarrow> string list \<Rightarrow> bytes \<Rightarrow> rr list \<Rightarrow> bytes \<Rightarrow> bytes" where
  "response_wire head6 tail4 qname qtail rs extra =
     head6 @ to_be16 (word_of_nat (length rs)) @ tail4 @ name_wire qname @ qtail @ concat (map rr_wire rs) @ extra"

lemma family_rr_addr: "ip \<in> set (rr_addr q r) \<Longrightarrow> family_matches ip q"
  by (cases q) (auto simp: rr_addr_def family_matches_def split: if_splits)

lemma parse_answers_stop:
  "length buf \<le> i \<or> length buf < skip_owner buf i + 10 \<Longrightarrow> parse_answers (Suc n) buf q i out m = (out, m)"
  unfolding parse_answers.simps(2) Let_def by (elim disjE) (simp_all only: if_True if_False simp_thms if_cancel)

lemma parse_answers_family:
  "parse_answers n buf q i out m = (ips, m') \<Longrightarrow> \<forall>ip\<in>set out. family_matches ip q \<and> wf_ip ip \<Longrightarrow>
     \<forall>ip\<in>set ips. family_matches ip q \<and> wf_ip ip"
proof (induction n arbitrary: i out m)
  case (Suc n)
  show ?case
  proof (cases "length buf \<le> i \<or> length buf < skip_owner buf i + 10")
    case True
    then have "parse_answers (Suc n) buf q i out m = (out, m)" by (rule parse_answers_stop)
    then have "ips = out" using Suc.prems(1) by (simp del: parse_answers.simps)
    with Suc.prems(2) show ?thesis by simp
  next
    case False
    then have i: "i < length buf" "skip_owner buf i + 10 \<le> length buf" by auto
    show ?thesis
      using Suc.prems(1) unfolding parse_answers_step [OF i(1) refl i(2) refl refl refl]
      by (rule Suc.IH) (use Suc.prems(2) in \<open>auto simp: family_matches_def wf_ip_def\<close>)
  qed
qed simp

lemma parse_a_response_members:
  assumes "parse_a_response buf q = Inr (ips, ttl)"
  shows "list_all (\<lambda>ip. family_matches ip q \<and> wf_ip ip) ips"
proof -
  obtain out m where p: "parse_answers (unat (from_be16 (buf ! 6) (buf ! 7))) buf q (skip_labels buf 12 + 5) [] u32_max = (out, m)"
    by (cases "parse_answers (unat (from_be16 (buf ! 6) (buf ! 7))) buf q (skip_labels buf 12 + 5) [] u32_max")
  then have "ips = out" using assms by (auto simp: parse_a_response_def Let_def split: if_splits)
  then show ?thesis using parse_answers_family [OF p] by (simp add: list_all_iff)
qed

text \<open>What the query builder writes when the name is proper and the buffer has room.\<close>

lemma put_labels_wire:
  "list_all wf_label ls \<Longrightarrow> length out + length (name_wire ls) \<le> n \<Longrightarrow> map_option (\<lambda>w. w @ [0]) (put_labels n ls out) = Some (out @ name_wire ls)"
proof (induction ls arbitrary: out)
  case Nil
  then show ?case by (simp add: name_wire_def)
next
  case (Cons l ls)
  have w: "name_wire (l # ls) = (word_of_nat (length l) # bytes_of l) @ name_wire ls" by (simp add: name_wire_def)
  have "0 < length (name_wire ls)" by simp
  then have "put_label n l out = Some (out @ word_of_nat (length l) # bytes_of l)"
    using Cons.prems(2) by (simp add: w put_label_def)
  then show ?case using Cons.IH [of "out @ word_of_nat (length l) # bytes_of l"] Cons.prems by (simp add: w)
qed

lemma build_query_wire:
  assumes "list_all wf_label (split_on CHR ''.'' host)" "16 + length (name_wire (split_on CHR ''.'' host)) \<le> n"
  shows "build_a_query_with_id host i q n =
    Built (query_header i @ name_wire (split_on CHR ''.'' host) @ to_be16 (qcode q) @ [0, 1])"
proof -
  let ?ls = "split_on CHR ''.'' host"
  have h: "length (query_header i) = 12" by (simp add: query_header_def)
  then obtain w where w: "put_labels n ?ls (query_header i) = Some w" "w @ [0] = query_header i @ name_wire ?ls"
    using put_labels_wire [OF assms(1), of "query_header i" n] assms(2) by auto
  have "length w + 1 = 12 + length (name_wire ?ls)" using arg_cong [OF w(2), of length] h by simp
  then show ?thesis using w assms(2) by (simp add: build_a_query_with_id_def flip: append_assoc)
qed

section \<open>Properties\<close>


text \<open>Whatever bytes a server sends, the parser yields addresses of the requested family only:
  four octets for an A query, sixteen for an AAAA query.\<close>

theorem parse_a_response_family:
  assumes "parse_a_response buf q = Inr (ips, ttl)"
  shows "\<forall>ip\<in>set ips. family_matches ip q \<and> wf_ip ip"
  using parse_a_response_members [OF assms] by (simp add: list_all_iff)

section \<open>Witnesses\<close>

definition sample_rrs :: "rr list" where
  "sample_rrs = [\<lparr>rr_owner = Pointer 12, rr_type = 5, rr_class = 1, rr_ttl = 5, rr_data = [1, 97, 0]\<rparr>,
     \<lparr>rr_owner = Written [''a''], rr_type = 1, rr_class = 1, rr_ttl = 60, rr_data = [20, 205, 243, 166]\<rparr>]"


lemma parse_a_response_family_witness:
  "\<exists>ips ttl. parse_a_response (response_wire [0, 0, 0, 0, 0, 1] [0, 0, 0, 0] [''a''] [0, 1, 0, 1] sample_rrs []) TypeAaaa = Inr (ips, ttl)
     \<and> (\<forall>ip\<in>set ips. family_matches ip TypeAaaa \<and> wf_ip ip)"
proof -
  let ?b = "response_wire [0, 0, 0, 0, 0, 1] [0, 0, 0, 0] [''a''] [0, 1, 0, 1] sample_rrs []"
  have "12 \<le> length ?b" by code_simp
  then obtain ips ttl where "parse_a_response ?b TypeAaaa = Inr (ips, ttl)"
    by (cases "parse_a_response ?b TypeAaaa") (auto simp: parse_a_response_def Let_def split: if_splits prod.splits)
  with parse_a_response_family [OF this] show ?thesis by blast
qed

section \<open>Where the code goes wrong\<close>

text \<open>An owner name written as a label followed by a compression pointer is mis-skipped: the record of
  \<open>a\<close> + pointer is lost.\<close>

lemma mixed_owner_name_lost:
  "parse_a_response ([0, 1, 0x81, 0x80, 0, 1, 0, 1, 0, 0, 0, 0, 1, 97, 0, 0, 1, 0, 1] @
     [1, 97, 0xC0, 12, 0, 1, 0, 1, 0, 0, 0, 60, 0, 4, 1, 2, 3, 4]) TypeA \<noteq> Inr ([V4 [1, 2, 3, 4]], 60)"
  by code_simp

text \<open>The last four bytes of a query are written without a bounds check.\<close>

lemma query_without_room_panics:
  "build_a_query_with_id ''a'' 1 TypeA 16 = Panicked"
  by code_simp

end
