(* ===== verification/Dns.thy ===== *)
theory Dns
  imports DnsWire "HOL-Library.AList"
begin

text \<open>
  The resolver of \<open>crates/core/src/dns.rs\<close>: the answer cache and the strategy (DoH first, the other
  DoH endpoints raced, plain DNS last). Time is in milliseconds; every operation takes the time it
  starts at and returns the time it ends at. The network is a parameter that answers depending on
  the time; \<open>trace\<close> records the queries that leave the machine, in order. A query of a task that
  is still running is stored in the cache at the time it will end, and is not visible before.
\<close>

section \<open>State and network\<close>

datatype cache_source = Udp "ipaddr option" | Doh string

type_synonym cache_key = "string \<times> cache_source \<times> qtype"
type_synonym cache_entry = "ipaddr list \<times> nat \<times> nat"

datatype query = AskDoh string string qtype | AskUdp string ipaddr qtype | AskSys string

record dns_state =
  cache :: "(cache_key \<times> cache_entry) list"
  probe :: "bool option"
  dns_id :: u16
  trace :: "query list"

text \<open>\<open>doh_get\<close> is the blocking HTTPS request with the JSON parser behind it; \<open>udp_recv\<close> is what the
  socket delivers within the deadline after the packet was sent, \<open>None\<close> for a socket error;
  \<open>registry\<close> holds the server lists of the network adapters.\<close>

record network =
  doh_get :: "string \<Rightarrow> nat \<Rightarrow> json option \<times> nat"
  udp_recv :: "ipaddr \<Rightarrow> bytes \<Rightarrow> nat \<Rightarrow> bytes list option \<times> nat"
  sys_lookup :: "string \<Rightarrow> nat \<Rightarrow> ipaddr list option \<times> nat"
  registry :: "string list"

section \<open>Constants\<close>

definition dnspod_doh2 :: string where "dnspod_doh2 = ''https://doh.pub/resolve''"
definition dnspod_doh :: string where "dnspod_doh = ''https://1.12.12.12/resolve''"
definition dns_ali_doh :: string where "dns_ali_doh = ''https://dns.alidns.com/resolve''"

definition doh_addresses :: "string list" where
  "doh_addresses = [dnspod_doh, dnspod_doh2, ''https://120.53.53.53/resolve'', dns_ali_doh,
     ''https://223.6.6.6/resolve'', ''https://223.5.5.5/resolve'', ''https://dns.google/resolve'',
     ''https://cloudflare-dns.com/resolve'', ''https://doh.360.cn/resolve'', ''https://101.6.6.6:8443/resolve'']"

definition primary_ipv6_ali :: string where "primary_ipv6_ali = ''2400:3200::1''"
definition ipv6_test_domain :: string where "ipv6_test_domain = ''ipv6.rmbgame.net''"

definition cache_ttl_cap :: nat where "cache_ttl_cap = 594000"
definition cache_max_entries :: nat where "cache_max_entries = 1024"

section \<open>The machine's own servers\<close>

definition is_server_sep :: "char \<Rightarrow> bool" where
  "is_server_sep c = (c = CHR '','' \<or> c = CHR '' '' \<or> c = CHR '';'')"

definition system_dns_servers :: "network \<Rightarrow> ipaddr list" where
  "system_dns_servers net = push_new []
     (concat (map (\<lambda>s. List.map_filter (\<lambda>part. parse_ip (trim part)) (split_pred is_server_sep s)) (registry net)))"

definition tcp_dns_servers :: "network \<Rightarrow> string \<Rightarrow> ipaddr list" where
  "tcp_dns_servers net configured =
     push_new [] (system_dns_servers net @ (case parse_ip (trim configured) of Some ip \<Rightarrow> [ip] | None \<Rightarrow> []) @
       List.map_filter parse_ip [''223.5.5.5'', ''119.29.29.29'', ''114.114.114.114''])"

section \<open>The cache\<close>

definition cache_ttl :: "u32 \<Rightarrow> nat" where
  "cache_ttl min_ttl = (if min_ttl = 0 then cache_ttl_cap else min (unat min_ttl * 1000) cache_ttl_cap)"

definition fresh :: "nat \<Rightarrow> cache_entry \<Rightarrow> bool" where
  "fresh now e = (case e of (ips, stored_at, ttl) \<Rightarrow> now - stored_at < ttl)"

definition stored :: "nat \<Rightarrow> cache_entry \<Rightarrow> bool" where
  "stored now e = (fst (snd e) \<le> now)"

definition cache_get :: "cache_key \<Rightarrow> nat \<Rightarrow> dns_state \<Rightarrow> ipaddr list option \<times> dns_state" where
  "cache_get key now s = (case map_of (cache s) key of
     Some e \<Rightarrow> if \<not> stored now e then (None, s)
       else if fresh now e then (Some (fst e), s)
       else (None, s\<lparr>cache := AList.delete key (cache s)\<rparr>)
   | None \<Rightarrow> (None, s))"

definition cache_put :: "cache_key \<Rightarrow> ipaddr list \<Rightarrow> nat \<Rightarrow> nat \<Rightarrow> dns_state \<Rightarrow> dns_state" where
  "cache_put key ips ttl now s =
     (if ips = [] then s
      else (let table = (if cache_max_entries \<le> length (cache s)
              then filter (\<lambda>(k, e). fresh now e) (cache s) else cache s) in
        s\<lparr>cache := AList.update key (ips, now, ttl) table\<rparr>))"

section \<open>Plain DNS\<close>

definition ask :: "query \<Rightarrow> dns_state \<Rightarrow> dns_state" where
  "ask q s = s\<lparr>trace := trace s @ [q]\<rparr>"

fun recv_answer :: "u16 \<Rightarrow> qtype \<Rightarrow> bytes list \<Rightarrow> dns_error + (ipaddr list \<times> u32)" where
  "recv_answer i q [] = Inl DnsTimeout"
| "recv_answer i q (d # ds) = (let buf = take 4096 d in
     if 2 \<le> length buf \<and> take 2 buf = to_be16 i then parse_a_response buf q else recv_answer i q ds)"

definition dns_query :: "network \<Rightarrow> string \<Rightarrow> ipaddr \<Rightarrow> qtype \<Rightarrow> nat \<Rightarrow> dns_state \<Rightarrow>
    (dns_error + (ipaddr list \<times> u32)) \<times> nat \<times> dns_state" where
  "dns_query net host server q t s =
     (let i = dns_id s + 1; s = s\<lparr>dns_id := i\<rparr> in
      case build_a_query_with_id host i q 4096 of
        Built packet \<Rightarrow>
          (case udp_recv net server packet t of (r, d) \<Rightarrow>
             ((case r of None \<Rightarrow> Inl DnsIo | Some ds \<Rightarrow> recv_answer i q ds), t + d, ask (AskUdp host server q) s))
      | _ \<Rightarrow> (Inl QueryTooLarge, t, s))"

definition resolve_udp_typed :: "network \<Rightarrow> string \<Rightarrow> ipaddr option \<Rightarrow> qtype \<Rightarrow> nat \<Rightarrow> dns_state \<Rightarrow>
    ipaddr list \<times> nat \<times> dns_state" where
  "resolve_udp_typed net host server q t s =
     (let key = (host, Udp server, q) in
      case cache_get key t s of
        (Some ips, s1) \<Rightarrow> (ips, t, s1)
      | (None, s1) \<Rightarrow>
          (let (ips, min_ttl, t', s2) = (case server of
               Some srv \<Rightarrow> (case dns_query net host srv q t s1 of (r, t', s2) \<Rightarrow>
                 (case r of Inr (ips, m) \<Rightarrow> (ips, m, t', s2) | Inl _ \<Rightarrow> ([], 0, t', s2)))
             | None \<Rightarrow> (case sys_lookup net host t of (r, d) \<Rightarrow>
                 ((case r of Some ips \<Rightarrow> filter (\<lambda>ip. family_matches ip q) ips | None \<Rightarrow> []), 0, t + d,
                  ask (AskSys host) s1)))
           in (ips, t', cache_put key ips (cache_ttl min_ttl) t' s2)))"

text \<open>The IPv6 probe, asked once per run.\<close>

definition is_support_ipv6 :: "network \<Rightarrow> nat \<Rightarrow> dns_state \<Rightarrow> bool \<times> nat \<times> dns_state" where
  "is_support_ipv6 net t s = (case probe s of
     Some known \<Rightarrow> (known, t, s)
   | None \<Rightarrow> (case parse_ip primary_ipv6_ali of
        None \<Rightarrow> (False, t, s\<lparr>probe := Some False\<rparr>)
      | Some server \<Rightarrow> (case dns_query net ipv6_test_domain server TypeAaaa t s of (r, t', s1) \<Rightarrow>
          let ok = (case r of Inr (ips, _) \<Rightarrow> server \<in> set ips | Inl _ \<Rightarrow> False) in
          (ok, t', s1\<lparr>probe := Some ok\<rparr>))))"

fun try_servers :: "network \<Rightarrow> string \<Rightarrow> ipaddr option \<Rightarrow> ipaddr list \<Rightarrow> qtype \<Rightarrow> nat \<Rightarrow> dns_state \<Rightarrow>
    ipaddr list option \<times> nat \<times> dns_state" where
  "try_servers net host configured [] q t s = (None, t, s)"
| "try_servers net host configured (srv # srvs) q t s =
     (if Some srv = configured then try_servers net host configured srvs q t s
      else (case resolve_udp_typed net host (Some srv) q t s of (ips, t', s') \<Rightarrow>
        if ips \<noteq> [] then (Some ips, t', s') else try_servers net host configured srvs q t' s'))"

definition plain_lookup :: "network \<Rightarrow> string \<Rightarrow> ipaddr option \<Rightarrow> qtype \<Rightarrow> nat \<Rightarrow> dns_state \<Rightarrow>
    ipaddr list option \<times> nat \<times> dns_state" where
  "plain_lookup net host configured q t s = (case configured of
     Some srv \<Rightarrow> (case resolve_udp_typed net host (Some srv) q t s of (ips, t', s') \<Rightarrow>
       if ips \<noteq> [] then (Some ips, t', s')
       else try_servers net host configured (system_dns_servers net) q t' s')
   | None \<Rightarrow> try_servers net host configured (system_dns_servers net) q t s)"

definition plain_then_system :: "network \<Rightarrow> string \<Rightarrow> ipaddr option \<Rightarrow> bool \<Rightarrow> nat \<Rightarrow> dns_state \<Rightarrow>
    ipaddr list \<times> nat \<times> dns_state" where
  "plain_then_system net host configured v6 t s =
     (let (r6, t1, s1) = (if v6 then plain_lookup net host configured TypeAaaa t s else (None, t, s));
          (r4, t2, s2) = plain_lookup net host configured TypeA t1 s1;
          ips = (case r6 of Some i \<Rightarrow> i | None \<Rightarrow> []) @ (case r4 of Some i \<Rightarrow> i | None \<Rightarrow> []) in
      if ips \<noteq> [] then (ips, t2, s2)
      else (let (i6, t3, s3) = (if v6 then resolve_udp_typed net host None TypeAaaa t2 s2 else ([], t2, s2));
                (i4, t4, s4) = resolve_udp_typed net host None TypeA t3 s3 in
        (i6 @ i4, t4, s4)))"

section \<open>DNS over HTTPS\<close>

definition doh_url :: "string \<Rightarrow> string \<Rightarrow> qtype \<Rightarrow> string" where
  "doh_url doh_address host q =
     trim_end_matches CHR ''/'' doh_address @ ''?name='' @ urlencoding host @ ''&type='' @ url_name q"

definition doh_query_once :: "network \<Rightarrow> string \<Rightarrow> string \<Rightarrow> qtype \<Rightarrow> nat \<Rightarrow> dns_state \<Rightarrow>
    ipaddr list \<times> nat \<times> dns_state" where
  "doh_query_once net host doh_address q t s =
     (let key = (host, Doh doh_address, q) in
      case cache_get key t s of
        (Some ips, s1) \<Rightarrow> (ips, t, s1)
      | (None, s1) \<Rightarrow>
          (case doh_get net (doh_url doh_address host q) t of (r, d) \<Rightarrow>
             (let (ips, min_ttl) = (case r of Some v \<Rightarrow> parse_doh_answer v q | None \<Rightarrow> ([], 0)) in
              (ips, t + d, cache_put key ips (cache_ttl min_ttl) (t + d) (ask (AskDoh host doh_address q) s1)))))"

definition resolve_doh_typed :: "network \<Rightarrow> string \<Rightarrow> string \<Rightarrow> qtype \<Rightarrow> nat \<Rightarrow> dns_state \<Rightarrow>
    ipaddr list \<times> nat \<times> dns_state" where
  "resolve_doh_typed net host doh_address q t s =
     (case doh_query_once net host doh_address q t s of (ips, t', s') \<Rightarrow>
        if ips \<noteq> [] \<or> q = TypeA then (ips, t', s') else doh_query_once net host doh_address TypeA t' s')"

text \<open>Spawned tasks all start at the same time; the list holds each answer and when it is there.\<close>

fun spawn_doh :: "network \<Rightarrow> string \<Rightarrow> string list \<Rightarrow> qtype \<Rightarrow> nat \<Rightarrow> dns_state \<Rightarrow>
    (ipaddr list \<times> nat) list \<times> dns_state" where
  "spawn_doh net host [] q t s = ([], s)"
| "spawn_doh net host (e # es) q t s =
     (case resolve_doh_typed net host e q t s of (ips, t', s') \<Rightarrow>
      (case spawn_doh net host es q t s' of (rs, s'') \<Rightarrow> ((ips, t') # rs, s'')))"

text \<open>The tasks are awaited in the order they were spawned, the whole race under one deadline.\<close>

fun await_race :: "nat \<Rightarrow> nat \<Rightarrow> (ipaddr list \<times> nat) list \<Rightarrow> ipaddr list \<times> nat" where
  "await_race deadline now [] = ([], now)"
| "await_race deadline now ((ips, t) # rs) =
     (let now = max now t in
      if deadline < now then ([], deadline)
      else if ips \<noteq> [] then (ips, now) else await_race deadline now rs)"

definition race_doh :: "network \<Rightarrow> string \<Rightarrow> string \<Rightarrow> qtype \<Rightarrow> nat \<Rightarrow> dns_state \<Rightarrow>
    ipaddr list \<times> nat \<times> dns_state" where
  "race_doh net host skip q t s =
     (case spawn_doh net host (filter (\<lambda>a. a \<noteq> skip) doh_addresses) q t s of (rs, s') \<Rightarrow>
      (case await_race (t + 5000) t rs of (ips, t') \<Rightarrow> (ips, t', s')))"

section \<open>The strategy\<close>

definition doh_or_default :: "string \<Rightarrow> string" where
  "doh_or_default doh_address = (if trim doh_address = [] then dnspod_doh2 else doh_address)"

definition resolve_a :: "network \<Rightarrow> string \<Rightarrow> string \<Rightarrow> bool \<Rightarrow> string \<Rightarrow> nat \<Rightarrow> dns_state \<Rightarrow>
    ipaddr list \<times> nat \<times> dns_state" where
  "resolve_a net host dns doh_on doh_address t s =
     (let configured = (if trim dns \<noteq> ''System Default'' then parse_ip (trim dns) else None);
          (v6, t, s) = is_support_ipv6 net t s;
          q = (if v6 then TypeAaaa else TypeA) in
      if doh_on then
        (let doh = doh_or_default doh_address; (ips, t, s) = resolve_doh_typed net host doh q t s in
         if ips \<noteq> [] then (ips, t, s)
         else (let (ips, t, s) = race_doh net host doh q t s in
           if ips \<noteq> [] then (ips, t, s) else plain_then_system net host configured v6 t s))
      else plain_then_system net host configured v6 t s)"

fun alternative_servers :: "network \<Rightarrow> string \<Rightarrow> ipaddr option \<Rightarrow> ipaddr list \<Rightarrow> qtype \<Rightarrow> nat \<Rightarrow> dns_state \<Rightarrow>
    ipaddr list \<times> nat \<times> dns_state" where
  "alternative_servers net host configured [] q t s = ([], t, s)"
| "alternative_servers net host configured (srv # srvs) q t s =
     (if Some srv = configured then alternative_servers net host configured srvs q t s
      else (case resolve_udp_typed net host (Some srv) q t s of (ips, t', s') \<Rightarrow>
        (case alternative_servers net host configured srvs q t' s' of (rest, t'', s'') \<Rightarrow> (ips @ rest, t'', s''))))"

definition resolve_alternatives :: "network \<Rightarrow> string \<Rightarrow> string \<Rightarrow> bool \<Rightarrow> string \<Rightarrow> ipaddr list \<Rightarrow> nat \<Rightarrow>
    dns_state \<Rightarrow> ipaddr list \<times> nat \<times> dns_state" where
  "resolve_alternatives net host dns doh_on doh_address exclude t s =
     (let (v6, t, s) = is_support_ipv6 net t s;
          q = (if v6 then TypeAaaa else TypeA);
          (found, t, s) =
            (if doh_on then
               (case spawn_doh net host (filter (\<lambda>e. e \<noteq> doh_or_default doh_address) [dns_ali_doh, dnspod_doh]) q t s of
                  (rs, s') \<Rightarrow> (concat (map fst rs), fold (\<lambda>(_, t') t. max t t') rs t, s'))
             else alternative_servers net host (parse_ip (trim dns)) (system_dns_servers net) q t s) in
      (push_new [] (filter (\<lambda>ip. ip \<notin> set exclude) found), t, s))"

section \<open>The cache contract\<close>

text \<open>What the lookups rely on: an answer that was put is served while it is fresh, not before it is
  there, not after it has expired, and no other key is touched as long as the table is not full.\<close>

locale ttl_cache =
  fixes get :: "'k \<Rightarrow> nat \<Rightarrow> 's \<Rightarrow> 'v option \<times> 's"
    and put :: "'k \<Rightarrow> 'v \<Rightarrow> nat \<Rightarrow> nat \<Rightarrow> 's \<Rightarrow> 's"
    and storable :: "'v \<Rightarrow> bool"
    and full :: "'s \<Rightarrow> bool"
  assumes get_put_same: "storable v \<Longrightarrow> now \<le> now' \<Longrightarrow> now' - now < ttl \<Longrightarrow>
      get k now' (put k v ttl now s) = (Some v, put k v ttl now s)"
    and get_put_late: "storable v \<Longrightarrow> now + ttl \<le> now' \<Longrightarrow> fst (get k now' (put k v ttl now s)) = None"
    and get_put_early: "storable v \<Longrightarrow> now' < now \<Longrightarrow> fst (get k now' (put k v ttl now s)) = None"
    and put_unstorable: "\<not> storable v \<Longrightarrow> put k v ttl now s = s"
    and get_put_other: "k \<noteq> k' \<Longrightarrow> \<not> full s \<Longrightarrow> fst (get k' now' (put k v ttl now s)) = fst (get k' now' s)"
    and get_hit_same: "fst (get k now s) = Some v \<Longrightarrow> snd (get k now s) = s"
begin

text \<open>Asking through the cache: a lookup that misses and stores its answer.\<close>

lemma second_lookup_hits:
  assumes "storable v" "now \<le> now'" "now' < now + ttl"
  shows "get k now' (put k v ttl now s) = (Some v, put k v ttl now s)"
  using assms by (intro get_put_same) auto

lemma served_iff:
  assumes "storable v"
  shows "fst (get k now' (put k v ttl now s)) = Some v \<longleftrightarrow> now \<le> now' \<and> now' < now + ttl"
proof (cases "now \<le> now' \<and> now' < now + ttl")
  case True
  then show ?thesis using second_lookup_hits [OF assms] by simp
next
  case False
  then show ?thesis using get_put_late [OF assms] get_put_early [OF assms] by (cases "now \<le> now'") auto
qed

end

lemma map_of_cache_put:
  "ips \<noteq> [] \<Longrightarrow> map_of (cache (cache_put k ips ttl now s)) k = Some (ips, now, ttl)"
  by (simp add: cache_put_def Let_def update_conv')

lemma map_of_cache_put_other:
  "k \<noteq> k' \<Longrightarrow> length (cache s) < cache_max_entries \<Longrightarrow>
     map_of (cache (cache_put k ips ttl now s)) k' = map_of (cache s) k'"
  by (simp add: cache_put_def Let_def update_conv')

interpretation dns_cache: ttl_cache cache_get cache_put "\<lambda>ips. ips \<noteq> []" "\<lambda>s. cache_max_entries \<le> length (cache s)"
proof unfold_locales
  show "fst (cache_get k now s) = Some v \<Longrightarrow> snd (cache_get k now s) = s" for k now s v
    by (auto simp: cache_get_def split: option.splits if_splits)
  show "\<not> v \<noteq> [] \<Longrightarrow> cache_put k v ttl now s = s" for k v ttl now s
    by (simp add: cache_put_def)
  show "k \<noteq> k' \<Longrightarrow> \<not> cache_max_entries \<le> length (cache s) \<Longrightarrow>
    fst (cache_get k' now' (cache_put k v ttl now s)) = fst (cache_get k' now' s)" for k k' s now' v ttl now
    by (simp add: cache_get_def map_of_cache_put_other split: option.split)
qed (simp_all add: cache_get_def map_of_cache_put map_of_cache_put_other fresh_def stored_def)

section \<open>Invariants of the resolver\<close>

text \<open>Every operation changes the state by these steps only. What the steps keep, the whole resolver
  keeps: the lemmas below are proved once, for any predicate the steps preserve. \<open>plain\<close> and
  \<open>secure\<close> say for which hosts a plain and a DoH query may leave.\<close>

definition storable_for :: "cache_key \<Rightarrow> ipaddr list \<Rightarrow> nat \<Rightarrow> bool" where
  "storable_for k ips ttl = (0 < ttl \<and> ttl \<le> cache_ttl_cap \<and>
     (case fst (snd k) of Udp _ \<Rightarrow> list_all (\<lambda>ip. family_matches ip (snd (snd k))) ips | Doh _ \<Rightarrow> True))"

lemma cache_ttl_bounds: "0 < cache_ttl m" "cache_ttl m \<le> cache_ttl_cap"
  by (simp_all add: cache_ttl_def cache_ttl_cap_def unat_gt_0)

lemma recv_answer_family:
  "recv_answer i q ds = Inr (ips, m) \<Longrightarrow> list_all (\<lambda>ip. family_matches ip q) ips"
proof (induction ds)
  case (Cons d ds)
  then show ?case
    using parse_a_response_members [of "take 4096 d" q ips m]
    by (auto simp: Let_def list_all_iff split: if_splits)
qed simp

lemma dns_query_family:
  "dns_query net h srv q t s = (Inr (ips, m), t', s') \<Longrightarrow> list_all (\<lambda>ip. family_matches ip q) ips"
  by (auto simp: dns_query_def Let_def recv_answer_family split: built.splits prod.splits option.splits)

locale resolver_invariant =
  fixes I :: "dns_state \<Rightarrow> bool"
    and plain :: "string \<Rightarrow> bool"
    and secure :: "string \<Rightarrow> bool"
  assumes keeps_udp: "plain h \<Longrightarrow> I s \<Longrightarrow> I (ask (AskUdp h srv q) s)"
    and keeps_sys: "plain h \<Longrightarrow> I s \<Longrightarrow> I (ask (AskSys h) s)"
    and keeps_doh: "secure h \<Longrightarrow> I s \<Longrightarrow> I (ask (AskDoh h e q) s)"
    and keeps_id: "I s \<Longrightarrow> I (s\<lparr>dns_id := i\<rparr>)"
    and keeps_probe: "I s \<Longrightarrow> I (s\<lparr>probe := p\<rparr>)"
    and keeps_get: "I s \<Longrightarrow> I (snd (cache_get k now s))"
    and keeps_put: "I s \<Longrightarrow> storable_for k ips ttl \<Longrightarrow> I (cache_put k ips ttl now s)"

begin

lemma query_keeps: "plain h \<Longrightarrow> I s \<Longrightarrow> I (snd (snd (dns_query net h srv q t s)))"
  by (simp add: dns_query_def Let_def keeps_udp keeps_id split: built.split prod.split)

lemma stores_udp_keeps:
  "I s \<Longrightarrow> list_all (\<lambda>ip. family_matches ip q) ips \<Longrightarrow> I (cache_put (h, Udp srv, q) ips (cache_ttl m) now s)"
  by (rule keeps_put) (simp_all add: storable_for_def cache_ttl_bounds)

lemma stores_doh_keeps: "I s \<Longrightarrow> I (cache_put (h, Doh e, q) ips (cache_ttl m) now s)"
  by (rule keeps_put) (simp_all add: storable_for_def cache_ttl_bounds)

lemma udp_keeps: "plain h \<Longrightarrow> I s \<Longrightarrow> I (snd (snd (resolve_udp_typed net h srv q t s)))"
proof -
  assume p: "plain h" and i: "I s"
  obtain r s1 where g: "cache_get (h, Udp srv, q) t s = (r, s1)" by (cases "cache_get (h, Udp srv, q) t s")
  have i1: "I s1" using keeps_get [OF i, of "(h, Udp srv, q)" t] by (simp add: g)
  show ?thesis
  proof (cases r)
    case (Some ips)
    then show ?thesis using i1 by (simp add: resolve_udp_typed_def g)
  next
    case None
    show ?thesis
    proof (cases srv)
      case None
      then show ?thesis using i1 \<open>r = None\<close> g
        by (simp add: resolve_udp_typed_def stores_udp_keeps keeps_sys p list_all_iff split: prod.split option.split)
    next
      case (Some a)
      obtain x t' s2 where d: "dns_query net h a q t s1 = (x, t', s2)" by (cases "dns_query net h a q t s1") auto
      have "I s2" using query_keeps [OF p i1, of net a q t] by (simp add: d)
      then show ?thesis using Some \<open>r = None\<close> g d dns_query_family [of net h a q t s1]
        by (cases x) (auto simp: resolve_udp_typed_def stores_udp_keeps)
    qed
  qed
qed

lemma doh_keeps: "secure h \<Longrightarrow> I s \<Longrightarrow> I (snd (snd (doh_query_once net h e q t s)))"
proof -
  assume p: "secure h" and i: "I s"
  obtain r s1 where g: "cache_get (h, Doh e, q) t s = (r, s1)" by (cases "cache_get (h, Doh e, q) t s")
  have "I s1" using keeps_get [OF i, of "(h, Doh e, q)" t] by (simp add: g)
  then show ?thesis
    by (simp add: doh_query_once_def g stores_doh_keeps keeps_doh p split: option.split prod.split)
qed

lemma probe_keeps: "plain ipv6_test_domain \<Longrightarrow> I s \<Longrightarrow> I (snd (snd (is_support_ipv6 net t s)))"
  using query_keeps [of ipv6_test_domain s net _ TypeAaaa t]
  by (auto simp: is_support_ipv6_def Let_def keeps_probe split: option.split prod.split) (metis snd_conv keeps_probe)

lemma udp_step: "resolve_udp_typed net h srv q t s = (ips, t', s') \<Longrightarrow> I s \<Longrightarrow> plain h \<Longrightarrow> I s'"
  using udp_keeps [of h s net srv q t] by simp

lemma doh_step: "doh_query_once net h e q t s = (ips, t', s') \<Longrightarrow> I s \<Longrightarrow> secure h \<Longrightarrow> I s'"
  using doh_keeps [of h s net e q t] by simp

lemma probe_step: "is_support_ipv6 net t s = (b, t', s') \<Longrightarrow> I s \<Longrightarrow> plain ipv6_test_domain \<Longrightarrow> I s'"
  using probe_keeps [of s net t] by simp

lemma servers_step: "try_servers net h c srvs q t s = (r, t', s') \<Longrightarrow> I s \<Longrightarrow> plain h \<Longrightarrow> I s'"
  by (induction srvs arbitrary: t s) (auto split: if_splits prod.splits dest: udp_step)

lemma plain_step: "plain_lookup net h c q t s = (r, t', s') \<Longrightarrow> I s \<Longrightarrow> plain h \<Longrightarrow> I s'"
  by (auto simp: plain_lookup_def split: option.splits if_splits prod.splits dest!: udp_step servers_step)

lemma system_step:
  assumes "plain_then_system net h c v6 t s = (ips, t', s')" "I s" and p: "plain h"
  shows "I s'"
proof -
  obtain r6 t1 s1 where a: "(if v6 then plain_lookup net h c TypeAaaa t s else (None, t, s)) = (r6, t1, s1)"
    by (cases "if v6 then plain_lookup net h c TypeAaaa t s else (None, t, s)") auto
  obtain r4 t2 s2 where b: "plain_lookup net h c TypeA t1 s1 = (r4, t2, s2)"
    by (cases "plain_lookup net h c TypeA t1 s1") auto
  obtain i6 t3 s3 where d: "(if v6 then resolve_udp_typed net h None TypeAaaa t2 s2 else ([], t2, s2)) = (i6, t3, s3)"
    by (cases "if v6 then resolve_udp_typed net h None TypeAaaa t2 s2 else ([], t2, s2)") auto
  have 1: "I s1" using a assms(2) plain_step [OF _ _ p] by (cases v6) auto
  have 2: "I s2" using plain_step [OF b 1 p] .
  have 3: "I s3" using d 2 udp_step [OF _ _ p] by (cases v6) auto
  show ?thesis
    using assms(1) 2 udp_step [OF _ 3 p]
    by (auto simp: plain_then_system_def a b d Let_def split: if_splits prod.splits)
qed

lemma doh_typed_step: "resolve_doh_typed net h e q t s = (ips, t', s') \<Longrightarrow> I s \<Longrightarrow> secure h \<Longrightarrow> I s'"
  by (auto simp: resolve_doh_typed_def split: if_splits prod.splits dest: doh_step)

lemma spawn_step: "spawn_doh net h es q t s = (rs, s') \<Longrightarrow> I s \<Longrightarrow> secure h \<Longrightarrow> I s'"
  by (induction es arbitrary: s rs) (auto split: prod.splits dest: doh_typed_step)

lemma race_step: "race_doh net h skip q t s = (ips, t', s') \<Longrightarrow> I s \<Longrightarrow> secure h \<Longrightarrow> I s'"
  by (auto simp: race_doh_def split: prod.splits dest: spawn_step)

lemma resolve_step: "resolve_a net h dns doh_on addr t s = (ips, t', s') \<Longrightarrow> I s \<Longrightarrow>
  plain ipv6_test_domain \<Longrightarrow> plain h \<Longrightarrow> (doh_on \<Longrightarrow> secure h) \<Longrightarrow> I s'"
  unfolding resolve_a_def Let_def
  by (auto split: prod.splits if_splits dest!: probe_step doh_typed_step race_step system_step)

lemma others_step: "alternative_servers net h c srvs q t s = (r, t', s') \<Longrightarrow> I s \<Longrightarrow> plain h \<Longrightarrow> I s'"
  by (induction srvs arbitrary: t s r) (auto split: if_splits prod.splits dest: udp_step)

lemma alternatives_step:
  "resolve_alternatives net h dns doh_on addr ex t s = (ips, t', s') \<Longrightarrow> I s \<Longrightarrow>
    plain ipv6_test_domain \<Longrightarrow> plain h \<Longrightarrow> (doh_on \<Longrightarrow> secure h) \<Longrightarrow> I s'"
  unfolding resolve_alternatives_def Let_def
  by (auto split: prod.splits if_splits simp del: spawn_doh.simps dest!: probe_step spawn_step others_step)

end

definition cache_ok :: "dns_state \<Rightarrow> bool" where
  "cache_ok s = (distinct (map fst (cache s)) \<and>
     list_all (\<lambda>(k, ips, at, ttl). ips \<noteq> [] \<and> storable_for k ips ttl) (cache s))"

lemma cache_ok_get: "cache_ok s \<Longrightarrow> cache_ok (snd (cache_get k now s))"
  using distinct_delete [of "cache s" k]
  by (auto simp: cache_ok_def cache_get_def list_all_iff delete_conv' AList.delete_eq split: option.split)

lemma cache_ok_put: "cache_ok s \<Longrightarrow> storable_for k ips ttl \<Longrightarrow> cache_ok (cache_put k ips ttl now s)"
proof -
  assume c: "cache_ok s" and k: "storable_for k ips ttl"
  let ?P = "\<lambda>e. fst (snd e) \<noteq> [] \<and> storable_for (fst e) (fst (snd e)) (snd (snd (snd e)))"
  define table where "table = (if cache_max_entries \<le> length (cache s)
    then filter (\<lambda>(k, e). fresh now e) (cache s) else cache s)"
  have t: "distinct (map fst table)" "\<forall>e\<in>set table. ?P e"
    using c by (auto simp: table_def cache_ok_def list_all_iff distinct_map_filter)
  have "set (AList.update k v al) \<subseteq> insert (k, v) (set al)" for v :: cache_entry and al
    by (induction al) auto
  then show ?thesis
    using t c k distinct_update [OF t(1), of k "(ips, now, ttl)"]
    by (fastforce simp: cache_put_def table_def [symmetric] cache_ok_def list_all_iff)
qed

interpretation well_formed: resolver_invariant cache_ok "\<lambda>_. True" "\<lambda>_. True"
  by unfold_locales (simp_all add: cache_ok_get cache_ok_put ask_def, simp_all add: cache_ok_def)

text \<open>The queries that leave the machine.\<close>

fun plain_query :: "(string \<Rightarrow> bool) \<Rightarrow> query \<Rightarrow> bool" where
  "plain_query P (AskUdp h _ _) = P h"
| "plain_query P (AskSys h) = P h"
| "plain_query P (AskDoh _ _ _) = False"

fun secure_query :: "string \<Rightarrow> query \<Rightarrow> bool" where
  "secure_query h (AskDoh h' _ _) = (h' = h)"
| "secure_query h _ = False"

definition sent_since :: "query list \<Rightarrow> (query \<Rightarrow> bool) \<Rightarrow> dns_state \<Rightarrow> bool" where
  "sent_since tr P s = (prefix tr (trace s) \<and> list_all P (drop (length tr) (trace s)))"

lemma sent_since_ask: "P q \<Longrightarrow> sent_since tr P s \<Longrightarrow> sent_since tr P (ask q s)"
  by (auto simp: sent_since_def ask_def prefix_def)

lemma sent_since_trace: "sent_since tr P s \<Longrightarrow> \<exists>qs. trace s = tr @ qs \<and> list_all P qs"
  by (auto simp: sent_since_def prefix_def)

lemma sent_since_refl [simp]: "sent_since (trace s) P s"
  by (simp add: sent_since_def)

lemma trace_cache [simp]: "trace (snd (cache_get k now s)) = trace s" "trace (cache_put k ips ttl now s) = trace s"
  by (simp_all add: cache_get_def cache_put_def Let_def split: option.split)

lemma sent_since_cache [simp]:
  "sent_since tr P (snd (cache_get k now s)) = sent_since tr P s"
  "sent_since tr P (cache_put k ips ttl now s) = sent_since tr P s"
  "sent_since tr P (s\<lparr>dns_id := i\<rparr>) = sent_since tr P s"
  "sent_since tr P (s\<lparr>probe := b\<rparr>) = sent_since tr P s"
  by (simp_all add: sent_since_def)

interpretation plainly: resolver_invariant "sent_since tr (plain_query P)" P "\<lambda>_. False" for tr P
  by unfold_locales (simp_all add: sent_since_ask)

interpretation securely: resolver_invariant "sent_since tr (secure_query h)" "\<lambda>_. False" "\<lambda>h'. h' = h" for tr h
  by unfold_locales (simp_all add: sent_since_ask)

section \<open>Facts on the DoH stage\<close>

definition no_doh_answer :: "string \<Rightarrow> string \<Rightarrow> dns_state \<Rightarrow> bool" where
  "no_doh_answer h e s = (\<forall>q. map_of (cache s) (h, Doh e, q) = None)"

lemma map_of_filter_None: "map_of al k = None \<Longrightarrow> map_of (filter P al) k = None"
  by (auto simp: map_of_eq_None_iff)

lemma map_of_delete_None: "map_of al k = None \<Longrightarrow> map_of (AList.delete k' al) k = None"
  by (simp add: delete_conv')

lemma no_answer_put: "h \<noteq> h' \<or> e \<noteq> e' \<Longrightarrow> no_doh_answer h e s \<Longrightarrow> no_doh_answer h e (cache_put (h', Doh e', q) ips ttl now s)"
  by (auto simp: no_doh_answer_def cache_put_def Let_def update_conv' map_of_filter_None)

lemma no_answer_get: "no_doh_answer h e s \<Longrightarrow> no_doh_answer h e (snd (cache_get k now s))"
  by (simp add: no_doh_answer_def cache_get_def map_of_delete_None split: option.split)

lemma no_answer_ask [simp]: "no_doh_answer h e (ask x s) = no_doh_answer h e s"
  by (simp add: no_doh_answer_def ask_def)

lemma doh_query_others:
  assumes "doh_query_once net h e q t s = (ips, t', s')" "no_doh_answer h e' s" "e \<noteq> e'"
  shows "no_doh_answer h e' s'"
proof -
  obtain r s1 where g: "cache_get (h, Doh e, q) t s = (r, s1)" by (cases "cache_get (h, Doh e, q) t s")
  have "no_doh_answer h e' s1" using no_answer_get [OF assms(2), of "(h, Doh e, q)" t] by (simp add: g)
  then show ?thesis using assms(1,3)
    by (auto simp: doh_query_once_def g no_answer_put Let_def split: option.splits prod.splits)
qed

lemma doh_typed_others:
  "resolve_doh_typed net h e q t s = (ips, t', s') \<Longrightarrow> no_doh_answer h e' s \<Longrightarrow> e \<noteq> e' \<Longrightarrow> no_doh_answer h e' s'"
  by (auto simp: resolve_doh_typed_def split: if_splits prod.splits dest: doh_query_others)

definition asked :: "query \<Rightarrow> dns_state \<Rightarrow> dns_state \<Rightarrow> bool" where
  "asked x s s' = (\<exists>ys. trace s' = trace s @ ys \<and> x \<in> set ys)"

lemma asked_later: "asked x s s' \<Longrightarrow> prefix (trace s') (trace s'') \<Longrightarrow> asked x s s''"
  by (auto simp: asked_def prefix_def)

lemma asked_earlier: "prefix (trace s) (trace s') \<Longrightarrow> asked x s' s'' \<Longrightarrow> asked x s s''"
  by (auto simp: asked_def prefix_def)

lemma doh_query_asks:
  assumes "doh_query_once net h e q t s = (ips, t', s')" "no_doh_answer h e s"
  shows "asked (AskDoh h e q) s s'"
proof -
  have "cache_get (h, Doh e, q) t s = (None, s)" using assms(2) by (simp add: no_doh_answer_def cache_get_def)
  then show ?thesis using assms(1)
    by (auto simp: doh_query_once_def asked_def Let_def ask_def split: option.splits prod.splits)
qed

lemma doh_query_grows: "doh_query_once net h e q t s = (ips, t', s') \<Longrightarrow> prefix (trace s) (trace s')"
  using securely.doh_step [of net h e q t s ips t' s' "trace s" h] by (simp add: sent_since_def)

lemma doh_typed_grows: "resolve_doh_typed net h e q t s = (ips, t', s') \<Longrightarrow> prefix (trace s) (trace s')"
  using securely.doh_typed_step [of net h e q t s ips t' s' "trace s" h] by (simp add: sent_since_def)

lemma spawn_grows: "spawn_doh net h es q t s = (rs, s') \<Longrightarrow> prefix (trace s) (trace s')"
  using securely.spawn_step [of net h es q t s rs s' "trace s" h] by (simp add: sent_since_def)

lemma doh_typed_asks:
  assumes "resolve_doh_typed net h e q t s = (ips, t', s')" "no_doh_answer h e s"
  shows "asked (AskDoh h e q) s s'"
proof -
  obtain i1 t1 s1 where d: "doh_query_once net h e q t s = (i1, t1, s1)" by (cases "doh_query_once net h e q t s") auto
  have "prefix (trace s1) (trace s')"
    using assms(1) d doh_query_grows by (auto simp: resolve_doh_typed_def split: if_splits)
  then show ?thesis using asked_later [OF doh_query_asks [OF d assms(2)]] by blast
qed

lemma spawn_asks:
  "spawn_doh net h es q t s = (rs, s') \<Longrightarrow> distinct es \<Longrightarrow> \<forall>e\<in>set es. no_doh_answer h e s \<Longrightarrow>
     \<forall>e\<in>set es. asked (AskDoh h e q) s s'"
proof (induction es arbitrary: s rs)
  case (Cons e es)
  obtain ips t1 s1 where d: "resolve_doh_typed net h e q t s = (ips, t1, s1)"
    by (cases "resolve_doh_typed net h e q t s") auto
  obtain rs1 where sp: "spawn_doh net h es q t s1 = (rs1, s')" using Cons.prems(1) d by (auto split: prod.splits)
  have "\<forall>e'\<in>set es. asked (AskDoh h e' q) s1 s'"
    using Cons.IH [OF sp] Cons.prems(2,3) doh_typed_others [OF d] by auto
  moreover have "asked (AskDoh h e q) s s1" using doh_typed_asks [OF d] Cons.prems(3) by simp
  ultimately show ?case
    using asked_earlier [OF doh_typed_grows [OF d]] asked_later [OF _ spawn_grows [OF sp]] by auto
qed simp

lemma distinct_doh_addresses: "distinct doh_addresses"
  by code_simp

lemma probe_cache: "is_support_ipv6 net t s = (b, t', s') \<Longrightarrow> cache s' = cache s"
  by (auto simp: is_support_ipv6_def dns_query_def Let_def ask_def split: option.splits prod.splits built.splits)

text \<open>The two DoH stages of \<open>resolve_a\<close>, when neither had an answer in the cache.\<close>

lemma doh_stages_ask:
  assumes "\<forall>e. no_doh_answer h e s"
    and a: "resolve_doh_typed net h e0 q t s = (i1, t1, s1)"
    and b: "race_doh net h e0 q t1 s1 = (i2, t2, s2)"
    and "e \<in> insert e0 (set doh_addresses)"
  shows "asked (AskDoh h e q) s s2"
proof -
  obtain rs where sp: "spawn_doh net h (filter (\<lambda>a. a \<noteq> e0) doh_addresses) q t1 s1 = (rs, s2)"
    using b by (auto simp: race_doh_def split: prod.splits)
  have "asked (AskDoh h e0 q) s s1" using doh_typed_asks [OF a] assms(1) by simp
  moreover have "\<forall>e\<in>set doh_addresses. e \<noteq> e0 \<longrightarrow> asked (AskDoh h e q) s1 s2"
  proof -
    have "\<forall>e\<in>set (filter (\<lambda>a. a \<noteq> e0) doh_addresses). no_doh_answer h e s1"
      using doh_typed_others [OF a] assms(1) by auto
    from spawn_asks [OF sp distinct_filter [OF distinct_doh_addresses] this] show ?thesis by simp
  qed
  ultimately show ?thesis
    using assms(4) asked_later [of _ s s1 s2] asked_earlier [of s s1 _ s2] spawn_grows [OF sp] doh_typed_grows [OF a]
    by (cases "e = e0") auto
qed

lemma doh_stage_trace:
  "resolve_doh_typed net h e q t s = (i1, t1, s1) \<Longrightarrow> \<exists>qs. trace s1 = trace s @ qs \<and> list_all (secure_query h) qs"
  by (rule sent_since_trace, erule securely.doh_typed_step) simp_all

lemma race_stage_trace:
  "race_doh net h e q t s = (i1, t1, s1) \<Longrightarrow> \<exists>qs. trace s1 = trace s @ qs \<and> list_all (secure_query h) qs"
  by (rule sent_since_trace, erule securely.race_step) simp_all

lemma plain_stage_trace:
  "plain_then_system net h c v6 t s = (i1, t1, s1) \<Longrightarrow> \<exists>qs. trace s1 = trace s @ qs \<and> list_all (plain_query ((=) h)) qs"
  by (rule sent_since_trace, erule plainly.system_step) simp_all

lemma probe_stage_trace:
  "is_support_ipv6 net t s = (v, t1, s1) \<Longrightarrow>
     \<exists>qs. trace s1 = trace s @ qs \<and> list_all (plain_query ((=) ipv6_test_domain)) qs"
  by (rule sent_since_trace, erule plainly.probe_step) simp_all

lemma await_race_time:
  "now \<le> deadline \<Longrightarrow> await_race deadline now rs = (ips, t') \<Longrightarrow> now \<le> t' \<and> t' \<le> deadline"
proof (induction rs arbitrary: now)
  case (Cons r rs)
  obtain i t where r: "r = (i, t)" by (cases r)
  show ?case
  proof (cases "deadline < t")
    case True
    then show ?thesis using Cons.prems r by (auto simp: max_def)
  next
    case False
    then have m: "\<not> deadline < max now t" using Cons.prems by auto
    then show ?thesis using Cons.prems r Cons.IH [of "max now t"] by (cases "i = []") (auto simp: Let_def)
  qed
qed simp

lemma await_race_first:
  "now \<le> deadline \<Longrightarrow> fst (await_race deadline now rs) =
     (case dropWhile (\<lambda>r. fst r = [] \<and> snd r \<le> deadline) rs of
        [] \<Rightarrow> [] | r # _ \<Rightarrow> if snd r \<le> deadline then fst r else [])"
proof (induction rs arbitrary: now)
  case (Cons r rs)
  obtain i t where r: "r = (i, t)" by (cases r)
  show ?case
  proof (cases "deadline < t")
    case True
    then show ?thesis using Cons.prems r by (auto simp: max_def)
  next
    case False
    then have m: "\<not> deadline < max now t" "max now t \<le> deadline" using Cons.prems by auto
    then show ?thesis using m False r Cons.IH [OF m(2)] by (cases "i = []") (simp_all add: Let_def less_max_iff_disj)
  qed
qed simp

section \<open>Properties\<close>


text \<open>C37. The resolver cache stays well formed: after any resolution, from a well-formed cache, no key
  is there twice, no entry is empty, no lifetime is zero or longer than nine minutes and 54
  seconds, and an entry of a plain query holds addresses of the family it was asked for.\<close>

theorem resolver_keeps_cache_ok:
  assumes "cache_ok s" "resolve_a net h dns doh_on addr t s = (ips, t', s')"
    and "resolve_alternatives net h dns doh_on addr ex t' s' = (alts, t'', s'')"
  shows "cache_ok s' \<and> cache_ok s''"
  using well_formed.resolve_step [OF assms(2,1)] well_formed.alternatives_step [OF assms(3)] by simp

text \<open>An answer is asked for once while it lives: a plain lookup that sent a query and got addresses
  leaves them in the cache under the response's lifetime; the same lookup within that time gives
  the same addresses without a query, and afterwards the cache gives nothing.\<close>

theorem answers_live_for_their_ttl:
  assumes "resolve_udp_typed net h (Some srv) q t s = (ips, t', s')" "ips \<noteq> []" "trace s' \<noteq> trace s"
  shows "\<exists>ttl. 0 < ttl \<and> ttl \<le> cache_ttl_cap
    \<and> (\<forall>t2. t' \<le> t2 \<and> t2 < t' + ttl \<longrightarrow> resolve_udp_typed net h (Some srv) q t2 s' = (ips, t2, s'))
    \<and> (\<forall>t2 \<ge> t' + ttl. fst (cache_get (h, Udp (Some srv), q) t2 s') = None)"
proof -
  let ?k = "(h, Udp (Some srv), q)"
  obtain r s1 where g: "cache_get ?k t s = (r, s1)" by (cases "cache_get ?k t s")
  obtain x t1 s2 where d: "dns_query net h srv q t s1 = (x, t1, s2)" by (cases "dns_query net h srv q t s1") auto
  have "r = None"
    using assms(1,3) g dns_cache.get_hit_same [of ?k t s] by (cases r) (auto simp: resolve_udp_typed_def)
  then obtain m where s': "s' = cache_put ?k ips (cache_ttl m) t1 s2" and t': "t' = t1"
    using assms(1,2) g d by (cases x) (auto simp: resolve_udp_typed_def)
  have "cache_get ?k t2 s' = (Some ips, s')" if "t' \<le> t2" "t2 < t' + cache_ttl m" for t2
    unfolding s' using dns_cache.second_lookup_hits [OF assms(2)] that t' by simp
  moreover have "fst (cache_get ?k t2 s') = None" if "t' + cache_ttl m \<le> t2" for t2
    unfolding s' using dns_cache.get_put_late [OF assms(2)] that t' by simp
  ultimately show ?thesis
    by (intro exI [of _ "cache_ttl m"]) (simp add: cache_ttl_bounds resolve_udp_typed_def)
qed

text \<open>The DoH race is bounded: it ends within five seconds, and answers with the first endpoint in
  the order of the list that has addresses, as long as all before it were done by then. A slow
  endpoint at the head of the list leaves the race without an answer, whatever the others say.\<close>

theorem race_doh_bounded:
  assumes "race_doh net h skip q t s = (ips, t', s')"
  shows "t \<le> t' \<and> t' \<le> t + 5000
    \<and> (\<exists>rs. spawn_doh net h (filter (\<lambda>a. a \<noteq> skip) doh_addresses) q t s = (rs, s')
        \<and> ips = (case dropWhile (\<lambda>r. fst r = [] \<and> snd r \<le> t + 5000) rs of
            [] \<Rightarrow> [] | r # _ \<Rightarrow> if snd r \<le> t + 5000 then fst r else []))"
proof -
  obtain rs where sp: "spawn_doh net h (filter (\<lambda>a. a \<noteq> skip) doh_addresses) q t s = (rs, s')"
    and aw: "await_race (t + 5000) t rs = (ips, t')"
    using assms by (auto simp: race_doh_def split: prod.splits)
  show ?thesis
    using await_race_time [OF _ aw] await_race_first [of t "t + 5000" rs] sp aw by simp
qed

text \<open>The alternatives are new addresses: no duplicates, none of the excluded ones, and with DoH off
  no query for them goes out over HTTPS.\<close>

theorem alternatives_are_new:
  assumes "resolve_alternatives net h dns doh_on addr exclude t s = (ips, t', s')"
  shows "distinct ips \<and> set ips \<inter> set exclude = {}
    \<and> (\<not> doh_on \<longrightarrow> (\<exists>qs. trace s' = trace s @ qs \<and> list_all (plain_query (\<lambda>_. True)) qs))"
proof (intro conjI impI)
  obtain found where "ips = push_new [] (filter (\<lambda>ip. ip \<notin> set exclude) found)"
    using assms unfolding resolve_alternatives_def Let_def by (auto split: prod.splits simp del: spawn_doh.simps)
  then show "distinct ips" "set ips \<inter> set exclude = {}" by (auto simp: distinct_push_new)
next
  assume "\<not> doh_on"
  then show "\<exists>qs. trace s' = trace s @ qs \<and> list_all (plain_query (\<lambda>_. True)) qs"
    using plainly.alternatives_step [OF assms, of "trace s" "\<lambda>_. True"] sent_since_trace by simp
qed

section \<open>Witnesses\<close>

definition quiet_net :: network where
  "quiet_net = \<lparr>doh_get = (\<lambda>url t. (None, 40)), udp_recv = (\<lambda>srv p t. (Some [], 300)),
     sys_lookup = (\<lambda>h t. (Some [ip4 20 205 243 166], 10)), registry = []\<rparr>"

definition start_state :: dns_state where
  "start_state = \<lparr>cache = [], probe = None, dns_id = 0x1234, trace = []\<rparr>"


text \<open>A server that answers every packet with one A record of a minute.\<close>

definition answering_net :: network where
  "answering_net = quiet_net\<lparr>udp_recv := (\<lambda>srv p t. (Some [response_wire (take 2 p @ [0x81, 0x80, 0, 1]) [0, 0, 0, 0] [''a'']
     [0, 1, 0, 1] [\<lparr>rr_owner = Pointer 12, rr_type = 1, rr_class = 1, rr_ttl = 60, rr_data = [20, 205, 243, 166]\<rparr>] []], 20))\<rparr>"

lemma resolver_keeps_cache_ok_witness:
  "cache_ok (snd (snd (resolve_a answering_net ''a.com'' ''8.8.8.8'' False [] 0 start_state)))
   \<and> cache (snd (snd (resolve_a answering_net ''a.com'' ''8.8.8.8'' False [] 0 start_state))) \<noteq> []"
proof -
  obtain ips t' s' where r: "resolve_a answering_net ''a.com'' ''8.8.8.8'' False [] 0 start_state = (ips, t', s')"
    by (cases "resolve_a answering_net ''a.com'' ''8.8.8.8'' False [] 0 start_state") auto
  obtain alts t'' s'' where a: "resolve_alternatives answering_net ''a.com'' ''8.8.8.8'' False [] ips t' s' = (alts, t'', s'')"
    by (cases "resolve_alternatives answering_net ''a.com'' ''8.8.8.8'' False [] ips t' s'") auto
  have "cache_ok start_state" by (simp add: cache_ok_def start_state_def)
  then have "cache_ok s'" using resolver_keeps_cache_ok [OF _ r a] by simp
  moreover have "cache (snd (snd (resolve_a answering_net ''a.com'' ''8.8.8.8'' False [] 0 start_state))) \<noteq> []"
    by code_simp
  ultimately show ?thesis by (simp add: r)
qed

lemma answers_live_witness:
  "\<exists>ttl>0. \<forall>t2. 20 \<le> t2 \<and> t2 < 20 + ttl \<longrightarrow>
     fst (resolve_udp_typed answering_net ''a.com'' (Some (ip4 8 8 8 8)) TypeA t2
       (snd (snd (resolve_udp_typed answering_net ''a.com'' (Some (ip4 8 8 8 8)) TypeA 0 start_state)))) = [ip4 20 205 243 166]"
proof -
  obtain ips t' s' where r: "resolve_udp_typed answering_net ''a.com'' (Some (ip4 8 8 8 8)) TypeA 0 start_state = (ips, t', s')"
    by (cases "resolve_udp_typed answering_net ''a.com'' (Some (ip4 8 8 8 8)) TypeA 0 start_state") auto
  have "fst (resolve_udp_typed answering_net ''a.com'' (Some (ip4 8 8 8 8)) TypeA 0 start_state) = [ip4 20 205 243 166]"
    "fst (snd (resolve_udp_typed answering_net ''a.com'' (Some (ip4 8 8 8 8)) TypeA 0 start_state)) = 20"
    "trace (snd (snd (resolve_udp_typed answering_net ''a.com'' (Some (ip4 8 8 8 8)) TypeA 0 start_state))) \<noteq> trace start_state"
    by code_simp+
  then show ?thesis using answers_live_for_their_ttl [OF r] unfolding r by auto
qed

lemma race_doh_witness:
  "fst (snd (race_doh quiet_net ''github.com'' dnspod_doh2 TypeA 7 start_state)) \<le> 5007"
  using race_doh_bounded [of quiet_net "''github.com''" dnspod_doh2 TypeA 7 start_state]
  by (cases "race_doh quiet_net ''github.com'' dnspod_doh2 TypeA 7 start_state") auto

lemma alternatives_witness:
  "set (fst (resolve_alternatives answering_net ''a.com'' ''8.8.8.8'' False [] [ip4 20 205 243 166] 0 start_state)) \<inter>
     {ip4 20 205 243 166} = {}"
  using alternatives_are_new [of answering_net "''a.com''" "''8.8.8.8''" False "[]" "[ip4 20 205 243 166]" 0 start_state]
  by (cases "resolve_alternatives answering_net ''a.com'' ''8.8.8.8'' False [] [ip4 20 205 243 166] 0 start_state") auto

section \<open>What the comments promise and the code does not\<close>

text \<open>The table is called hard bounded, but the sweep before an insertion drops expired answers only:
  with 1024 live answers a new one makes it 1025.\<close>

lemma cache_bound_not_enforced:
  assumes "length (cache s) = cache_max_entries" "list_all (\<lambda>(k, e). fresh now e) (cache s)"
    and "k \<notin> fst ` set (cache s)" "ips \<noteq> []"
  shows "length (cache (cache_put k ips ttl now s)) = cache_max_entries + 1"
proof -
  have "filter (\<lambda>(k, e). fresh now e) (cache s) = cache s" using assms(2) by (simp add: filter_id_conv list_all_iff)
  moreover have "length (AList.update k v al) = Suc (length al)" if "k \<notin> fst ` set al" for v :: cache_entry and al
    using that by (induction al) auto
  ultimately show ?thesis using assms by (simp add: cache_put_def)
qed

text \<open>One endpoint that never answers hides the answers of all endpoints after it.\<close>

lemma slow_endpoint_hides_answers:
  "await_race 5000 0 [([], 6000), ([ip4 20 205 243 166], 10)] = ([], 5000)"
  by code_simp

end
