(* ===== verification/DnsHook.thy ===== *)
theory DnsHook
  imports Domains DnsWire "HOL-Library.Monad_Syntax"
begin

unbundle bit_operations_syntax

text \<open>
  The DNS hook of \<open>crates/core/src/windivert.rs\<close>: the in-place rewrite of a captured query into an
  answer with the loopback address, the header checksum, and the capture loop. An index or a
  range outside the buffer panics in the code; here every access is checked and a panic is
  \<open>None\<close>, so that its absence is a theorem. The driver (receive, send, the checksum helper) is a
  parameter of the loop.
\<close>

section \<open>The IPv4 header checksum\<close>

fun be_words :: "bytes \<Rightarrow> u32 list" where
  "be_words (a # b # r) = ucast (from_be16 a b) # be_words r"
| "be_words [a] = [push_bit 8 (ucast a)]"
| "be_words [] = []"

function fold_carry :: "u32 \<Rightarrow> u32" where
  "fold_carry s = (if 0xFFFF < s then fold_carry (drop_bit 16 s + (s AND 0xFFFF)) else s)"
  by pat_completeness auto

lemma low_half: "(s :: u32) AND 0xFFFF = take_bit 16 s"
proof -
  have "(mask 16 :: u32) = 0xFFFF" by (simp add: mask_eq_exp_minus_1)
  then show ?thesis by (simp only: take_bit_eq_mask)
qed

lemma unat_halves: "unat (drop_bit 16 s + (s AND 0xFFFF) :: u32) = unat s div 65536 + unat s mod 65536"
proof -
  have "unat (drop_bit 16 s) = unat s div 65536" by (simp only: unsigned_drop_bit_eq) (simp add: drop_bit_eq_div take_bit_nat_eq_self)
  moreover have "unat (s AND 0xFFFF) = unat s mod 65536"
    by (simp only: low_half unsigned_take_bit_eq) (simp add: take_bit_eq_mod)
  moreover have "unat s div 65536 + unat s mod 65536 < 4294967296" using unat_u32_less [of s] by linarith
  ultimately show ?thesis by (simp add: unat_word_ariths)
qed

termination fold_carry
proof (relation "measure unat")
  fix s :: u32 assume "0xFFFF < s"
  then have "65535 < unat s" by (simp add: word_less_nat_alt)
  then have "0 < unat s div 65536" by (simp add: div_greater_zero_iff)
  then have "unat s div 65536 + unat s mod 65536 < unat s"
    using div_mult_mod_eq [of "unat s" 65536] by linarith
  then show "(drop_bit 16 s + (s AND 0xFFFF), s) \<in> measure unat" unfolding in_measure unat_halves .
qed simp

declare fold_carry.simps [simp del]

definition ip_checksum :: "bytes \<Rightarrow> u16" where
  "ip_checksum data = NOT (ucast (fold_carry (foldl (+) 0 (be_words data))))"

section \<open>Reading the packet\<close>

datatype name_read = Malformed | NameRead "string list" nat

text \<open>The loop over the question name; \<open>n\<close> is the length of the packet inside the buffer.\<close>

function query_labels :: "bytes \<Rightarrow> nat \<Rightarrow> nat \<Rightarrow> name_read option" where
  "query_labels p n i =
     (if n \<le> i then Some (NameRead [] i)
      else do {
        l \<leftarrow> get_at i p;
        if l = 0 then Some (NameRead [] (i + 1))
        else if n < i + 1 + unat l then Some Malformed
        else do {
          s \<leftarrow> get_range (i + 1) (i + 1 + unat l) p;
          r \<leftarrow> query_labels p n (i + 1 + unat l);
          Some (case r of Malformed \<Rightarrow> Malformed | NameRead ls j \<Rightarrow> NameRead (utf8_lossy (str_of s) # ls) j)
        }
      })"
  by pat_completeness auto
termination
  by (relation "measure (\<lambda>(p, n, i). n - i)") auto

declare query_labels.simps [simp del]

definition ip_version :: "u8 \<Rightarrow> nat" where
  "ip_version b = unat b div 16"

definition header_length :: "u8 \<Rightarrow> nat" where
  "header_length b = unat (b AND 0x0F) * 4"

text \<open>The offset of the UDP header; the inner \<open>None\<close> leaves the packet alone.\<close>

definition udp_offset :: "bytes \<Rightarrow> nat \<Rightarrow> nat option option" where
  "udp_offset p n =
     (if n < 1 then Some None
      else do {
        b \<leftarrow> get_at 0 p;
        if ip_version b = 4 then
          if n < 28 then Some None
          else do {
            proto \<leftarrow> get_at 9 p;
            Some (if proto \<noteq> 17 \<or> n < header_length b + 8 + 12 then None else Some (header_length b))
          }
        else if ip_version b = 6 then
          if n < 60 then Some None
          else do { proto \<leftarrow> get_at 6 p; Some (if proto \<noteq> 17 then None else Some 40) }
        else Some None
      })"

definition standard_query :: "bytes \<Rightarrow> nat \<Rightarrow> bool option" where
  "standard_query p dns = do {
     flags \<leftarrow> get_at (dns + 2) p;
     hi \<leftarrow> get_at (dns + 4) p;
     lo \<leftarrow> get_at (dns + 5) p;
     Some (flags AND 0x80 = 0 \<and> flags AND 0x78 = 0 \<and> hi = 0 \<and> lo \<noteq> 0)
   }"

section \<open>The answer\<close>

definition loopback_record :: "u16 \<Rightarrow> bytes" where
  "loopback_record qty = [0xC0, 0x0C] @ to_be16 qty @ [0, 1] @ to_be32 300 @
     (if qty = 1 then to_be16 4 @ [127, 0, 0, 1] else to_be16 16 @ replicate 15 0 @ [1])"

definition answer_payload :: "bytes \<Rightarrow> bytes \<Rightarrow> u16 \<Rightarrow> bytes" where
  "answer_payload qid question qty =
     qid @ [0x81, 0x80] @ [0, 1] @ [0, 1] @ [0, 0] @ [0, 0] @ question @ loopback_record qty"

text \<open>\<open>packet[i..i + ys.len()].copy_from_slice(&ys)\<close>.\<close>

definition set_range :: "nat \<Rightarrow> 'a list \<Rightarrow> 'a list \<Rightarrow> 'a list option" where
  "set_range i ys xs = (if i + length ys \<le> length xs then Some (put_slice i ys xs) else None)"

definition rewrite_ipv4 :: "nat \<Rightarrow> nat \<Rightarrow> bytes \<Rightarrow> bytes option" where
  "rewrite_ipv4 ihl new_len p = do {
     src \<leftarrow> get_range 12 16 p;
     dst \<leftarrow> get_range 16 20 p;
     p \<leftarrow> set_range 12 dst p;
     p \<leftarrow> set_range 16 src p;
     p \<leftarrow> set_range 2 (to_be16 (word_of_nat new_len)) p;
     p \<leftarrow> set_range 10 [0, 0] p;
     hdr \<leftarrow> get_range 0 ihl p;
     set_range 10 (to_be16 (ip_checksum hdr)) p
   }"

definition rewrite_ipv6 :: "nat \<Rightarrow> bytes \<Rightarrow> bytes option" where
  "rewrite_ipv6 resp_len p = do {
     src \<leftarrow> get_range 8 24 p;
     dst \<leftarrow> get_range 24 40 p;
     p \<leftarrow> set_range 8 dst p;
     p \<leftarrow> set_range 24 src p;
     set_range 4 (to_be16 (word_of_nat (resp_len + 8))) p
   }"

definition rewrite_udp :: "nat \<Rightarrow> nat \<Rightarrow> bytes \<Rightarrow> bytes option" where
  "rewrite_udp udp resp_len p = do {
     sp \<leftarrow> get_range udp (udp + 2) p;
     dp \<leftarrow> get_range (udp + 2) (udp + 4) p;
     p \<leftarrow> set_range udp dp p;
     p \<leftarrow> set_range (udp + 2) sp p;
     p \<leftarrow> set_range (udp + 4) (to_be16 (word_of_nat resp_len + 8)) p;
     set_range (udp + 6) [0, 0] p
   }"

text \<open>The flag byte of \<open>WINDIVERT_ADDRESS\<close>.\<close>

definition new_flags :: "nat \<Rightarrow> u8 \<Rightarrow> u8" where
  "new_flags version flags =
     (let f = flags OR 0x08;
          f = (if flags AND 0x04 \<noteq> 0 then f OR 0x02 else f AND NOT 0x02) in
      if version = 6 then f OR 0x10 else f AND NOT 0x10)"

definition mark_addr :: "nat \<Rightarrow> bytes \<Rightarrow> bytes" where
  "mark_addr version addr = (if 9 < length addr then addr[9 := new_flags version (addr ! 9)] else addr)"

section \<open>The rewrite\<close>

definition modify_dns_packet :: "bytes \<Rightarrow> nat \<Rightarrow> bytes \<Rightarrow> string list \<Rightarrow>
    (string option \<times> bytes \<times> nat \<times> bytes) option" where
  "modify_dns_packet packet len addr domains = (let keep = Some (None, packet, len, addr) in do {
     off \<leftarrow> udp_offset packet len;
     case off of None \<Rightarrow> keep | Some udp \<Rightarrow> (let dns = udp + 8 in do {
       ok \<leftarrow> standard_query packet dns;
       if \<not> ok then keep else do {
         name \<leftarrow> query_labels packet len (dns + 12);
         case name of Malformed \<Rightarrow> keep | NameRead labels i \<Rightarrow>
           if labels = [] \<or> len < i + 4 then keep
           else do {
             qt \<leftarrow> get_range i (i + 2) packet;
             let qty = from_be16 (qt ! 0) (qt ! 1);
             let domain = join ''.'' labels;
             if (qty \<noteq> 1 \<and> qty \<noteq> 28) \<or> \<not> hook_matches domain domains then keep
             else do {
               qid \<leftarrow> get_range dns (dns + 2) packet;
               question \<leftarrow> get_range (dns + 12) (i + 4) packet;
               let resp = answer_payload qid question qty;
               if length packet < dns + length resp then keep
               else do {
                 b \<leftarrow> get_at 0 packet;
                 p \<leftarrow> set_range dns resp packet;
                 p \<leftarrow> (if ip_version b = 4 then rewrite_ipv4 udp (dns + length resp) p
                        else rewrite_ipv6 (length resp) p);
                 p \<leftarrow> rewrite_udp udp (length resp) p;
                 Some (Some domain, p, dns + length resp, mark_addr (ip_version b) addr)
               }
             }
           }
       }
     })
   })"

section \<open>Facts on the checksum\<close>

lemma be_words_append: "even (length a) \<Longrightarrow> be_words (a @ b) = be_words a @ be_words b"
  by (induction a rule: be_words.induct) simp_all

lemma unat_be_words: "w \<in> set (be_words data) \<Longrightarrow> unat w \<le> 65535"
proof (induction data rule: be_words.induct)
  case (1 a b r)
  have "unat (from_be16 a b) < 4294967296" using unat_u16_less [of "from_be16 a b"] by linarith
  then show ?case using 1 unat_u16_less [of "from_be16 a b"]
    by (auto simp: unsigned_ucast_eq take_bit_nat_eq_self simp del: unat_u16_less)
next
  case (2 a)
  have l: "unat a < 4294967296" "unat a * 256 < 4294967296" using unat_u8_less [of a] by linarith+
  then have "unat (push_bit 8 (ucast a :: u32)) = unat a * 256"
    by (simp add: push_bit_eq_mult unat_word_ariths unsigned_ucast_eq take_bit_nat_eq_self del: unat_u8_less)
  moreover have "unat a * 256 \<le> 65535" using unat_u8_less [of a] by linarith
  ultimately show ?case using 2 by simp
qed simp

lemma length_be_words: "length (be_words data) = (length data + 1) div 2"
  by (induction data rule: be_words.induct) simp_all

lemma sum_words_bound: "sum_list (map unat (be_words data)) \<le> 65535 * ((length data + 1) div 2)"
proof -
  have "sum_list (map unat ws) \<le> 65535 * length ws" if "\<forall>w\<in>set ws. unat w \<le> 65535" for ws :: "u32 list"
    using that by (induction ws) auto
  then show ?thesis using unat_be_words [of _ data] length_be_words [of data] by metis
qed

lemma foldl_words_sum:
  "unat acc + sum_list (map unat ws) < 4294967296 \<Longrightarrow> unat (foldl (+) acc (ws :: u32 list)) = unat acc + sum_list (map unat ws)"
proof (induction ws arbitrary: acc)
  case (Cons w ws)
  then have "unat (acc + w) = unat acc + unat w" by (simp add: unat_word_ariths)
  then show ?case using Cons by simp
qed simp

definition word_sum :: "bytes \<Rightarrow> nat" where
  "word_sum data = sum_list (map unat (be_words data))"

lemma header_sum:
  "length data \<le> 65535 \<Longrightarrow> unat (foldl (+) 0 (be_words data)) = word_sum data"
  using foldl_words_sum [of 0 "be_words data"] sum_words_bound [of data] by (simp add: word_sum_def)

lemma fold_carry_value: "unat (fold_carry s) = (if unat s = 0 then 0 else (unat s - 1) mod 65535 + 1)"
proof (induction s rule: fold_carry.induct)
  case (1 s)
  show ?case
  proof (cases "0xFFFF < s")
    case True
    then have big: "65535 < unat s" by (simp add: word_less_nat_alt)
    let ?d = "unat s div 65536" and ?m = "unat s mod 65536"
    have s: "unat s = ?d * 65536 + ?m" by simp
    have d: "0 < ?d" using big by (simp add: div_greater_zero_iff)
    have e: "unat s - 1 = ?d * 65535 + (?d + ?m - 1)" using s d by linarith
    have "unat (fold_carry s) = (?d + ?m - 1) mod 65535 + 1"
      using 1 [OF True] True d by (subst fold_carry.simps) (simp only: if_True unat_halves, simp)
    also have "(?d + ?m - 1) mod 65535 = (unat s - 1) mod 65535" unfolding e by simp
    finally show ?thesis using big by simp
  next
    case False
    then have "unat s \<le> 65535" by (simp add: word_less_nat_alt)
    then show ?thesis using False by (subst fold_carry.simps) auto
  qed
qed

lemma unat_complement: "unat (NOT w :: u16) = 65535 - unat w"
proof -
  have "NOT w = - 1 - w" by (simp add: not_eq_complement)
  moreover have "unat (- 1 :: u16) = 65535" by (simp add: unsigned_minus_1_eq_mask mask_eq_exp_minus_1)
  ultimately show ?thesis by (simp only: unat_sub word_order.extremum)
qed

lemma checksum_value:
  "length data \<le> 65535 \<Longrightarrow> unat (ip_checksum data) =
     65535 - (if word_sum data = 0 then 0 else (word_sum data - 1) mod 65535 + 1)"
proof -
  assume l: "length data \<le> 65535"
  let ?f = "fold_carry (foldl (+) 0 (be_words data))"
  have v: "unat ?f = (if word_sum data = 0 then 0 else (word_sum data - 1) mod 65535 + 1)"
    by (simp add: fold_carry_value header_sum [OF l])
  have "unat ?f \<le> 65535"
    using mod_less_divisor [of 65535 "word_sum data - 1"] unfolding v by (auto simp: Suc_le_eq simp del: mod_less_divisor)
  then have "unat (ucast ?f :: u16) = unat ?f" by (simp add: unsigned_ucast_eq take_bit_nat_eq_self)
  then show ?thesis unfolding ip_checksum_def v [symmetric] by (simp add: unat_complement)
qed

lemma word_sum_append: "even (length a) \<Longrightarrow> word_sum (a @ b) = word_sum a + word_sum b"
  by (simp add: word_sum_def be_words_append)

lemma word_sum_be16: "word_sum (to_be16 c) = unat c"
proof -
  have "unat c < 4294967296" using unat_u16_less [of c] by linarith
  then show ?thesis
    by (simp add: word_sum_def to_be16_def from_be16_to_be16 unsigned_ucast_eq take_bit_nat_eq_self del: unat_u16_less)
qed

text \<open>Putting the checksum of a header with a zero field into the field makes the header sum up.\<close>

lemma checksum_verifies:
  assumes "even (length a)" "length a + 2 + length b \<le> 65535"
  shows "ip_checksum (a @ to_be16 (ip_checksum (a @ [0, 0] @ b)) @ b) = 0"
proof -
  let ?S = "word_sum (a @ [0, 0] @ b)"
  let ?c = "ip_checksum (a @ [0, 0] @ b)"
  let ?D = "a @ to_be16 ?c @ b"
  have z: "word_sum [0, 0] = 0" by (simp add: word_sum_def from_be16_def)
  have S: "word_sum (0 # 0 # b) = word_sum b" using word_sum_append [of "[0, 0]" b] z by simp
  have D: "word_sum ?D = ?S + unat ?c"
    using assms(1) word_sum_append [of "to_be16 ?c" b] by (simp add: word_sum_append word_sum_be16 S)
  have c: "unat ?c = 65535 - (if ?S = 0 then 0 else (?S - 1) mod 65535 + 1)"
    using assms(2) by (intro checksum_value) simp
  have "word_sum ?D \<noteq> 0 \<and> (word_sum ?D - 1) mod 65535 = 65534"
  proof (cases "?S = 0")
    case True
    then show ?thesis using c D by simp
  next
    case False
    let ?r = "(?S - 1) mod 65535" and ?q = "(?S - 1) div 65535"
    have r: "?r < 65535" by simp
    have q: "?S - 1 = ?q * 65535 + ?r" by simp
    have cc: "unat ?c = 65534 - ?r" using c False by simp
    have e: "word_sum ?D - 1 = ?q * 65535 + 65534" using D q r False unfolding cc by linarith
    have "word_sum ?D \<noteq> 0" using e by linarith
    then show ?thesis unfolding e by simp
  qed
  then have "unat (ip_checksum ?D) = 0"
    using checksum_value [of ?D] assms(2) by simp
  then show ?thesis by (simp add: unat_eq_0)
qed

section \<open>Facts on the rewrite\<close>

lemma set_range_fits [simp]: "i + length ys \<le> length xs \<Longrightarrow> set_range i ys xs = Some (put_slice i ys xs)"
  by (simp add: set_range_def)

lemma get_range_fits [simp]: "a \<le> b \<Longrightarrow> b \<le> length xs \<Longrightarrow> get_range a b xs = Some (take (b - a) (drop a xs))"
  by (simp add: get_range_def)

lemma get_at_fits [simp]: "i < length xs \<Longrightarrow> get_at i xs = Some (xs ! i)"
  by (simp add: get_at_def)

text \<open>Cutting a buffer into fields, and overwriting a field in place.\<close>

lemma cut_field:
  assumes "n + m \<le> length p"
  obtains a b where "p = a @ b" "length a = n" "m \<le> length b"
  using that [of "take n p" "drop n p"] assms by simp

lemma put_field [simp]:
  "length a = i \<Longrightarrow> length ys = length x \<Longrightarrow> put_slice i ys (a @ x @ b) = a @ ys @ b"
  by (simp add: put_slice_def)

lemma put_later_field [simp]:
  "length a \<le> i \<Longrightarrow> put_slice i ys (a @ b) = a @ put_slice (i - length a) ys b"
  by (simp add: put_slice_def)

lemma put_first_field [simp]: "length ys = length x \<Longrightarrow> put_slice 0 ys (x @ b) = ys @ b"
  by (simp add: put_slice_def)

lemma put_two [simp]: "length ys = 2 \<Longrightarrow> put_slice 0 ys (u # v # b) = ys @ b"
  by (simp add: put_slice_def)

text \<open>The packet after the IPv4 rewrite: addresses swapped, total length, checksum over the header.\<close>

lemma rewrite_ipv4_result:
  assumes "20 \<le> length p" "ihl \<le> length p"
  obtains p' where "rewrite_ipv4 ihl m p = Some p'" "length p' = length p" "drop 20 p' = drop 20 p"
    "take 4 (drop 12 p') = take 4 (drop 16 p)" "take 4 (drop 16 p') = take 4 (drop 12 p)"
    "take 2 (drop 2 p') = to_be16 (word_of_nat m)" "take 2 p' = take 2 p"
    "20 \<le> ihl \<Longrightarrow> ihl \<le> 65535 \<Longrightarrow> ip_checksum (take ihl p') = 0"
proof -
  obtain a r1 where p1: "p = a @ r1" "length a = 2" "18 \<le> length r1" using cut_field [of 2 18 p] assms by auto
  obtain l r2 where p2: "r1 = l @ r2" "length l = 2" "16 \<le> length r2" using cut_field [of 2 16 r1] p1 by auto
  obtain x r3 where p3: "r2 = x @ r3" "length x = 6" "10 \<le> length r3" using cut_field [of 6 10 r2] p2 by auto
  obtain k r4 where p4: "r3 = k @ r4" "length k = 2" "8 \<le> length r4" using cut_field [of 2 8 r3] p3 by auto
  obtain s r5 where p5: "r4 = s @ r5" "length s = 4" "4 \<le> length r5" using cut_field [of 4 4 r4] p4 by auto
  obtain d r where p6: "r5 = d @ r" "length d = 4" using cut_field [of 4 0 r5] p5 by auto
  have p: "p = a @ l @ x @ k @ s @ d @ r" using p1 p2 p3 p4 p5 p6 by simp
  note len = p1(2) p2(2) p3(2) p4(2) p5(2) p6(2)
  let ?l = "to_be16 (word_of_nat m)"
  let ?h = "take ihl (a @ ?l @ x @ [0, 0] @ d @ s @ r)"
  have r: "rewrite_ipv4 ihl m p = Some (a @ ?l @ x @ to_be16 (ip_checksum ?h) @ d @ s @ r)"
    using assms by (simp add: rewrite_ipv4_def p len)
  have "ip_checksum (take ihl (a @ ?l @ x @ to_be16 (ip_checksum ?h) @ d @ s @ r)) = 0" if "20 \<le> ihl" "ihl \<le> 65535"
  proof -
    let ?t = "d @ s @ take (ihl - 20) r"
    have "?h = (a @ ?l @ x) @ [0, 0] @ ?t" using that by (simp add: len take_Cons')
    moreover have "take ihl (a @ ?l @ x @ to_be16 (ip_checksum ?h) @ d @ s @ r) =
        (a @ ?l @ x) @ to_be16 (ip_checksum ?h) @ ?t" using that by (simp add: len)
    ultimately show ?thesis using checksum_verifies [of "a @ ?l @ x" ?t] that by (simp add: len)
  qed
  then show ?thesis using that [OF r] by (simp add: p len)
qed

lemma rewrite_ipv6_result:
  assumes "40 \<le> length p"
  obtains p' where "rewrite_ipv6 m p = Some p'" "length p' = length p" "drop 40 p' = drop 40 p"
    "take 16 (drop 8 p') = take 16 (drop 24 p)" "take 16 (drop 24 p') = take 16 (drop 8 p)"
    "take 4 p' = take 4 p"
proof -
  obtain a r1 where p1: "p = a @ r1" "length a = 4" "36 \<le> length r1" using cut_field [of 4 36 p] assms by auto
  obtain l r2 where p2: "r1 = l @ r2" "length l = 2" "34 \<le> length r2" using cut_field [of 2 34 r1] p1 by auto
  obtain x r3 where p3: "r2 = x @ r3" "length x = 2" "32 \<le> length r3" using cut_field [of 2 32 r2] p2 by auto
  obtain s r4 where p4: "r3 = s @ r4" "length s = 16" "16 \<le> length r4" using cut_field [of 16 16 r3] p3 by auto
  obtain d r where p5: "r4 = d @ r" "length d = 16" using cut_field [of 16 0 r4] p4 by auto
  have p: "p = a @ l @ x @ s @ d @ r" using p1 p2 p3 p4 p5 by simp
  note len = p1(2) p2(2) p3(2) p4(2) p5(2)
  have "rewrite_ipv6 m p = Some (a @ to_be16 (word_of_nat (m + 8)) @ x @ d @ s @ r)"
    using assms by (simp add: rewrite_ipv6_def p len)
  then show ?thesis by (rule that) (simp_all add: p len)
qed

lemma rewrite_udp_result:
  assumes "udp + 8 \<le> length p"
  obtains p' where "rewrite_udp udp m p = Some p'" "length p' = length p" "take udp p' = take udp p"
    "drop (udp + 8) p' = drop (udp + 8) p"
    "take 8 (drop udp p') = take 2 (drop (udp + 2) p) @ take 2 (drop udp p) @ to_be16 (word_of_nat m + 8) @ [0, 0]"
proof -
  obtain a r1 where p1: "p = a @ r1" "length a = udp" "8 \<le> length r1" using cut_field [of udp 8 p] assms by auto
  obtain s r2 where p2: "r1 = s @ r2" "length s = 2" "6 \<le> length r2" using cut_field [of 2 6 r1] p1 by auto
  obtain d r3 where p3: "r2 = d @ r3" "length d = 2" "4 \<le> length r3" using cut_field [of 2 4 r2] p2 by auto
  obtain l r4 where p4: "r3 = l @ r4" "length l = 2" "2 \<le> length r4" using cut_field [of 2 2 r3] p3 by auto
  obtain k r where p5: "r4 = k @ r" "length k = 2" using cut_field [of 2 0 r4] p4 by auto
  have p: "p = a @ s @ d @ l @ k @ r" using p1 p2 p3 p4 p5 by simp
  note len = p1(2) p2(2) p3(2) p4(2) p5(2)
  have "rewrite_udp udp m p = Some (a @ d @ s @ to_be16 (word_of_nat m + 8) @ [0, 0] @ r)"
    using assms by (simp add: rewrite_udp_def p len)
  then show ?thesis by (rule that) (simp_all add: p len)
qed

text \<open>Reading the name stays inside the packet.\<close>

lemma query_labels_total: "n \<le> length p \<Longrightarrow> query_labels p n i \<noteq> None"
proof (induction p n i rule: query_labels.induct)
  case (1 p n i)
  show ?case
  proof (cases "n \<le> i \<or> p ! i = 0 \<or> n < i + 1 + unat (p ! i)")
    case True
    then show ?thesis using 1 by (subst query_labels.simps) (auto simp: Option.bind_eq_None_conv)
  next
    case False
    then have l: "get_at i p = Some (p ! i)" "get_range (i + 1) (i + 1 + unat (p ! i)) p = Some (take (unat (p ! i)) (drop (i + 1) p))"
      using 1 by auto
    have "query_labels p n (i + 1 + unat (p ! i)) \<noteq> None"
      using 1 False l by auto
    then show ?thesis using False l by (subst query_labels.simps) (auto simp: l)
  qed
qed

lemma header_length_bounds: "header_length b \<le> 60" "even (header_length b)"
proof -
  have "(mask 4 :: u8) = 0x0F" by (simp add: mask_eq_exp_minus_1)
  then have "b AND 0x0F = take_bit 4 b" by (simp only: take_bit_eq_mask)
  then have "unat (b AND 0x0F) = unat b mod 16" by (simp only: unsigned_take_bit_eq) (simp add: take_bit_eq_mod)
  then show "header_length b \<le> 60" "even (header_length b)" by (simp_all add: header_length_def)
qed

lemma udp_offset_checked:
  assumes "n \<le> length p"
  shows "udp_offset p n = Some
    (if ip_version (p ! 0) = 4 \<and> 28 \<le> n \<and> p ! 9 = 17 \<and> header_length (p ! 0) + 20 \<le> n then Some (header_length (p ! 0))
     else if ip_version (p ! 0) = 6 \<and> 60 \<le> n \<and> p ! 6 = 17 then Some 40 else None)"
proof (cases "n < 1")
  case True
  then show ?thesis by (simp add: udp_offset_def)
next
  case False
  have r: "get_at 0 p = Some (p ! 0)" "\<not> n < 28 \<Longrightarrow> get_at 9 p = Some (p ! 9)" "\<not> n < 60 \<Longrightarrow> get_at 6 p = Some (p ! 6)"
    using False assms by (auto simp: get_at_def)
  show ?thesis using False by (simp add: udp_offset_def r)
qed

lemma udp_offset_bounds:
  assumes "udp_offset p n = Some (Some udp)" "n \<le> length p"
  shows "udp + 20 \<le> n" "28 \<le> n" "ip_version (p ! 0) = 4 \<and> udp = header_length (p ! 0) \<or> ip_version (p ! 0) = 6 \<and> udp = 40"
  using assms(1) by (auto simp: udp_offset_checked [OF assms(2)] split: if_splits)

text \<open>Every accepted packet, with what the checks established.\<close>

definition accepted :: "bytes \<Rightarrow> nat \<Rightarrow> string list \<Rightarrow> nat \<Rightarrow> string list \<Rightarrow> nat \<Rightarrow> bool" where
  "accepted p n ds udp labels j \<longleftrightarrow> udp_offset p n = Some (Some udp) \<and> standard_query p (udp + 8) = Some True
     \<and> query_labels p n (udp + 20) = Some (NameRead labels j) \<and> labels \<noteq> [] \<and> j + 4 \<le> n
     \<and> from_be16 (p ! j) (p ! (j + 1)) \<in> {1, 28} \<and> hook_matches (join ''.'' labels) ds"

definition reply :: "bytes \<Rightarrow> nat \<Rightarrow> nat \<Rightarrow> bytes" where
  "reply p udp j = answer_payload (take 2 (drop (udp + 8) p)) (take (j + 4 - (udp + 20)) (drop (udp + 20) p))
     (from_be16 (p ! j) (p ! (j + 1)))"

lemma query_labels_cases:
  assumes "query_labels p n i = Some (NameRead ls j)" "n \<le> length p"
  obtains "n \<le> i" "ls = []" "j = i"
  | "i < n" "p ! i = 0" "ls = []" "j = i + 1"
  | ls' where "i < n" "p ! i \<noteq> 0" "i + 1 + unat (p ! i) \<le> n"
      "ls = utf8_lossy (str_of (take (unat (p ! i)) (drop (i + 1) p))) # ls'"
      "query_labels p n (i + 1 + unat (p ! i)) = Some (NameRead ls' j)"
proof -
  consider "n \<le> i" | "i < n" "p ! i = 0" | "i < n" "p ! i \<noteq> 0" "n < i + 1 + unat (p ! i)"
    | "i < n" "p ! i \<noteq> 0" "i + 1 + unat (p ! i) \<le> n" by linarith
  then show thesis
  proof cases
    case 1
    then have "query_labels p n i = Some (NameRead [] i)" by (subst query_labels.simps) simp
    with assms(1) have "ls = []" "j = i" by simp_all
    with 1 show thesis by (rule that(1))
  next
    case 2
    then have "query_labels p n i = Some (NameRead [] (i + 1))" using assms(2) by (subst query_labels.simps) simp
    with assms(1) have "ls = []" "j = i + 1" by simp_all
    with 2 show thesis by (rule that(2))
  next
    case 3
    then have "query_labels p n i = Some Malformed" using assms(2) by (subst query_labels.simps) simp
    with assms(1) show thesis by simp
  next
    case 4
    then have r: "get_at i p = Some (p ! i)"
      "get_range (i + 1) (i + 1 + unat (p ! i)) p = Some (take (unat (p ! i)) (drop (i + 1) p))"
      using assms(2) by auto
    obtain x where x: "query_labels p n (i + 1 + unat (p ! i)) = Some x"
      using query_labels_total [OF assms(2)] by blast
    have "query_labels p n i = Some (case x of Malformed \<Rightarrow> Malformed
        | NameRead ls j \<Rightarrow> NameRead (utf8_lossy (str_of (take (unat (p ! i)) (drop (i + 1) p))) # ls) j)"
      using 4 r x by (cases x; subst query_labels.simps; simp)
    then obtain ls' where "x = NameRead ls' j" "ls = utf8_lossy (str_of (take (unat (p ! i)) (drop (i + 1) p))) # ls'"
      using assms(1) by (cases x) auto
    then show thesis using that(3) [OF 4] x by simp
  qed
qed

lemma query_labels_end:
  "query_labels p n i = Some (NameRead ls j) \<Longrightarrow> n \<le> length p \<Longrightarrow> j < n \<Longrightarrow> i < j \<and> p ! (j - 1) = 0"
proof (induction p n i arbitrary: ls j rule: query_labels.induct)
  case (1 p n i)
  show ?case
  proof (cases rule: query_labels_cases [OF 1(2,3)])
    case (3 ls')
    then have "get_at i p = Some (p ! i)"
      "get_range (i + 1) (i + 1 + unat (p ! i)) p = Some (take (unat (p ! i)) (drop (i + 1) p))"
      using 1(3) by auto
    then show ?thesis using 1(1) [OF _ _ _ _ _ 3(5) 1(3,4)] 3 by fastforce
  qed (use 1 in auto)
qed

lemma skip_labels_reads:
  assumes "query_labels p n i = Some (NameRead ls j)" "n \<le> length p" "j < n" "d \<le> i"
    and "\<forall>k. i \<le> k \<longrightarrow> k < j \<longrightarrow> k - d < length buf \<and> buf ! (k - d) = p ! k"
  shows "skip_labels buf (i - d) = j - 1 - d"
  using assms
proof (induction p n i arbitrary: ls rule: query_labels.induct)
  case (1 p n i)
  show ?case
  proof (cases rule: query_labels_cases [OF 1(2,3)])
    case 1
    then show ?thesis using \<open>j < n\<close> by simp
  next
    case 2
    then show ?thesis using 1(5,6) by (subst skip_labels.simps) auto
  next
    case (3 ls')
    let ?i = "i + 1 + unat (p ! i)"
    have r: "get_at i p = Some (p ! i)" "get_range (i + 1) ?i p = Some (take (unat (p ! i)) (drop (i + 1) p))"
      using 3 1(3) by auto
    have "?i < j" using query_labels_end [OF 3(5) 1(3,4)] by simp
    then have b: "i - d < length buf" "buf ! (i - d) = p ! i" using 1(6) by auto
    have "skip_labels buf (?i - d) = j - 1 - d"
      using 1(1) [OF _ r(1) 3(2) _ r(2) 3(5) 1(3,4)] 3 1(5,6) by auto
    moreover have "i - d + (1 + unat (p ! i)) = ?i - d" using 1(5) by simp
    ultimately show ?thesis using b 3(2) by (subst skip_labels.simps) (simp del: One_nat_def)
  qed
qed

definition loopback_for :: "qtype \<Rightarrow> ipaddr" where
  "loopback_for q = (case q of TypeA \<Rightarrow> V4 [127, 0, 0, 1] | TypeAaaa \<Rightarrow> V6 (replicate 15 0 @ [1]))"

text \<open>The answer record, in the vocabulary of the wire format.\<close>

definition loopback_rr :: "qtype \<Rightarrow> rr" where
  "loopback_rr q = \<lparr>rr_owner = Pointer 0x0C, rr_type = qcode q, rr_class = 1, rr_ttl = 300,
     rr_data = octets (loopback_for q)\<rparr>"

lemma loopback_record_wire: "loopback_record (qcode q) = rr_wire (loopback_rr q)"
  by (cases q) (simp_all add: loopback_record_def loopback_rr_def loopback_for_def rr_wire_def to_be16_def)

lemma length_loopback_record: "length (loopback_record qty) \<le> 28" "12 \<le> length (loopback_record qty)"
  by (simp_all add: loopback_record_def)

lemma length_reply:
  "udp + 20 \<le> j \<Longrightarrow> j + 4 \<le> length p \<Longrightarrow>
     length (reply p udp j) = j - udp - 4 + length (loopback_record (from_be16 (p ! j) (p ! (j + 1))))"
  by (simp add: reply_def answer_payload_def)

lemma reply_parsed:
  assumes "query_labels p n (udp + 20) = Some (NameRead labels j)" "j + 4 \<le> n" "n \<le> length p"
    and q: "from_be16 (p ! j) (p ! (j + 1)) = qcode q"
  shows "parse_a_response (reply p udp j) q = Inr ([loopback_for q], 300)"
proof -
  let ?id = "take 2 (drop (udp + 8) p)" and ?qn = "take (j + 4 - (udp + 20)) (drop (udp + 20) p)"
  let ?b = "reply p udp j"
  have j: "udp + 20 < j" using query_labels_end [OF assms(1,3)] assms(2) by simp
  define h where "h = ?id @ [0x81, 0x80, 0, 1, 0, 1, 0, 0, 0, 0]"
  have b: "?b = (h @ ?qn) @ rr_wire (loopback_rr q) @ []"
    unfolding reply_def answer_payload_def h_def q loopback_record_wire by simp
  have lid: "length ?id = 2" using assms(2,3) j by simp
  have lh: "length h = 12" using lid by (simp add: h_def)
  have lq: "length ?qn = j + 4 - (udp + 20)" using assms(2,3) by simp
  have lb: "12 \<le> length ?b" unfolding b using lh by simp
  have "?b ! 6 = h ! 6" "?b ! 7 = h ! 7" unfolding b using lh by (simp_all add: nth_append)
  moreover have "h ! 6 = 0" "h ! 7 = 1" using lid by (simp_all add: h_def nth_append)
  ultimately have an: "unat (from_be16 (?b ! 6) (?b ! 7)) = Suc 0" by (simp add: unat_from_be16)
  have "\<forall>k. udp + 20 \<le> k \<longrightarrow> k < j \<longrightarrow> k - (udp + 8) < length ?b \<and> ?b ! (k - (udp + 8)) = p ! k"
  proof (intro allI impI)
    fix k assume k: "udp + 20 \<le> k" "k < j"
    have e: "k - (udp + 8) = length h + (k - (udp + 20))" using k(1) lh by simp
    have lt: "k - (udp + 20) < length ?qn" using k lq by simp
    have "?b ! (k - (udp + 8)) = ?qn ! (k - (udp + 20))"
      unfolding b e append.assoc nth_append_length_plus using lt by (rule nth_append_left)
    then show "k - (udp + 8) < length ?b \<and> ?b ! (k - (udp + 8)) = p ! k"
      unfolding b using k lt e lh assms(2,3) by auto
  qed
  then have "skip_labels ?b (udp + 20 - (udp + 8)) = j - 1 - (udp + 8)"
    using skip_labels_reads [OF assms(1,3), of "udp + 8" ?b] assms(2) by simp
  then have sk: "skip_labels ?b 12 + 5 = length (h @ ?qn)" using j lh lq by simp
  have w: "wf_rr (loopback_rr q)" by (cases q) (simp_all add: wf_rr_def loopback_rr_def loopback_for_def)
  have "parse_answers (Suc 0) ?b q (skip_labels ?b 12 + 5) [] u32_max = ([loopback_for q], 300)"
    unfolding sk unfolding b rr_parse [OF w]
    by (cases q) (simp_all add: rr_addr_def loopback_rr_def loopback_for_def u32_max_def)
  then show ?thesis using lb unfolding parse_a_response_def Let_def an by (simp add: u32_max_def)
qed

section \<open>Every outcome of the rewrite\<close>

definition rewritten :: "bytes \<Rightarrow> nat \<Rightarrow> nat \<Rightarrow> bytes option" where
  "rewritten p udp j = (let resp = reply p udp j in do {
     p1 \<leftarrow> set_range (udp + 8) resp p;
     p2 \<leftarrow> (if ip_version (p ! 0) = 4 then rewrite_ipv4 udp (udp + 8 + length resp) p1
           else rewrite_ipv6 (length resp) p1);
     rewrite_udp udp (length resp) p2
   })"

lemma modify_accepted:
  assumes "accepted p n ds udp labels j" "n \<le> length p"
  shows "modify_dns_packet p n addr ds =
    (if length p < udp + 8 + length (reply p udp j) then Some (None, p, n, addr)
     else map_option (\<lambda>p'. (Some (join ''.'' labels), p', udp + 8 + length (reply p udp j), mark_addr (ip_version (p ! 0)) addr))
       (rewritten p udp j))"
proof -
  note a = assms(1) [unfolded accepted_def]
  have u: "udp + 20 \<le> n" using a udp_offset_bounds assms(2) by blast
  have j: "udp + 20 \<le> j" using query_labels_end [of p n "udp + 20" labels j] a assms(2) by auto
  have g: "get_range j (j + 2) p = Some [p ! j, p ! (j + 1)]"
    using a assms(2) by (auto simp: take_Suc_conv_app_nth numeral_2_eq_2 get_range_def)
  have r: "get_range (udp + 8) (udp + 8 + 2) p = Some (take 2 (drop (udp + 8) p))"
    "get_range (udp + 20) (j + 4) p = Some (take (j + 4 - (udp + 20)) (drop (udp + 20) p))"
    "get_at 0 p = Some (p ! 0)"
    using u j a assms(2) by (auto simp: get_range_def get_at_def add.commute)
  have e: "udp + 8 + 12 = udp + 20" by simp
  have w: "reply p udp j = answer_payload (take 2 (drop (udp + 8) p)) (take (j + 4 - (udp + 20)) (drop (udp + 20) p))
      (from_be16 ([p ! j, p ! (j + 1)] ! 0) ([p ! j, p ! (j + 1)] ! 1))"
    by (simp add: reply_def)
  let ?q = "from_be16 ([p ! j, p ! (j + 1)] ! 0) ([p ! j, p ! (j + 1)] ! 1)"
  have c: "(labels = []) = False" "(n < j + 4) = False" "(?q \<noteq> 1 \<and> ?q \<noteq> 28) = False" "hook_matches (join ''.'' labels) ds = True"
    using a by auto
  show ?thesis
    unfolding modify_dns_packet_def Let_def
    by (simp only: a(1) a [THEN conjunct2, THEN conjunct1] a [THEN conjunct2, THEN conjunct2, THEN conjunct1]
        bind.bind_lunit option.case name_read.case e g r c simp_thms if_True if_False
        w [symmetric] rewritten_def Let_def map_conv_bind_option comp_def Option.bind_assoc)
qed

lemma modify_rejected:
  assumes "n \<le> length p" "\<nexists>udp labels j. accepted p n ds udp labels j"
  shows "modify_dns_packet p n addr ds = Some (None, p, n, addr)"
proof -
  obtain off where off: "udp_offset p n = Some off" using udp_offset_checked [OF assms(1)] by blast
  show ?thesis
  proof (cases off)
    case None
    then show ?thesis by (simp add: modify_dns_packet_def off)
  next
    case (Some udp)
    have u: "udp + 20 \<le> n" using udp_offset_bounds(1) [OF _ assms(1)] off Some by simp
    obtain ok where ok: "standard_query p (udp + 8) = Some ok"
      using u assms(1) by (simp add: standard_query_def)
    obtain nm where nm: "query_labels p n (udp + 20) = Some nm" using query_labels_total [OF assms(1)] by blast
    have e: "udp + 8 + 12 = udp + 20" by simp
    have reject: "labels = [] \<or> n < j + 4 \<or> from_be16 (p ! j) (p ! (j + 1)) \<notin> {1, 28} \<or> \<not> hook_matches (join ''.'' labels) ds"
      if "nm = NameRead labels j" "ok" for labels j
      using assms(2) off Some ok nm that unfolding accepted_def by fastforce
    show ?thesis
    proof (cases "ok \<and> nm \<noteq> Malformed")
      case False
      then show ?thesis using Some unfolding modify_dns_packet_def Let_def
        by (cases ok; cases nm) (simp_all only: off ok nm e option.case bind.bind_lunit name_read.case simp_thms
          if_True if_False name_read.distinct)
    next
      case True
      then obtain labels j where lj: "nm = NameRead labels j" by (cases nm) auto
      have g: "get_range j (j + 2) p = Some [p ! j, p ! (j + 1)]" if "\<not> n < j + 4"
        using that assms(1) by (auto simp: take_Suc_conv_app_nth numeral_2_eq_2 get_range_def)
      show ?thesis
      proof (cases "labels = [] \<or> n < j + 4")
        case True
        then show ?thesis using Some \<open>ok \<and> nm \<noteq> Malformed\<close> lj
          unfolding modify_dns_packet_def Let_def by (simp only: off ok nm e option.case bind.bind_lunit name_read.case simp_thms if_True if_False)
      next
        case False
        then have "(from_be16 ([p ! j, p ! (j + 1)] ! 0) ([p ! j, p ! (j + 1)] ! 1) \<noteq> 1 \<and>
            from_be16 ([p ! j, p ! (j + 1)] ! 0) ([p ! j, p ! (j + 1)] ! 1) \<noteq> 28) \<or> \<not> hook_matches (join ''.'' labels) ds"
          using reject [OF lj] \<open>ok \<and> nm \<noteq> Malformed\<close> by auto
        moreover have g': "get_range j (j + 2) p = Some [p ! j, p ! (j + 1)]" using False g by blast
        ultimately show ?thesis using Some \<open>ok \<and> nm \<noteq> Malformed\<close> lj False
          unfolding modify_dns_packet_def Let_def
          by (simp only: off ok nm e g' option.case bind.bind_lunit name_read.case simp_thms if_True if_False)
      qed
    qed
  qed
qed

lemma take_agree: "take m a = take m b \<Longrightarrow> i + k \<le> m \<Longrightarrow> take k (drop i a) = take k (drop i b)"
proof -
  assume a: "take m a = take m b" "i + k \<le> m"
  then have "take (i + k) (take m a) = take (i + k) (take m b)" by simp
  then show ?thesis using a(2) by (simp add: take_drop min_def add.commute)
qed

lemma drop_agree: "drop m a = drop m b \<Longrightarrow> m \<le> i \<Longrightarrow> drop i a = drop i b"
  by (metis drop_drop le_add_diff_inverse2)

text \<open>The last stage, on a packet whose bytes from the UDP header on are those of the payload stage.\<close>

lemma udp_stage:
  assumes "udp + 8 + length r \<le> length p" "length p2 = length p"
  obtains p3 where "rewrite_udp udp (length r) p2 = Some p3" "length p3 = length p"
    "\<And>i k. i + k \<le> udp \<Longrightarrow> take k (drop i p3) = take k (drop i p2)"
    "drop udp p2 = drop udp (put_slice (udp + 8) r p) \<Longrightarrow> take (length r) (drop (udp + 8) p3) = r"
    "drop udp p2 = drop udp (put_slice (udp + 8) r p) \<Longrightarrow> take 8 (drop udp p3) =
       take 2 (drop (udp + 2) p) @ take 2 (drop udp p) @ to_be16 (word_of_nat (length r) + 8) @ [0, 0]"
proof -
  let ?p1 = "put_slice (udp + 8) r p"
  obtain p3 where p3: "rewrite_udp udp (length r) p2 = Some p3" "length p3 = length p2" "take udp p3 = take udp p2"
      "drop (udp + 8) p3 = drop (udp + 8) p2"
      "take 8 (drop udp p3) = take 2 (drop (udp + 2) p2) @ take 2 (drop udp p2) @ to_be16 (word_of_nat (length r) + 8) @ [0, 0]"
    using rewrite_udp_result [of udp p2 "length r"] assms by auto
  have p1: "take (udp + 8) ?p1 = take (udp + 8) p" "take (length r) (drop (udp + 8) ?p1) = r"
    using assms(1) by (simp_all add: put_slice_def)
  show thesis
  proof (rule that [OF p3(1)])
    show "length p3 = length p" using p3(2) assms(2) by simp
    show "take k (drop i p3) = take k (drop i p2)" if "i + k \<le> udp" for i k by (rule take_agree [OF p3(3) that])
  next
    assume d: "drop udp p2 = drop udp ?p1"
    have "drop (udp + 8) p2 = drop (udp + 8) ?p1" "drop (udp + 2) p2 = drop (udp + 2) ?p1"
      by (rule drop_agree [OF d]; simp)+
    then show "take (length r) (drop (udp + 8) p3) = r"
      "take 8 (drop udp p3) = take 2 (drop (udp + 2) p) @ take 2 (drop udp p) @ to_be16 (word_of_nat (length r) + 8) @ [0, 0]"
      using p3(4,5) p1(2) d take_agree [OF p1(1), of udp 2] take_agree [OF p1(1), of "udp + 2" 2] by simp_all
  qed
qed

lemma rewritten_result:
  assumes "n \<le> length p" "udp_offset p n = Some (Some udp)" "udp + 8 + length (reply p udp j) \<le> length p"
  obtains p' where "rewritten p udp j = Some p'" "length p' = length p"
    "20 \<le> udp \<Longrightarrow> take (length (reply p udp j)) (drop (udp + 8) p') = reply p udp j"
    "20 \<le> udp \<Longrightarrow> take 8 (drop udp p') = take 2 (drop (udp + 2) p) @ take 2 (drop udp p) @
       to_be16 (word_of_nat (length (reply p udp j)) + 8) @ [0, 0]"
    "20 \<le> udp \<Longrightarrow> ip_version (p ! 0) = 4 \<Longrightarrow> ip_checksum (take udp p') = 0
       \<and> take 4 (drop 12 p') = take 4 (drop 16 p) \<and> take 4 (drop 16 p') = take 4 (drop 12 p)
       \<and> take 2 (drop 2 p') = to_be16 (word_of_nat (udp + 8 + length (reply p udp j)))"
    "ip_version (p ! 0) = 6 \<Longrightarrow> take 16 (drop 8 p') = take 16 (drop 24 p) \<and> take 16 (drop 24 p') = take 16 (drop 8 p)"
proof -
  let ?r = "reply p udp j" and ?m = "udp + 8 + length (reply p udp j)"
  let ?p1 = "put_slice (udp + 8) ?r p"
  note u = udp_offset_bounds [OF assms(2,1)]
  have ub: "udp \<le> 60" using u(3) header_length_bounds(1) [of "p ! 0"] by auto
  have p1: "set_range (udp + 8) ?r p = Some ?p1" "length ?p1 = length p" "take (udp + 8) ?p1 = take (udp + 8) p"
    using assms(1,3) u by (simp_all add: put_slice_def)
  note low = take_agree [OF p1(3)]
  show thesis
  proof (cases "ip_version (p ! 0) = 4")
    case True
    obtain p2 where p2: "rewrite_ipv4 udp ?m ?p1 = Some p2" "length p2 = length ?p1" "drop 20 p2 = drop 20 ?p1"
        "take 4 (drop 12 p2) = take 4 (drop 16 ?p1)" "take 4 (drop 16 p2) = take 4 (drop 12 ?p1)"
        "take 2 (drop 2 p2) = to_be16 (word_of_nat ?m)" "take 2 p2 = take 2 ?p1"
        "20 \<le> udp \<Longrightarrow> udp \<le> 65535 \<Longrightarrow> ip_checksum (take udp p2) = 0"
      using rewrite_ipv4_result [of ?p1 udp ?m] u(1,2) assms(1) p1(2) by auto
    obtain p3 where p3: "rewrite_udp udp (length ?r) p2 = Some p3" "length p3 = length p"
        "\<And>i k. i + k \<le> udp \<Longrightarrow> take k (drop i p3) = take k (drop i p2)"
        "drop udp p2 = drop udp ?p1 \<Longrightarrow> take (length ?r) (drop (udp + 8) p3) = ?r"
        "drop udp p2 = drop udp ?p1 \<Longrightarrow> take 8 (drop udp p3) = take 2 (drop (udp + 2) p) @ take 2 (drop udp p) @
           to_be16 (word_of_nat (length ?r) + 8) @ [0, 0]"
      using udp_stage [OF assms(3), of p2] p2(2) p1(2) by auto
    have "rewritten p udp j = Some p3" using p1(1) p2(1) p3(1) True by (simp add: rewritten_def Let_def)
    then show thesis
      by (rule that) (use p3 p2 drop_agree [OF p2(3), of udp] ub True p3(3) [of 0 udp] p3(3) [of 12 4] p3(3) [of 16 4]
          p3(3) [of 2 2] low [of 12 4] low [of 16 4] in simp_all)
  next
    case False
    then have v: "ip_version (p ! 0) = 6" "udp = 40" using u(3) by auto
    obtain p2 where p2: "rewrite_ipv6 (length ?r) ?p1 = Some p2" "length p2 = length ?p1" "drop 40 p2 = drop 40 ?p1"
        "take 16 (drop 8 p2) = take 16 (drop 24 ?p1)" "take 16 (drop 24 p2) = take 16 (drop 8 ?p1)" "take 4 p2 = take 4 ?p1"
      using rewrite_ipv6_result [of ?p1 "length ?r"] u(1) v assms(1) p1(2) by auto
    obtain p3 where p3: "rewrite_udp udp (length ?r) p2 = Some p3" "length p3 = length p"
        "\<And>i k. i + k \<le> udp \<Longrightarrow> take k (drop i p3) = take k (drop i p2)"
        "drop udp p2 = drop udp ?p1 \<Longrightarrow> take (length ?r) (drop (udp + 8) p3) = ?r"
        "drop udp p2 = drop udp ?p1 \<Longrightarrow> take 8 (drop udp p3) = take 2 (drop (udp + 2) p) @ take 2 (drop udp p) @
           to_be16 (word_of_nat (length ?r) + 8) @ [0, 0]"
      using udp_stage [OF assms(3), of p2] p2(2) p1(2) by auto
    have "rewritten p udp j = Some p3" using p1(1) p2(1) p3(1) False by (simp add: rewritten_def Let_def)
    then show thesis
      by (rule that) (use p3 p2 False v p3(3) [of 8 16] p3(3) [of 24 16] low [of 8 16] low [of 24 16] in simp_all)
  qed
qed

lemma query_labels_name:
  assumes "list_all wf_label ls" "\<forall>l\<in>set ls. is_ascii l" "length pre + length (name_wire ls) \<le> n"
  shows "query_labels (pre @ name_wire ls @ post) n (length pre) = Some (NameRead ls (length pre + length (name_wire ls)))"
  using assms
proof (induction ls arbitrary: pre)
  case Nil
  then show ?case by (subst query_labels.simps) (simp add: name_wire_def)
next
  case (Cons l ls)
  let ?b = "pre @ name_wire (l # ls) @ post"
  have nw: "name_wire (l # ls) = (word_of_nat (length l) # bytes_of l) @ name_wire ls" by (simp add: name_wire_def)
  have l: "0 < length l" "length l < 256" using Cons.prems by (auto simp: wf_label_def)
  have u: "unat (word_of_nat (length l) :: u8) = length l" using l by simp
  then have nz: "(word_of_nat (length l) :: u8) \<noteq> 0" using l(1) by (metis unsigned_0 less_irrefl)
  have r: "get_at (length pre) ?b = Some (word_of_nat (length l))"
    "get_range (length pre + 1) (length pre + 1 + length l) ?b = Some (bytes_of l)"
    by (simp_all add: nw get_at_def get_range_def nth_append)
  have ih: "query_labels ?b n (length pre + 1 + length l) = Some (NameRead ls (length pre + length (name_wire (l # ls))))"
    using Cons.IH [of "pre @ word_of_nat (length l) # bytes_of l"] Cons.prems by (simp add: nw add.commute add.left_commute)
  have lim: "\<not> n \<le> length pre" "\<not> n < length pre + 1 + length l" using Cons.prems(3) by (simp_all add: nw)
  show ?case
    using Cons.prems(2) nz utf8_lossy_ascii [of l]
    by (subst query_labels.simps) (simp only: r u ih lim bind.bind_lunit if_False option.case name_read.case str_of_bytes_of, simp)
qed

lemma modify_keeps_buffer:
  assumes "n \<le> length p"
  shows "\<exists>r p' n' addr'. modify_dns_packet p n addr ds = Some (r, p', n', addr') \<and> length p' = length p
    \<and> n' \<le> length p \<and> length addr' = length addr \<and> (r = None \<longrightarrow> p' = p \<and> n' = n \<and> addr' = addr)"
proof (cases "\<exists>udp labels j. accepted p n ds udp labels j")
  case False
  then show ?thesis using modify_rejected [OF assms] assms by blast
next
  case True
  then obtain udp labels j where a: "accepted p n ds udp labels j" by blast
  show ?thesis
  proof (cases "length p < udp + 8 + length (reply p udp j)")
    case True
    then show ?thesis using modify_accepted [OF a assms, of addr] assms by simp
  next
    case False
    then obtain p' where "rewritten p udp j = Some p'" "length p' = length p"
      using rewritten_result [OF assms, of udp j] a unfolding accepted_def by (metis not_le_imp_less)
    then show ?thesis using modify_accepted [OF a assms, of addr] False by (simp add: mark_addr_def)
  qed
qed

section \<open>The capture loop\<close>

text \<open>The stop flag is read before each receive; the driver then delivers a packet into the front of
  the buffer, which keeps what it held behind it. \<open>calc\<close> is the checksum helper of the driver.\<close>

datatype capture = Stopped | RecvFailed | Captured bytes bytes

fun capture_loop :: "(bytes \<Rightarrow> nat \<Rightarrow> bytes \<Rightarrow> bytes) \<Rightarrow> string list \<Rightarrow> bytes \<Rightarrow> capture list \<Rightarrow> (bytes \<times> bytes) list option" where
  "capture_loop calc domains buf [] = Some []"
| "capture_loop calc domains buf (Stopped # _) = Some []"
| "capture_loop calc domains buf (RecvFailed # _) = Some []"
| "capture_loop calc domains buf (Captured pkt addr # es) =
     (let n = length pkt in
      if n = 0 \<or> length buf < n then capture_loop calc domains buf es
      else do {
        (hit, buf, len, addr) \<leftarrow> modify_dns_packet (pkt @ drop n buf) n addr domains;
        let buf = (if hit = None then buf else calc buf len addr);
        sent \<leftarrow> capture_loop calc domains buf es;
        Some ((take len buf, addr) # sent)
      })"

text \<open>The name for the log of a packet that was left alone.\<close>

definition peek_query_name :: "bytes \<Rightarrow> string option" where
  "peek_query_name p = (let n = length p in
     if n < 1 then None
     else if \<not> ((ip_version (p ! 0) = 4 \<and> 28 \<le> n \<and> p ! 9 = 17) \<or> (ip_version (p ! 0) = 6 \<and> 48 \<le> n \<and> p ! 6 = 17)) then None
     else (let dns = (if ip_version (p ! 0) = 4 then header_length (p ! 0) + 8 else 48) in
       if n < dns + 14 \<or> p ! (dns + 2) AND 0x80 \<noteq> 0 then None
       else (case query_labels p n (dns + 12) of
           Some (NameRead labels _) \<Rightarrow> if labels = [] then None else Some (join ''.'' labels)
         | _ \<Rightarrow> None)))"

section \<open>Properties\<close>

text \<open>C25. The hook never panics: whatever bytes were captured, with a recorded length inside the buffer,
  every index and range is in bounds; the buffer and the address keep their sizes, the new length
  is inside the buffer, and a packet that is not answered is left exactly as it was.\<close>

theorem hook_never_panics:
  assumes "n \<le> length p"
  shows "\<exists>r p' n' addr'. modify_dns_packet p n addr ds = Some (r, p', n', addr') \<and> length p' = length p
    \<and> n' \<le> length p \<and> length addr' = length addr \<and> (r = None \<longrightarrow> p' = p \<and> n' = n \<and> addr' = addr)"
  by (rule modify_keeps_buffer [OF assms])

text \<open>C24. An answered query gets the loopback address, as a resolver reads it: when the hook answers a
  packet with a proper IP header, the name is one the patterns match, and the DNS message that
  leaves the machine, read by the resolver's own parser, is one loopback address of the family
  that was asked for, with a lifetime of five minutes, under the transaction id of the query.\<close>

theorem hook_answers_loopback:
  assumes "n \<le> length p" "modify_dns_packet p n addr ds = Some (Some domain, p', n', addr')"
    and "ip_version (p ! 0) = 4 \<longrightarrow> 20 \<le> header_length (p ! 0)"
  shows "\<exists>udp labels j q. udp_offset p n = Some (Some udp)
    \<and> query_labels p n (udp + 20) = Some (NameRead labels j) \<and> domain = join ''.'' labels \<and> hook_matches domain ds
    \<and> from_be16 (p ! j) (p ! (j + 1)) = qcode q
    \<and> take 2 (drop (udp + 8) p') = take 2 (drop (udp + 8) p)
    \<and> parse_a_response (take (n' - (udp + 8)) (drop (udp + 8) p')) q = Inr ([loopback_for q], 300)"
proof -
  obtain udp labels j where a: "accepted p n ds udp labels j"
    using assms(2) modify_rejected [OF assms(1)] by (metis option.distinct(1) option.inject prod.inject)
  have fits: "udp + 8 + length (reply p udp j) \<le> length p"
    using assms(2) modify_accepted [OF a assms(1), of addr] by (auto split: if_splits)
  have off: "udp_offset p n = Some (Some udp)" and nm: "query_labels p n (udp + 20) = Some (NameRead labels j)"
    and j: "j + 4 \<le> n" and ty: "from_be16 (p ! j) (p ! (j + 1)) \<in> {1, 28}" and hit: "hook_matches (join ''.'' labels) ds"
    using a by (auto simp: accepted_def)
  have u: "20 \<le> udp" "udp + 20 \<le> n" using udp_offset_bounds [OF off assms(1)] assms(3) by auto
  obtain q where q: "from_be16 (p ! j) (p ! (j + 1)) = qcode q"
    using ty by (cases "from_be16 (p ! j) (p ! (j + 1)) = 1") (auto intro: that [of TypeA] that [of TypeAaaa])
  obtain p2 where p2: "rewritten p udp j = Some p2" "take (length (reply p udp j)) (drop (udp + 8) p2) = reply p udp j"
    using rewritten_result [OF assms(1) off fits] u(1) by metis
  have r: "domain = join ''.'' labels" "p' = p2" "n' = udp + 8 + length (reply p udp j)"
    using assms(2) modify_accepted [OF a assms(1), of addr] p2(1) fits by (auto split: if_splits)
  have "take 2 (reply p udp j) = take 2 (drop (udp + 8) p)" "2 \<le> length (reply p udp j)"
    using u assms(1) by (simp_all add: reply_def answer_payload_def)
  moreover have "take 2 (drop (udp + 8) p2) = take 2 (take (length (reply p udp j)) (drop (udp + 8) p2))"
    using calculation(2) by (simp add: min_def)
  ultimately have "take 2 (drop (udp + 8) p') = take 2 (drop (udp + 8) p)" by (simp add: r(2) p2(2))
  moreover have "take (n' - (udp + 8)) (drop (udp + 8) p') = reply p udp j" using p2(2) r by simp
  ultimately show ?thesis using off nm hit r(1) q reply_parsed [OF nm j assms(1) q] by auto
qed

text \<open>The answer goes back to the client that asked: for a packet with a proper IP header the UDP ports
  are swapped and the UDP length is that of the answer; on IPv4 the addresses are swapped, the
  total length is the new packet length and the header checksum is right; on IPv6 the addresses
  are swapped.\<close>

theorem hook_reply_is_routed_back:
  assumes "n \<le> length p" "modify_dns_packet p n addr ds = Some (Some domain, p', n', addr')"
    and "ip_version (p ! 0) = 4 \<longrightarrow> 20 \<le> header_length (p ! 0)"
  shows "\<exists>udp. udp_offset p n = Some (Some udp)
    \<and> take 8 (drop udp p') = take 2 (drop (udp + 2) p) @ take 2 (drop udp p) @ to_be16 (word_of_nat (n' - udp)) @ [0, 0]
    \<and> (if ip_version (p ! 0) = 4
       then ip_checksum (take udp p') = 0 \<and> take 2 (drop 2 p') = to_be16 (word_of_nat n')
         \<and> take 4 (drop 12 p') = take 4 (drop 16 p) \<and> take 4 (drop 16 p') = take 4 (drop 12 p)
       else take 16 (drop 8 p') = take 16 (drop 24 p) \<and> take 16 (drop 24 p') = take 16 (drop 8 p))"
proof -
  obtain udp labels j where a: "accepted p n ds udp labels j"
    using assms(2) modify_rejected [OF assms(1)] by (metis option.distinct(1) option.inject prod.inject)
  let ?r = "reply p udp j"
  have fits: "udp + 8 + length ?r \<le> length p"
    using assms(2) modify_accepted [OF a assms(1), of addr] by (auto split: if_splits)
  have off: "udp_offset p n = Some (Some udp)" using a by (auto simp: accepted_def)
  note ub = udp_offset_bounds [OF off assms(1)]
  have u: "20 \<le> udp" using ub(3) assms(3) by auto
  obtain p2 where p2: "rewritten p udp j = Some p2"
      "take 8 (drop udp p2) = take 2 (drop (udp + 2) p) @ take 2 (drop udp p) @ to_be16 (word_of_nat (length ?r) + 8) @ [0, 0]"
      "ip_version (p ! 0) = 4 \<Longrightarrow> ip_checksum (take udp p2) = 0
         \<and> take 4 (drop 12 p2) = take 4 (drop 16 p) \<and> take 4 (drop 16 p2) = take 4 (drop 12 p)
         \<and> take 2 (drop 2 p2) = to_be16 (word_of_nat (udp + 8 + length ?r))"
      "ip_version (p ! 0) = 6 \<Longrightarrow> take 16 (drop 8 p2) = take 16 (drop 24 p) \<and> take 16 (drop 24 p2) = take 16 (drop 8 p)"
    using rewritten_result [OF assms(1) off fits] u by metis
  have r: "p' = p2" "n' = udp + 8 + length ?r"
    using assms(2) modify_accepted [OF a assms(1), of addr] p2(1) fits by (auto split: if_splits)
  have "n' - udp = length ?r + 8" using r(2) by simp
  then have l: "word_of_nat (n' - udp) = (word_of_nat (length ?r) + 8 :: u16)" by simp
  show ?thesis using off p2 ub(3) unfolding r(1) l r(2) by (auto simp: add.commute [of _ "8 :: u16"])
qed

text \<open>No query for a steered host slips through: every A or AAAA query as the application's own builder
  writes it, for a name the patterns match, in an IPv4 datagram inside a buffer with 28 bytes to
  spare, is answered.\<close>

theorem hook_answers_built_queries:
  assumes "list_all wf_label (split_on CHR ''.'' host)" "is_ascii host" "length (name_wire (split_on CHR ''.'' host)) \<le> 4080"
    and "hook_matches host ds"
    and "ip_version (hd iph) = 4" "header_length (hd iph) = length iph" "20 \<le> length iph" "iph ! 9 = 17"
    and "length udph = 8" "28 \<le> length spare"
  shows "\<exists>w p' n' addr'. build_a_query_with_id host i q 4096 = Built w
    \<and> modify_dns_packet (iph @ udph @ w @ spare) (length iph + 8 + length w) addr ds = Some (Some host, p', n', addr')"
proof -
  let ?ls = "split_on CHR ''.'' host" and ?h = "query_header i"
  let ?w = "?h @ name_wire ?ls @ to_be16 (qcode q) @ [0, 1]"
  let ?p = "iph @ udph @ ?w @ spare" and ?n = "length iph + 8 + length ?w"
  let ?u = "length iph" and ?j = "length (iph @ udph @ ?h) + length (name_wire ?ls)"
  have w: "build_a_query_with_id host i q 4096 = Built ?w" using assms(1,3) by (intro build_query_wire) auto
  have h: "length ?h = 12" "?h ! 2 = 1" "?h ! 4 = 0" "?h ! 5 = 1" by (simp_all add: query_header_def to_be16_def)
  have n: "?n \<le> length ?p" using assms(9) by simp
  have ne: "iph \<noteq> []" using assms(7) by auto
  have nth: "?p ! 0 = hd iph" "?p ! 9 = iph ! 9" using ne assms(7) by (simp_all add: nth_append hd_conv_nth)
  have off: "udp_offset ?p ?n = Some (Some ?u)"
    unfolding udp_offset_checked [OF n] nth using assms(5,6,7,8) h(1) by simp
  have at: "?p ! (?u + 8 + k) = ?h ! k" if "k < 12" for k
    using that h(1) assms(9) by (simp add: nth_append)
  have "standard_query ?p (?u + 8) = Some True"
    using at [of 2] at [of 4] at [of 5] h n assms(9) by (simp add: standard_query_def add.assoc)
  moreover have "\<forall>l\<in>set ?ls. is_ascii l"
  proof
    fix l assume "l \<in> set ?ls"
    then have "set l \<subseteq> set host" by (rule set_split_on)
    then show "is_ascii l" using assms(2) by (auto simp: is_ascii_def list_all_iff)
  qed
  then have "query_labels ?p ?n (?u + 20) = Some (NameRead ?ls ?j)"
    using query_labels_name [OF assms(1), of "iph @ udph @ ?h" ?n "to_be16 (qcode q) @ [0, 1] @ spare"] h(1) assms(9)
    by (simp add: add.assoc)
  moreover have ty: "from_be16 (?p ! ?j) (?p ! (?j + 1)) = qcode q"
    by (simp add: nth_append to_be16_def from_be16_to_be16)
  moreover have "qcode q \<in> {1, 28}" by (cases q) simp_all
  moreover have "?j + 4 \<le> ?n" using h(1) assms(9) by simp
  ultimately have a: "accepted ?p ?n ds ?u ?ls ?j"
    using off assms(4) by (simp only: accepted_def join_split_on split_on_nonempty not_False_eq_True simp_thms)
  have "length (reply ?p ?u ?j) \<le> ?j - ?u - 4 + 28"
    using length_reply [of ?u ?j ?p] length_loopback_record(1) [of "from_be16 (?p ! ?j) (?p ! (?j + 1))"] n h(1) assms(9) by simp
  then have fits: "?u + 8 + length (reply ?p ?u ?j) \<le> length ?p" using assms(9,10) h(1) by simp
  obtain p' where "rewritten ?p ?u ?j = Some p'" using rewritten_result [OF n off fits] by blast
  then show ?thesis using w modify_accepted [OF a n, of addr] fits by simp
qed

definition captured :: "capture list \<Rightarrow> (bytes \<times> bytes) list" where
  "captured es = filter (\<lambda>(pkt, _). pkt \<noteq> []) (map (\<lambda>e. case e of Captured pkt addr \<Rightarrow> (pkt, addr) | _ \<Rightarrow> ([], []))
     (takeWhile (\<lambda>e. e \<noteq> Stopped \<and> e \<noteq> RecvFailed) es))"

definition sent_back :: "string list \<Rightarrow> (bytes \<Rightarrow> nat \<Rightarrow> bytes \<Rightarrow> bytes) \<Rightarrow> bytes \<times> bytes \<Rightarrow> bytes \<times> bytes \<Rightarrow> bool" where
  "sent_back ds calc c s = (\<exists>buf. prefix (fst c) buf \<and> (case modify_dns_packet buf (length (fst c)) (snd c) ds of
     Some (None, _, _, _) \<Rightarrow> s = c
   | Some (Some _, p', n', addr') \<Rightarrow> s = (take n' (calc p' n' addr'), addr')
   | None \<Rightarrow> False))"

text \<open>The loop forwards everything: it sends each captured packet back exactly once and in order, the
  unanswered ones as they came, up to the stop flag or a failure of the driver; it never crashes.\<close>

theorem capture_loop_forwards:
  assumes "\<forall>b k a. length (calc b k a) = length b"
    and "\<forall>pkt addr. Captured pkt addr \<in> set es \<longrightarrow> length pkt \<le> length buf"
  shows "\<exists>sent. capture_loop calc ds buf es = Some sent \<and> list_all2 (sent_back ds calc) (captured es) sent"
  using assms
proof (induction es arbitrary: buf)
  case Nil
  then show ?case by (simp add: captured_def)
next
  case (Cons e es)
  show ?case
  proof (cases e)
    case (Captured pkt addr)
    let ?n = "length pkt" and ?b = "pkt @ drop (length pkt) buf"
    have fit: "length pkt \<le> length buf" using Cons.prems(2) Captured by simp
    show ?thesis
    proof (cases "?n = 0")
      case True
      then show ?thesis using Cons Captured by (simp add: captured_def Let_def)
    next
      case False
      have n: "?n \<le> length ?b" by simp
      obtain r p' n' addr' where m: "modify_dns_packet ?b ?n addr ds = Some (r, p', n', addr')"
        "length p' = length ?b" "r = None \<Longrightarrow> p' = ?b \<and> n' = ?n \<and> addr' = addr"
        using modify_keeps_buffer [OF n] by metis
      define b' where "b' = (if r = None then p' else calc p' n' addr')"
      have l: "length b' = length buf" using Cons.prems(1) m(2) fit by (simp add: b'_def)
      have "\<forall>pkt addr. Captured pkt addr \<in> set es \<longrightarrow> length pkt \<le> length b'" using Cons.prems(2) l by simp
      from Cons.IH [OF Cons.prems(1) this] obtain sent where
        s: "capture_loop calc ds b' es = Some sent" "list_all2 (sent_back ds calc) (captured es) sent" by blast
      have "sent_back ds calc (pkt, addr) (take n' b', addr')"
        unfolding sent_back_def using m by (intro exI [of _ ?b]) (auto simp: b'_def split: option.split)
      then show ?thesis using s m False fit Captured by (simp add: captured_def Let_def b'_def [symmetric])
    qed
  qed (simp_all add: captured_def)
qed

section \<open>Witnesses\<close>

definition sample_ip :: bytes where
  "sample_ip = [0x45, 0, 0, 0, 0, 0, 0, 0, 64, 17, 0, 0, 10, 0, 0, 2, 8, 8, 8, 8]"

definition sample_udp :: bytes where
  "sample_udp = [0xC0, 0, 0, 53, 0, 0, 0, 0]"

definition sample_query :: bytes where
  "sample_query = query_header 7 @ name_wire [''github'', ''com''] @ to_be16 1 @ [0, 1]"

definition sample_packet :: bytes where
  "sample_packet = sample_ip @ sample_udp @ sample_query @ replicate 40 0"

lemma sample_answered:
  "map_option (\<lambda>(r, p', n', a). (r, n')) (modify_dns_packet sample_packet 56 [] [''github.com'']) = Some (Some ''github.com'', 72)"
  "56 \<le> length sample_packet" "20 \<le> header_length (sample_packet ! 0)"
  by code_simp+

lemma sample_answer_parts:
  obtains p' a where "modify_dns_packet sample_packet 56 [] [''github.com''] = Some (Some ''github.com'', p', 72, a)"
  using sample_answered(1) by auto

lemma hook_never_panics_witness:
  "\<exists>r p' n' a. modify_dns_packet (replicate 8 0xFF) 8 [] [''github.com''] = Some (r, p', n', a) \<and> length p' = 8"
  using hook_never_panics [of 8 "replicate 8 0xFF" "[]" "[''github.com'']"] by auto

lemma hook_answers_loopback_witness:
  "\<exists>p' n' a q udp. modify_dns_packet sample_packet 56 [] [''github.com''] = Some (Some ''github.com'', p', n', a)
    \<and> parse_a_response (take (n' - (udp + 8)) (drop (udp + 8) p')) q = Inr ([loopback_for q], 300)"
proof -
  obtain p' a where m: "modify_dns_packet sample_packet 56 [] [''github.com''] = Some (Some ''github.com'', p', 72, a)"
    by (rule sample_answer_parts)
  from hook_answers_loopback [OF sample_answered(2) m] sample_answered(3) m show ?thesis by blast
qed

lemma hook_reply_witness:
  "\<exists>p' n' a. modify_dns_packet sample_packet 56 [] [''github.com''] = Some (Some ''github.com'', p', n', a)
    \<and> (\<exists>udp. take 2 (drop udp p') = [0, 53] \<and> take 2 (drop (udp + 2) p') = [0xC0, 0])"
proof -
  obtain p' a where m: "modify_dns_packet sample_packet 56 [] [''github.com''] = Some (Some ''github.com'', p', 72, a)"
    by (rule sample_answer_parts)
  have o: "udp_offset sample_packet 56 = Some (Some 20)" by code_simp
  have t8: "take 8 (drop 20 p') = take 2 (drop 22 sample_packet) @ take 2 (drop 20 sample_packet) @ to_be16 (word_of_nat 52) @ [0, 0]"
    using hook_reply_is_routed_back [OF sample_answered(2) m] sample_answered(3) o by auto
  have s: "take 2 (drop 22 sample_packet) = [0, 53]" "take 2 (drop 20 sample_packet) = [0xC0, 0]" by code_simp+
  have "take 2 (drop 20 p') = [0, 53]" using arg_cong [OF t8, of "take 2"] by (simp add: s)
  moreover have "take 2 (drop 22 p') = [0xC0, 0]"
    using arg_cong [OF t8, of "\<lambda>x. take 2 (drop 2 x)"] by (simp add: s drop_take)
  ultimately show ?thesis using m by (intro exI [of _ p'] exI [of _ 72] exI [of _ a] conjI exI [of _ 20]) simp_all
qed

lemma hook_answers_built_queries_witness:
  "\<exists>p' n' addr'. modify_dns_packet sample_packet 56 [] [''github.com''] = Some (Some ''github.com'', p', n', addr')"
proof -
  have "split_on CHR ''.'' ''github.com'' = [''github'', ''com'']" "ip_version (hd sample_ip) = 4"
    "header_length (hd sample_ip) = 20" "length sample_ip = 20" "sample_ip ! 9 = 17" "length sample_udp = 8"
    "is_ascii ''github.com''" "length (name_wire [''github'', ''com'']) = 12" "length sample_query = 28"
    "hook_matches ''github.com'' [''github.com'']" "list_all wf_label [''github'', ''com'']"
    by code_simp+
  note s = this
  obtain w p' n' addr' where w: "build_a_query_with_id ''github.com'' 7 TypeA 4096 = Built w"
    "modify_dns_packet (sample_ip @ sample_udp @ w @ replicate 40 0) (20 + 8 + length w) [] [''github.com''] =
       Some (Some ''github.com'', p', n', addr')"
    using hook_answers_built_queries [of "''github.com''" "[''github.com'']" sample_ip sample_udp "replicate 40 0" 7 TypeA "[]"]
    by (auto simp: s wf_label_def)
  have "w = sample_query"
    using build_query_wire [of "''github.com''" 4096 7 TypeA] w(1) by (simp add: s sample_query_def wf_label_def)
  then show ?thesis using w(2) by (auto simp: s sample_packet_def)
qed

lemma capture_loop_witness:
  "\<exists>sent. capture_loop (\<lambda>b n a. b) [''github.com''] (replicate 100 0)
     [Captured [1, 2, 3] [], Captured (take 56 sample_packet) [], Stopped, Captured [4] []] = Some sent \<and> length sent = 2"
proof -
  let ?es = "[Captured [1, 2, 3] [], Captured (take 56 sample_packet) [], Stopped, Captured [4] []]"
  have h: "\<forall>pkt addr. Captured pkt addr \<in> set ?es \<longrightarrow> length pkt \<le> length (replicate 100 (0 :: u8))" by auto
  obtain sent where s: "capture_loop (\<lambda>b n a. b) [''github.com''] (replicate 100 0) ?es = Some sent"
    "list_all2 (sent_back [''github.com''] (\<lambda>b n a. b)) (captured ?es) sent"
    using capture_loop_forwards [OF _ h, of "\<lambda>b n a. b" "[''github.com'']"] by blast
  have "length (captured ?es) = 2" by code_simp
  then show ?thesis using s list_all2_lengthD by fastforce
qed

end
