(* ===== verification/Agent.thy ===== *)
theory Agent
  imports Io Model Http1
begin

text \<open>
  The second-level agent of \<open>crates/core/src/agent.rs\<close>: the handshakes that turn a fresh connection
  to an HTTP, SOCKS4(a) or SOCKS5 proxy into a tunnel. Text inside errors is not modelled, the four
  kinds are. The base64 encoder of the \<open>base64\<close> crate is the parameter \<open>b64\<close>.
\<close>

section \<open>Errors and stages\<close>

datatype agent_error = Refused | Protocol | Unsupported | AgentIo

type_synonym 'a stage = "(agent_error + 'a) \<times> io"

text \<open>The \<open>?\<close> operator between two stages on one stream.\<close>

definition then_stage :: "'a stage \<Rightarrow> ('a \<Rightarrow> io \<Rightarrow> 'b stage) \<Rightarrow> 'b stage" where
  "then_stage m f = (case m of (Inl e, s) \<Rightarrow> (Inl e, s) | (Inr a, s) \<Rightarrow> f a s)"

definition send :: "string \<Rightarrow> io \<Rightarrow> unit stage" where
  "send bs s = (case write_all bs s of (ok, s') \<Rightarrow> (if ok then Inr () else Inl AgentIo, s'))"

definition recv :: "nat \<Rightarrow> io \<Rightarrow> string stage" where
  "recv n s = (case read_full n s of (r, s') \<Rightarrow> (case r of Some bs \<Rightarrow> Inr bs | None \<Rightarrow> Inl AgentIo, s'))"

definition ascii_bytes :: "string \<Rightarrow> agent_error + string" where
  "ascii_bytes t = (if is_ascii t then Inr t else Inl Unsupported)"

section \<open>HTTP CONNECT\<close>

definition show_port :: "u16 \<Rightarrow> string" where "show_port p = show_nat (unat p)"

definition basic_auth :: "(string \<Rightarrow> string) \<Rightarrow> string \<Rightarrow> string \<Rightarrow> string" where
  "basic_auth b64 user password = b64 (user @ '':'' @ password)"

definition connect_authority :: "string \<Rightarrow> u16 \<Rightarrow> string" where
  "connect_authority host port = (case parse_ip host of
     Some (V6 _) \<Rightarrow> ''['' @ host @ '']:'' @ show_port port
   | _ \<Rightarrow> host @ '':'' @ show_port port)"

function read_http_head :: "string \<Rightarrow> io \<Rightarrow> string stage" where
  "read_http_head head s = (case read_some 1 s of
     (None, s') \<Rightarrow> (Inl AgentIo, s')
   | (Some bs, s') \<Rightarrow>
       if bs = [] then (Inl AgentIo, s')
       else (let head' = head @ bs in
         if ends_with head' head_end then (Inr head', s')
         else if 8 * 1024 \<le> length head' then (Inl Protocol, s')
         else read_http_head head' s'))"
  by pat_completeness auto
termination
  by (relation "measure (\<lambda>(_, s). length (inp s))") (auto simp: read_some_def Let_def split: if_splits ending.splits list.splits)

declare read_http_head.simps [simp del]

definition connect_request :: "(string \<Rightarrow> string) \<Rightarrow> string \<Rightarrow> u16 \<Rightarrow> (string \<times> string) option \<Rightarrow> string" where
  "connect_request b64 host port credentials = (let authority = connect_authority host port in
     ''CONNECT '' @ authority @ '' HTTP/1.1'' @ crlf @ ''Host: '' @ authority @ crlf @
     (case credentials of
        Some (user, password) \<Rightarrow> ''Proxy-Authorization: Basic '' @ basic_auth b64 user password @ crlf
      | None \<Rightarrow> []) @ crlf)"

definition connect_http :: "(string \<Rightarrow> string) \<Rightarrow> string \<Rightarrow> u16 \<Rightarrow> (string \<times> string) option \<Rightarrow> io \<Rightarrow> unit stage" where
  "connect_http b64 host port credentials s =
     then_stage (send (connect_request b64 host port credentials) s) (\<lambda>_ s.
     then_stage (read_http_head [] s) (\<lambda>answer s.
       let head = utf8_lossy answer in
       (if head = [] then Inl Protocol
        else if \<not> starts_with head ''HTTP/1.1 200'' then Inl Refused
        else Inr (), s)))"

section \<open>SOCKS4 and SOCKS4a\<close>

definition port_bytes :: "u16 \<Rightarrow> string" where "port_bytes p = str_of (to_be16 p)"

definition socks4_request :: "string \<Rightarrow> u16 \<Rightarrow> (string \<times> string) option \<Rightarrow> agent_error + string" where
  "socks4_request host port credentials =
     (case ascii_bytes (case credentials of Some (user, _) \<Rightarrow> user | None \<Rightarrow> []) of
        Inl e \<Rightarrow> Inl e
      | Inr user_id \<Rightarrow>
          (let request = [CHR 0x04, CHR 0x01] @ port_bytes port in
           case parse_ip host of
             Some (V4 octs) \<Rightarrow> Inr (request @ str_of octs @ user_id @ [CHR 0x00])
           | Some (V6 _) \<Rightarrow> Inl Unsupported
           | None \<Rightarrow> (case ascii_bytes host of
               Inl e \<Rightarrow> Inl e
             | Inr name \<Rightarrow> Inr (request @ [CHR 0x00, CHR 0x00, CHR 0x00, CHR 0x01] @ user_id @ [CHR 0x00] @ name @ [CHR 0x00]))))"

definition connect_socks4 :: "string \<Rightarrow> u16 \<Rightarrow> (string \<times> string) option \<Rightarrow> io \<Rightarrow> unit stage" where
  "connect_socks4 host port credentials s = (case socks4_request host port credentials of
     Inl e \<Rightarrow> (Inl e, s)
   | Inr request \<Rightarrow>
       then_stage (send request s) (\<lambda>_ s.
       then_stage (recv 8 s) (\<lambda>answer s.
         (if answer ! 1 \<noteq> CHR 0x5A then Inl Refused else Inr (), s))))"

section \<open>SOCKS5\<close>

definition socks5_auth_request :: "string \<Rightarrow> string \<Rightarrow> agent_error + string" where
  "socks5_auth_request user password = (case ascii_bytes user of
     Inl e \<Rightarrow> Inl e
   | Inr u \<Rightarrow> (case ascii_bytes password of
       Inl e \<Rightarrow> Inl e
     | Inr p \<Rightarrow> if 255 < length u \<or> 255 < length p then Inl Unsupported
         else Inr ([CHR 0x01, char_of (length u)] @ u @ [char_of (length p)] @ p)))"

definition socks5_auth :: "(string \<times> string) option \<Rightarrow> io \<Rightarrow> unit stage" where
  "socks5_auth credentials s = (case credentials of
     None \<Rightarrow> (Inl Unsupported, s)
   | Some (user, password) \<Rightarrow> (case socks5_auth_request user password of
       Inl e \<Rightarrow> (Inl e, s)
     | Inr auth \<Rightarrow>
         then_stage (send auth s) (\<lambda>_ s.
         then_stage (recv 2 s) (\<lambda>answer s.
           (if answer ! 0 \<noteq> CHR 0x01 then Inl Protocol
            else if answer ! 1 \<noteq> CHR 0x00 then Inl Refused else Inr (), s)))))"

definition socks5_negotiate :: "(string \<times> string) option \<Rightarrow> io \<Rightarrow> unit stage" where
  "socks5_negotiate credentials s =
     then_stage (send [CHR 0x05, CHR 0x01, if credentials \<noteq> None then CHR 0x02 else CHR 0x00] s) (\<lambda>_ s.
     then_stage (recv 2 s) (\<lambda>greeting s.
       if greeting ! 0 \<noteq> CHR 0x05 then (Inl Protocol, s)
       else if greeting ! 1 = CHR 0x00 then (Inr (), s)
       else if greeting ! 1 = CHR 0x02 then socks5_auth credentials s
       else (Inl Unsupported, s)))"

definition socks5_request :: "string \<Rightarrow> u16 \<Rightarrow> agent_error + string" where
  "socks5_request host port = (case (case parse_ip host of
       Some (V4 octs) \<Rightarrow> Inr (CHR 0x01 # str_of octs)
     | Some (V6 octs) \<Rightarrow> Inr (CHR 0x04 # str_of octs)
     | None \<Rightarrow> (case ascii_bytes host of
         Inl e \<Rightarrow> Inl e
       | Inr name \<Rightarrow> if 255 < length name then Inl Unsupported
           else Inr (CHR 0x03 # char_of (length name) # name))) of
     Inl e \<Rightarrow> Inl e
   | Inr addr \<Rightarrow> Inr ([CHR 0x05, CHR 0x01, CHR 0x00] @ addr @ port_bytes port))"

text \<open>The reply, drained to the end of the bound address and port.\<close>

definition socks5_reply :: "io \<Rightarrow> unit stage" where
  "socks5_reply s =
     then_stage (recv 4 s) (\<lambda>reply s.
       if reply ! 0 \<noteq> CHR 0x05 then (Inl Protocol, s)
       else if reply ! 1 \<noteq> CHR 0x00 then (Inl Refused, s)
       else then_stage
         (if reply ! 3 = CHR 0x01 then (Inr 4, s)
          else if reply ! 3 = CHR 0x04 then (Inr 16, s)
          else if reply ! 3 = CHR 0x03 then then_stage (recv 1 s) (\<lambda>len s. (Inr (code_of (len ! 0)), s))
          else (Inl Protocol, s))
         (\<lambda>bound_len s. then_stage (recv (bound_len + 2) s) (\<lambda>_ s. (Inr (), s))))"

definition connect_socks5 :: "string \<Rightarrow> u16 \<Rightarrow> (string \<times> string) option \<Rightarrow> io \<Rightarrow> unit stage" where
  "connect_socks5 host port credentials s =
     then_stage (socks5_negotiate credentials s) (\<lambda>_ s.
       case socks5_request host port of
         Inl e \<Rightarrow> (Inl e, s)
       | Inr request \<Rightarrow> then_stage (send request s) (\<lambda>_ s. socks5_reply s))"

definition handshake :: "(string \<Rightarrow> string) \<Rightarrow> ext_proxy_type \<Rightarrow> string \<Rightarrow> u16 \<Rightarrow> (string \<times> string) option \<Rightarrow> io \<Rightarrow> unit stage" where
  "handshake b64 proxy_type host port credentials s = (case proxy_type of
     ExtHttp \<Rightarrow> connect_http b64 host port credentials s
   | ExtSocks4 \<Rightarrow> connect_socks4 host port credentials s
   | ExtSocks5 \<Rightarrow> connect_socks5 host port credentials s)"

section \<open>What the other side reads\<close>

text \<open>Decoders of the request formats, as a conforming agent parses them.\<close>

datatype target = AtAddress ipaddr | AtName string

definition socks5_decode :: "string \<Rightarrow> (target \<times> u16) option" where
  "socks5_decode w = (case w of
     v # c # r # ty # rest \<Rightarrow>
       (let n = (if ty = CHR 0x01 then 4 else if ty = CHR 0x04 then 16 else code_of (hd rest));
            body = (if ty = CHR 0x03 then tl rest else rest);
            b = bytes_of (drop n body) in
        if v \<noteq> CHR 0x05 \<or> c \<noteq> CHR 0x01 \<or> length b \<noteq> 2 then None
        else Some (if ty = CHR 0x01 then AtAddress (V4 (bytes_of (take n body)))
          else if ty = CHR 0x04 then AtAddress (V6 (bytes_of (take n body))) else AtName (take n body),
          from_be16 (b ! 0) (b ! 1)))
   | _ \<Rightarrow> None)"

definition socks4_decode :: "string \<Rightarrow> (target \<times> u16 \<times> string) option" where
  "socks4_decode w =
     (let b = bytes_of (take 2 (drop 2 w)); octs = bytes_of (take 4 (drop 4 w)) in
      case split_once (CHR 0x00) (drop 8 w) of
        None \<Rightarrow> None
      | Some (user, rest) \<Rightarrow>
          if take 2 w \<noteq> [CHR 0x04, CHR 0x01] then None
          else if take 3 octs = [0, 0, 0] \<and> octs ! 3 \<noteq> 0
          then (case split_once (CHR 0x00) rest of
              Some (name, []) \<Rightarrow> Some (AtName name, from_be16 (b ! 0) (b ! 1), user) | _ \<Rightarrow> None)
          else if rest = [] then Some (AtAddress (V4 octs), from_be16 (b ! 0) (b ! 1), user) else None)"

definition target_of :: "string \<Rightarrow> target" where
  "target_of host = (case parse_ip host of Some ip \<Rightarrow> AtAddress ip | None \<Rightarrow> AtName host)"

text \<open>The answers an agent may give for the tunnel to be open.\<close>

definition http_accept :: "string \<Rightarrow> bool" where
  "http_accept r = (ends_with r head_end \<and> starts_with (utf8_lossy r) ''HTTP/1.1 200'')"

definition socks5_bound :: "string \<Rightarrow> bool" where
  "socks5_bound r = (\<exists>rsv ty rest. r = [CHR 0x05, CHR 0x00, rsv, ty] @ rest \<and>
     (ty = CHR 0x01 \<and> length rest = 6 \<or> ty = CHR 0x04 \<and> length rest = 18
      \<or> ty = CHR 0x03 \<and> rest \<noteq> [] \<and> length rest = code_of (hd rest) + 3))"

section \<open>Facts on stages\<close>

lemma then_stage_ok:
  "then_stage m f = (Inr b, s'') \<Longrightarrow> \<exists>a s'. m = (Inr a, s') \<and> f a s' = (Inr b, s'')"
  by (cases m) (auto simp: then_stage_def split: sum.splits)

lemma then_stage_Inr [simp]: "then_stage (Inr a, s) f = f a s" and then_stage_Inl [simp]: "then_stage (Inl e, s) f = (Inl e, s)"
  by (simp_all add: then_stage_def)

lemma send_ok: "send bs s = (Inr u, s') \<Longrightarrow> inp s' = inp s \<and> outp s' = outp s @ bs"
  using write_all_spec [of bs s] by (auto simp: send_def split: prod.splits if_splits)

lemma recv_ok: "recv n s = (Inr bs, s') \<Longrightarrow> inp s = bs @ inp s' \<and> outp s' = outp s \<and> length bs = n"
  using read_full_spec [of n s] by (auto simp: recv_def takes_def quiet_def split: prod.splits option.splits)

lemma read_http_head_ok:
  "read_http_head buf s = (Inr l, s') \<Longrightarrow> \<exists>bs. l = buf @ bs \<and> inp s = bs @ inp s' \<and> outp s' = outp s \<and> ends_with l head_end"
proof (induction buf s rule: read_http_head.induct)
  case (1 buf s)
  obtain x s1 where x: "read_some 1 s = (x, s1)" by (cases "read_some 1 s")
  note rs = read_some_spec [OF x]
  obtain bs where bs: "x = Some bs" "bs \<noteq> []"
    using 1(2) x by (auto simp: read_http_head.simps [of buf s] split: option.splits if_splits)
  have q: "inp s = bs @ inp s1" "outp s1 = outp s" using rs bs by (auto simp: takes_def quiet_def)
  show ?case
  proof (cases "ends_with (buf @ bs) head_end")
    case True
    then show ?thesis using 1(2) x bs q by (auto simp: read_http_head.simps [of buf s] Let_def)
  next
    case False
    then have "\<not> 8 * 1024 \<le> length (buf @ bs)" "read_http_head (buf @ bs) s1 = (Inr l, s')"
      using 1(2) x bs by (auto simp: read_http_head.simps [of buf s] Let_def split: if_splits)
    from 1(1) [OF x [symmetric] bs refl False this] show ?thesis using q by auto
  qed
qed

text \<open>One exchange: \<open>exchanged s r w s'\<close> says that exactly \<open>r\<close> was read and exactly \<open>w\<close> was written.\<close>

definition exchanged :: "io \<Rightarrow> string \<Rightarrow> string \<Rightarrow> io \<Rightarrow> bool" where
  "exchanged s r w s' \<longleftrightarrow> inp s = r @ inp s' \<and> outp s' = outp s @ w"

lemma exchanged_trans: "exchanged s r w s1 \<Longrightarrow> exchanged s1 r' w' s2 \<Longrightarrow> exchanged s (r @ r') (w @ w') s2"
  by (simp add: exchanged_def)

lemma exchanged_send: "send bs s = (Inr u, s') \<Longrightarrow> exchanged s [] bs s'"
  using send_ok by (auto simp: exchanged_def)

lemma exchanged_recv: "recv n s = (Inr bs, s') \<Longrightarrow> exchanged s bs [] s' \<and> length bs = n"
  using recv_ok by (auto simp: exchanged_def)

lemma connect_http_ok:
  assumes "connect_http b64 host port cr s = (Inr (), s')"
  shows "\<exists>r. http_accept r \<and> exchanged s r (connect_request b64 host port cr) s'"
proof -
  obtain u s1 where a: "send (connect_request b64 host port cr) s = (Inr u, s1)"
    and "then_stage (read_http_head [] s1) (\<lambda>answer s. let head = utf8_lossy answer in
       (if head = [] then Inl Protocol else if \<not> starts_with head ''HTTP/1.1 200'' then Inl Refused else Inr (), s)) = (Inr (), s')"
    using assms unfolding connect_http_def by (blast dest: then_stage_ok)
  then obtain r s2 where b: "read_http_head [] s1 = (Inr r, s2)" "starts_with (utf8_lossy r) ''HTTP/1.1 200''" "s2 = s'"
    by (auto dest!: then_stage_ok simp: Let_def split: if_splits)
  show ?thesis
    using send_ok [OF a] read_http_head_ok [OF b(1)] b(2,3) by (auto simp: exchanged_def http_accept_def)
qed

lemma connect_socks4_ok:
  assumes "connect_socks4 host port cr s = (Inr (), s')"
  shows "\<exists>r w. length r = 8 \<and> r ! 1 = CHR 0x5A \<and> socks4_request host port cr = Inr w \<and> exchanged s r w s'"
proof -
  obtain w where w: "socks4_request host port cr = Inr w"
    using assms by (auto simp: connect_socks4_def split: sum.splits)
  obtain u s1 where a: "send w s = (Inr u, s1)"
    and "then_stage (recv 8 s1) (\<lambda>answer s. (if answer ! 1 \<noteq> CHR 0x5A then Inl Refused else Inr (), s)) = (Inr (), s')"
    using assms w unfolding connect_socks4_def by (auto dest!: then_stage_ok)
  then obtain r s2 where "recv 8 s1 = (Inr r, s2)" "r ! 1 = CHR 0x5A" "s2 = s'"
    by (auto dest!: then_stage_ok split: if_splits)
  then show ?thesis using send_ok [OF a] recv_ok w by (fastforce simp: exchanged_def)
qed

lemma socks5_auth_ok:
  assumes "socks5_auth cr s = (Inr (), s')"
  shows "\<exists>u p w. cr = Some (u, p) \<and> socks5_auth_request u p = Inr w \<and> exchanged s [CHR 0x01, CHR 0x00] w s'"
proof -
  obtain u p w where c: "cr = Some (u, p)" "socks5_auth_request u p = Inr w"
    using assms by (auto simp: socks5_auth_def split: option.splits sum.splits)
  obtain x s1 where a: "send w s = (Inr x, s1)"
    and "then_stage (recv 2 s1) (\<lambda>answer s. (if answer ! 0 \<noteq> CHR 0x01 then Inl Protocol
           else if answer ! 1 \<noteq> CHR 0x00 then Inl Refused else Inr (), s)) = (Inr (), s')"
    using assms c unfolding socks5_auth_def by (auto dest!: then_stage_ok)
  then obtain r s2 where r: "recv 2 s1 = (Inr r, s2)" "r ! 0 = CHR 0x01" "r ! 1 = CHR 0x00" "s2 = s'"
    by (auto dest!: then_stage_ok split: if_splits)
  have "r = [CHR 0x01, CHR 0x00]" using recv_ok [OF r(1)] r(2,3) by (auto simp: length_Suc_conv numeral_2_eq_2)
  then show ?thesis using c exchanged_trans [OF exchanged_send [OF a]] exchanged_recv [OF r(1)] r(4) by fastforce
qed

definition socks5_agreed :: "(string \<times> string) option \<Rightarrow> string \<Rightarrow> string \<Rightarrow> bool" where
  "socks5_agreed cr r w = (let offer = [CHR 0x05, CHR 0x01, if cr \<noteq> None then CHR 0x02 else CHR 0x00] in
     r = [CHR 0x05, CHR 0x00] \<and> w = offer
     \<or> (\<exists>u p auth. cr = Some (u, p) \<and> socks5_auth_request u p = Inr auth
         \<and> r = [CHR 0x05, CHR 0x02, CHR 0x01, CHR 0x00] \<and> w = offer @ auth))"

lemma socks5_negotiate_ok:
  assumes "socks5_negotiate cr s = (Inr (), s')"
  shows "\<exists>r w. socks5_agreed cr r w \<and> exchanged s r w s'"
proof -
  let ?o = "[CHR 0x05, CHR 0x01, if cr \<noteq> None then CHR 0x02 else CHR 0x00]"
  obtain x s1 where a: "send ?o s = (Inr x, s1)"
    and "then_stage (recv 2 s1) (\<lambda>greeting s. if greeting ! 0 \<noteq> CHR 0x05 then (Inl Protocol, s)
       else if greeting ! 1 = CHR 0x00 then (Inr (), s) else if greeting ! 1 = CHR 0x02 then socks5_auth cr s
       else (Inl Unsupported, s)) = (Inr (), s')"
    using assms unfolding socks5_negotiate_def by (blast dest: then_stage_ok)
  then obtain r s2 where r: "recv 2 s1 = (Inr r, s2)" "r ! 0 = CHR 0x05"
    "r ! 1 = CHR 0x00 \<and> s2 = s' \<or> r ! 1 = CHR 0x02 \<and> socks5_auth cr s2 = (Inr (), s')"
    by (auto dest!: then_stage_ok split: if_splits)
  have r2: "r = [CHR 0x05, r ! 1]" using recv_ok [OF r(1)] r(2) by (auto simp: length_Suc_conv numeral_2_eq_2)
  have e: "exchanged s r ?o s2" using exchanged_trans [OF exchanged_send [OF a]] exchanged_recv [OF r(1)] by fastforce
  from r(3) show ?thesis
  proof
    assume "r ! 1 = CHR 0x00 \<and> s2 = s'"
    then show ?thesis using e r2 by (intro exI [of _ r] exI [of _ ?o]) (simp add: socks5_agreed_def)
  next
    assume c: "r ! 1 = CHR 0x02 \<and> socks5_auth cr s2 = (Inr (), s')"
    then obtain u p w where w: "cr = Some (u, p)" "socks5_auth_request u p = Inr w" "exchanged s2 [CHR 0x01, CHR 0x00] w s'"
      using socks5_auth_ok by blast
    have "exchanged s (r @ [CHR 0x01, CHR 0x00]) (?o @ w) s'" by (rule exchanged_trans [OF e w(3)])
    moreover have "r @ [CHR 0x01, CHR 0x00] = [CHR 0x05, CHR 0x02, CHR 0x01, CHR 0x00]" using r2 c by simp
    moreover have "socks5_agreed cr [CHR 0x05, CHR 0x02, CHR 0x01, CHR 0x00] (?o @ w)"
      using w(1,2) by (simp add: socks5_agreed_def Let_def)
    ultimately show ?thesis by metis
  qed
qed

lemma socks5_reply_ok:
  assumes "socks5_reply s = (Inr (), s')"
  shows "\<exists>r. socks5_bound r \<and> exchanged s r [] s'"
proof -
  obtain h s1 where h: "recv 4 s = (Inr h, s1)" "h ! 0 = CHR 0x05" "h ! 1 = CHR 0x00"
    and rest: "then_stage
         (if h ! 3 = CHR 0x01 then (Inr 4, s1) else if h ! 3 = CHR 0x04 then (Inr 16, s1)
          else if h ! 3 = CHR 0x03 then then_stage (recv 1 s1) (\<lambda>len s. (Inr (code_of (len ! 0)), s)) else (Inl Protocol, s1))
         (\<lambda>bound_len s. then_stage (recv (bound_len + 2) s) (\<lambda>_ s. (Inr (), s))) = (Inr (), s')"
    using assms unfolding socks5_reply_def by (auto dest!: then_stage_ok split: if_splits)
  have h4: "h = [CHR 0x05, CHR 0x00, h ! 2, h ! 3]"
    using recv_ok [OF h(1)] h(2,3) by (auto simp: length_Suc_conv eval_nat_numeral)
  note eh = exchanged_recv [OF h(1), THEN conjunct1]
  obtain k s2 b s3 where k: "(if h ! 3 = CHR 0x01 then (Inr 4, s1) else if h ! 3 = CHR 0x04 then (Inr 16, s1)
          else if h ! 3 = CHR 0x03 then then_stage (recv 1 s1) (\<lambda>len s. (Inr (code_of (len ! 0)), s)) else (Inl Protocol, s1))
        = (Inr k, s2)" and b: "recv (k + 2) s2 = (Inr b, s3)" "s3 = s'"
    using rest by (auto dest!: then_stage_ok)
  note eb = exchanged_recv [OF b(1), THEN conjunct1] and lb = exchanged_recv [OF b(1), THEN conjunct2]
  consider "h ! 3 = CHR 0x01" "k = 4" "s2 = s1" | "h ! 3 = CHR 0x04" "k = 16" "s2 = s1"
    | l where "h ! 3 = CHR 0x03" "recv 1 s1 = (Inr l, s2)" "k = code_of (l ! 0)"
    using k by (auto split: if_splits dest!: then_stage_ok)
  then show ?thesis
  proof cases
    case 1
    then have "socks5_bound (h @ b)" using h4 lb unfolding socks5_bound_def
      by (intro exI [of _ "h ! 2"] exI [of _ "h ! 3"] exI [of _ b]) simp
    then show ?thesis using exchanged_trans [OF eh, of b "[]" s3] eb b(2) 1 by auto
  next
    case 2
    then have "socks5_bound (h @ b)" using h4 lb unfolding socks5_bound_def
      by (intro exI [of _ "h ! 2"] exI [of _ "h ! 3"] exI [of _ b]) simp
    then show ?thesis using exchanged_trans [OF eh, of b "[]" s3] eb b(2) 2 by auto
  next
    case 3
    note el = exchanged_recv [OF 3(2)]
    obtain l0 where l0: "l = [l0]" using el by (cases l) auto
    then have "socks5_bound (h @ l @ b)" using h4 lb 3 unfolding socks5_bound_def
      by (intro exI [of _ "h ! 2"] exI [of _ "h ! 3"] exI [of _ "l @ b"]) simp
    then show ?thesis using exchanged_trans [OF eh exchanged_trans [OF el [THEN conjunct1] eb]] b(2) by auto
  qed
qed

lemma connect_socks5_ok:
  assumes "connect_socks5 host port cr s = (Inr (), s')"
  shows "\<exists>r1 w1 r2 w2. socks5_agreed cr r1 w1 \<and> socks5_request host port = Inr w2 \<and> socks5_bound r2
    \<and> exchanged s (r1 @ r2) (w1 @ w2) s'"
proof -
  obtain u s1 where a: "socks5_negotiate cr s = (Inr u, s1)"
    and b: "(case socks5_request host port of Inl e \<Rightarrow> (Inl e, s1)
       | Inr request \<Rightarrow> then_stage (send request s1) (\<lambda>_ s. socks5_reply s)) = (Inr (), s')"
    using assms unfolding connect_socks5_def by (blast dest: then_stage_ok)
  then obtain w2 v s2 where w2: "socks5_request host port = Inr w2" "send w2 s1 = (Inr v, s2)" "socks5_reply s2 = (Inr (), s')"
    by (auto split: sum.splits dest!: then_stage_ok)
  obtain r1 w1 where n: "socks5_agreed cr r1 w1" "exchanged s r1 w1 s1" using socks5_negotiate_ok [of cr s s1] a by auto
  obtain r2 where r2: "socks5_bound r2" "exchanged s2 r2 [] s'" using socks5_reply_ok [OF w2(3)] by blast
  have "exchanged s (r1 @ [] @ r2) (w1 @ w2 @ []) s'"
    by (rule exchanged_trans [OF n(2) exchanged_trans [OF exchanged_send [OF w2(2)] r2(2)]])
  then show ?thesis using n(1) w2(1) r2(1) by auto
qed

section \<open>Properties\<close>

text \<open>C27. A handshake that reports success leaves the stream at the first byte of the tunnel: exactly one
  accepting answer of the agent's protocol was consumed, bound address included, and exactly the
  request was written, with credentials only when they are configured.\<close>

theorem handshake_stops_at_payload:
  assumes "handshake b64 ty host port cr s = (Inr (), s')"
  shows "\<exists>r w. inp s = r @ inp s' \<and> outp s' = outp s @ w \<and> (case ty of
      ExtHttp \<Rightarrow> http_accept r \<and> w = connect_request b64 host port cr
    | ExtSocks4 \<Rightarrow> length r = 8 \<and> r ! 1 = CHR 0x5A \<and> socks4_request host port cr = Inr w
    | ExtSocks5 \<Rightarrow> (\<exists>r1 w1 r2 w2. r = r1 @ r2 \<and> w = w1 @ w2 \<and> socks5_agreed cr r1 w1
        \<and> socks5_request host port = Inr w2 \<and> socks5_bound r2))"
  using assms connect_http_ok [of b64 host port cr s s'] connect_socks4_ok [of host port cr s s']
    connect_socks5_ok [of host port cr s s']
  by (cases ty) (auto simp: handshake_def exchanged_def, blast)

lemma port_decoded: "from_be16 (to_be16 p ! 0) (to_be16 p ! Suc 0) = p"
  by (simp add: to_be16_def from_be16_to_be16)

lemma bytes_of_port [simp]: "bytes_of (port_bytes p) = to_be16 p" and length_port_bytes [simp]: "length (port_bytes p) = 2"
  by (simp_all add: port_bytes_def)

lemma socks5_roundtrip:
  assumes "socks5_request host port = Inr w"
  shows "socks5_decode w = Some (target_of host, port)"
proof (cases "parse_ip host")
  case None
  then have w: "w = [CHR 0x05, CHR 0x01, CHR 0x00] @ (CHR 0x03 # char_of (length host) # host) @ port_bytes port" "length host < 256"
    using assms by (auto simp: socks5_request_def ascii_bytes_def split: if_splits)
  then show ?thesis using None by (simp add: socks5_decode_def target_of_def port_decoded)
next
  case (Some ip)
  note wf = parse_ip_wf [OF Some]
  show ?thesis
  proof (cases ip)
    case (V4 octs)
    then have "w = [CHR 0x05, CHR 0x01, CHR 0x00] @ (CHR 0x01 # str_of octs) @ port_bytes port" "length octs = 4"
      using assms Some wf by (auto simp: socks5_request_def wf_ip_def)
    then show ?thesis using Some V4 by (simp add: socks5_decode_def target_of_def port_decoded)
  next
    case (V6 octs)
    then have "w = [CHR 0x05, CHR 0x01, CHR 0x00] @ (CHR 0x04 # str_of octs) @ port_bytes port" "length octs = 16"
      using assms Some wf by (auto simp: socks5_request_def wf_ip_def)
    then show ?thesis using Some V6 by (simp add: socks5_decode_def target_of_def port_decoded)
  qed
qed

lemma socks4_roundtrip:
  assumes "socks4_request host port (Some (user, pw)) = Inr w" "CHR 0x00 \<notin> set user" "CHR 0x00 \<notin> set host"
    and "\<forall>octs. parse_ip host = Some (V4 octs) \<longrightarrow> take 3 octs \<noteq> [0, 0, 0]"
  shows "socks4_decode w = Some (target_of host, port, user)"
proof (cases "parse_ip host")
  case None
  then have w: "w = [CHR 0x04, CHR 0x01] @ port_bytes port @ [CHR 0x00, CHR 0x00, CHR 0x00, CHR 0x01] @
      (user @ CHR 0x00 # (host @ CHR 0x00 # []))"
    using assms(1) by (auto simp: socks4_request_def ascii_bytes_def Let_def split: if_splits)
  have "bytes_of [CHR 0x00, CHR 0x00, CHR 0x00, CHR 0x01] = [0, 0, 0, 1]" by (simp add: bytes_of_def code_of_def)
  then show ?thesis
    using None assms(2,3) unfolding w socks4_decode_def by (simp add: target_of_def port_decoded drop_append)
next
  case (Some ip)
  then obtain octs where v4: "ip = V4 octs" "length octs = 4"
    using assms(1) parse_ip_wf [OF Some]
    by (cases ip) (auto simp: socks4_request_def ascii_bytes_def Let_def wf_ip_def split: if_splits)
  then have w: "w = [CHR 0x04, CHR 0x01] @ port_bytes port @ str_of octs @ (user @ CHR 0x00 # [])"
    using assms(1) Some by (auto simp: socks4_request_def ascii_bytes_def Let_def split: if_splits)
  show ?thesis
    using Some v4 assms(2,4) unfolding w socks4_decode_def by (simp add: target_of_def port_decoded drop_append)
qed

text \<open>The agent is asked for the target that was meant: a SOCKS5 request, read by the rules of the
  protocol, names exactly the host (as an address when it is a literal, as a name otherwise) and
  the port; so does a SOCKS4(a) request, with the user name, when neither text holds a zero byte
  and the address is not one of the 0.0.0.x that SOCKS4a uses as its marker.\<close>

theorem socks_request_roundtrip:
  "(\<forall>w. socks5_request host port = Inr w \<longrightarrow> socks5_decode w = Some (target_of host, port))
   \<and> (\<forall>w user pw. socks4_request host port (Some (user, pw)) = Inr w \<longrightarrow> CHR 0x00 \<notin> set (user @ host) \<longrightarrow>
       (\<forall>octs. parse_ip host = Some (V4 octs) \<longrightarrow> take 3 octs \<noteq> [0, 0, 0]) \<longrightarrow>
       socks4_decode w = Some (target_of host, port, user))"
  using socks5_roundtrip socks4_roundtrip [of host port] by auto

lemma socks_request_roundtrip_witness:
  "socks5_decode [CHR 0x05, CHR 0x01, CHR 0x00, CHR 0x03, CHR 0x05, CHR ''a'', CHR ''.'', CHR ''c'', CHR ''o'', CHR ''m'', CHR 0x01, CHR 0xBB]
     = Some (target_of ''a.com'', 443)
   \<and> socks4_decode ([CHR 0x04, CHR 0x01, CHR 0x01, CHR 0xBB, CHR 0x00, CHR 0x00, CHR 0x00, CHR 0x01] @ ''me'' @ [CHR 0x00] @ ''a.com'' @ [CHR 0x00])
     = Some (target_of ''a.com'', 443, ''me'')"
proof -
  have a: "socks5_request ''a.com'' 443 = Inr [CHR 0x05, CHR 0x01, CHR 0x00, CHR 0x03, CHR 0x05, CHR ''a'', CHR ''.'', CHR ''c'', CHR ''o'', CHR ''m'', CHR 0x01, CHR 0xBB]"
    by code_simp
  have b: "socks4_request ''a.com'' 443 (Some (''me'', ''pw'')) = Inr ([CHR 0x04, CHR 0x01, CHR 0x01, CHR 0xBB, CHR 0x00, CHR 0x00, CHR 0x00, CHR 0x01] @ ''me'' @ [CHR 0x00] @ ''a.com'' @ [CHR 0x00])"
    by code_simp
  have c: "CHR 0x00 \<notin> set (''me'' @ ''a.com'')" by simp
  have d: "parse_ip ''a.com'' = None" by code_simp
  note rt = socks_request_roundtrip [of "''a.com''" 443]
  have "\<forall>octs. parse_ip ''a.com'' = Some (V4 octs) \<longrightarrow> take 3 octs \<noteq> [0, 0, 0]" using d by simp
  then show ?thesis using rt [THEN conjunct1, rule_format, OF a] rt [THEN conjunct2, rule_format, OF b c] d by simp
qed

text \<open>An agent that answers the greeting, accepts the request and sends the first byte of the tunnel with it.\<close>

definition answering_agent :: io where
  "answering_agent = \<lparr>inp = [CHR 0x05, CHR 0x00, CHR 0x05, CHR 0x00, CHR 0x00, CHR 0x01, CHR 0x7F, CHR 0x00, CHR 0x00, CHR 0x01, CHR 0x1F, CHR 0x90, CHR 0x16],
     segs = [1, 5], ending_of = Eof, outp = [], room = None\<rparr>"

lemma handshake_stops_at_payload_witness:
  "inp (snd (handshake (\<lambda>x. x) ExtSocks5 ''a.com'' 443 None answering_agent)) = [CHR 0x16] \<and>
   (\<exists>r1 w1 r2. inp answering_agent = r1 @ r2 @ [CHR 0x16] \<and> socks5_agreed None r1 w1 \<and> socks5_bound r2)"
proof -
  let ?h = "handshake (\<lambda>x. x) ExtSocks5 ''a.com'' 443 None answering_agent"
  have a: "fst ?h = Inr ()" and b: "inp (snd ?h) = [CHR 0x16]" by (code_simp, code_simp)
  have "?h = (Inr (), snd ?h)" using a by (metis prod.collapse)
  from handshake_stops_at_payload [OF this] obtain r1 w1 r2
    where "inp answering_agent = (r1 @ r2) @ inp (snd ?h)" "socks5_agreed None r1 w1" "socks5_bound r2" by auto
  then show ?thesis unfolding b append_assoc by blast
qed

end
