(* ===== verification/Dial.thy ===== *)
theory Dial
  imports Agent Dns Domains
begin

text \<open>
  Dialling an upstream, from \<open>crates/core/src/fwd.rs\<close>: directly through the candidate endpoints, by
  name through the system resolver, or through the second-level agent. The outside world is the
  record \<open>env\<close>; the state \<open>world\<close> threads the resolver state, the clock and the log of what left the
  machine: the lookups with their answers, every connection that was attempted and every endpoint a
  decrypted request was sent to (with the server name it was dialled under), in order.
\<close>

section \<open>The outside world\<close>

text \<open>\<open>tcp\<close> is one connection attempt under its budget, \<open>os_lookup\<close> the system resolver, whose answer
  depends on the time it is asked, \<open>by_name\<close> a connection the system resolves itself.\<close>

record env =
  net :: network
  tcp :: "sockaddr \<Rightarrow> io attempt"
  os_lookup :: "string \<Rightarrow> u16 \<Rightarrow> nat \<Rightarrow> ipaddr list option \<times> nat"
  by_name :: "string \<Rightarrow> u16 \<Rightarrow> io attempt"
  base64 :: "string \<Rightarrow> string"

datatype event =
    Resolved string "ipaddr list"
  | OsLookup string u16 "ipaddr list"
  | Dialled sockaddr
  | DialledByName string u16
  | AskedAgent sockaddr string u16
  | Sent sockaddr "string option"

record world =
  dns :: dns_state
  clock :: nat
  events :: "event list"

definition send_log :: "event list \<Rightarrow> world \<Rightarrow> world" where
  "send_log es w = w\<lparr>events := events w @ es\<rparr>"

text \<open>\<open>dns::resolve_a\<close> with the configured server and DoH endpoint.\<close>

definition resolve :: "env \<Rightarrow> proxy_settings \<Rightarrow> string \<Rightarrow> world \<Rightarrow> ipaddr list \<times> world" where
  "resolve e cfg host w =
     (case resolve_a (net e) host (proxy_master_dns cfg) (use_doh cfg) (custom_doh_address cfg) (clock w) (dns w) of
        (ips, t, s) \<Rightarrow> (ips, send_log [Resolved host ips] (w\<lparr>dns := s, clock := t\<rparr>)))"

text \<open>The attempts a dial loop makes: up to the first that succeeds.\<close>

fun attempted :: "(sockaddr \<Rightarrow> 'c attempt) \<Rightarrow> sockaddr list \<Rightarrow> sockaddr list" where
  "attempted f [] = []"
| "attempted f (a # as) = a # (case f a of Connected c \<Rightarrow> [] | _ \<Rightarrow> attempted f as)"

section \<open>The second-level agent\<close>

record agent =
  a_type :: ext_proxy_type
  a_host :: string
  a_port :: u16
  a_credentials :: "(string \<times> string) option"

definition agent_config :: "proxy_settings \<Rightarrow> agent option" where
  "agent_config cfg =
     (if \<not> two_level_agent_enable cfg then None
      else (let host = trim (two_level_agent_ip cfg) in
        if host = [] then None
        else Some \<lparr>a_type = two_level_agent_type cfg, a_host = host, a_port = two_level_agent_port cfg,
          a_credentials = (if two_level_agent_user cfg = [] \<and> two_level_agent_password cfg = [] then None
            else Some (two_level_agent_user cfg, two_level_agent_password cfg))\<rparr>))"

definition agent_addrs :: "env \<Rightarrow> proxy_settings \<Rightarrow> agent \<Rightarrow> world \<Rightarrow> sockaddr list \<times> world" where
  "agent_addrs e cfg agent w = (case parse_ip (a_host agent) of
     Some ip \<Rightarrow> ([(ip, a_port agent)], w)
   | None \<Rightarrow> (case resolve e cfg (a_host agent) w of (ips, w') \<Rightarrow> (map (\<lambda>ip. (ip, a_port agent)) ips, w')))"

text \<open>One endpoint of the agent: connect and handshake under one budget.\<close>

definition agent_attempt :: "env \<Rightarrow> agent \<Rightarrow> string \<Rightarrow> u16 \<Rightarrow> sockaddr \<Rightarrow> io attempt" where
  "agent_attempt e agent target_host target_port a = (case tcp e a of
     Connected s \<Rightarrow> (case handshake (base64 e) (a_type agent) target_host target_port (a_credentials agent) s of
         (Inr _, s') \<Rightarrow> Connected s'
       | (Inl _, s') \<Rightarrow> TlsFailed)
   | failed \<Rightarrow> failed)"

definition connect_agent :: "env \<Rightarrow> proxy_settings \<Rightarrow> agent \<Rightarrow> string \<Rightarrow> u16 \<Rightarrow> world \<Rightarrow> (sockaddr \<times> io) option \<times> world" where
  "connect_agent e cfg agent target_host target_port w =
     (case agent_addrs e cfg agent w of (addrs, w') \<Rightarrow>
        let f = agent_attempt e agent target_host target_port in
        (connect_upstream f addrs, send_log (map (\<lambda>a. AskedAgent a target_host target_port) (attempted f addrs)) w'))"

section \<open>The dials\<close>

definition dial_upstream :: "env \<Rightarrow> proxy_settings \<Rightarrow> sockaddr list \<Rightarrow> string \<Rightarrow> u16 \<Rightarrow> world \<Rightarrow> io option \<times> world" where
  "dial_upstream e cfg addrs target_host target_port w = (case agent_config cfg of
     None \<Rightarrow> (map_option snd (connect_upstream (tcp e) addrs), send_log (map Dialled (attempted (tcp e) addrs)) w)
   | Some agent \<Rightarrow> (case connect_agent e cfg agent target_host target_port w of (r, w') \<Rightarrow> (map_option snd r, w')))"

definition system_addrs :: "env \<Rightarrow> string \<Rightarrow> u16 \<Rightarrow> world \<Rightarrow> ipaddr list \<times> world" where
  "system_addrs e host port w = (case os_lookup e host port (clock w) of (r, d) \<Rightarrow>
     let ips = (case r of Some ips \<Rightarrow> ips | None \<Rightarrow> []) in
     (ips, send_log [OsLookup host port ips] (w\<lparr>clock := clock w + d\<rparr>)))"

definition dial_by_name :: "env \<Rightarrow> string \<Rightarrow> u16 \<Rightarrow> world \<Rightarrow> io option \<times> world" where
  "dial_by_name e host port w =
     ((case by_name e host port of Connected s \<Rightarrow> Some s | _ \<Rightarrow> None), send_log [DialledByName host port] w)"

text \<open>The TLS step on top. \<open>server_name\<close> and \<open>tls\<close> are the TLS library: the name it accepts and the
  handshake on a stream (which verifies the certificate); \<open>connect\<close> is the direct dial with it.\<close>

definition dial_upstream_tls ::
  "env \<Rightarrow> (string \<Rightarrow> 'n option) \<Rightarrow> ('n sni_name \<Rightarrow> sockaddr \<Rightarrow> 'c attempt) \<Rightarrow> ('n sni_name \<Rightarrow> io \<Rightarrow> 'c attempt) \<Rightarrow>
   proxy_settings \<Rightarrow> sockaddr list \<Rightarrow> string \<Rightarrow> u16 \<Rightarrow> world \<Rightarrow> 'c option \<times> world" where
  "dial_upstream_tls e server_name connect tls cfg addrs host port w = (case agent_config cfg of
     None \<Rightarrow> (map_option snd (connect_upstream_tls server_name connect addrs host),
       send_log (map Dialled (case server_name host of None \<Rightarrow> [] | Some n \<Rightarrow> attempted (connect (Named n)) addrs)) w)
   | Some agent \<Rightarrow> (case connect_agent e cfg agent host port w of
       (None, w') \<Rightarrow> (None, w')
     | (Some (a, s), w') \<Rightarrow> (case server_name host of
           None \<Rightarrow> (None, w')
         | Some n \<Rightarrow> (case tls (Named n) s of Connected c \<Rightarrow> (Some c, w') | _ \<Rightarrow> (None, w')))))"

definition dial_upstream_tls_no_sni ::
  "env \<Rightarrow> ('n sni_name \<Rightarrow> sockaddr \<Rightarrow> 'c attempt) \<Rightarrow> ('n sni_name \<Rightarrow> io \<Rightarrow> 'c attempt) \<Rightarrow>
   proxy_settings \<Rightarrow> sockaddr list \<Rightarrow> string \<Rightarrow> u16 \<Rightarrow> world \<Rightarrow> 'c option \<times> world" where
  "dial_upstream_tls_no_sni e connect tls cfg addrs target_host port w = (case agent_config cfg of
     None \<Rightarrow> (map_option snd (connect_upstream_tls_no_sni connect addrs),
       send_log (map Dialled (attempted (\<lambda>a. connect (ByAddress (sa_ip a)) a) addrs)) w)
   | Some agent \<Rightarrow> (case connect_agent e cfg agent target_host port w of
       (None, w') \<Rightarrow> (None, w')
     | (Some (a, s), w') \<Rightarrow>
         (case tls (ByAddress (sa_ip a)) s of Connected c \<Rightarrow> (Some c, w') | _ \<Rightarrow> (None, w'))))"

section \<open>Facts on what a dial does\<close>

lemma attempted_members: "a \<in> set (attempted f as) \<Longrightarrow> a \<in> set as"
  by (induction as) (auto split: attempt.splits)

lemma attempted_all: "connect_upstream f as = None \<Longrightarrow> attempted f as = as"
  by (induction as) (auto split: attempt.splits)

lemma attempted_prefix: "prefix (attempted f as) as"
  by (induction as) (auto split: attempt.splits)

lemma attempted_last:
  "connect_upstream f as = Some (a, c) \<Longrightarrow> attempted f as \<noteq> [] \<and> last (attempted f as) = a"
  by (induction as) (auto split: attempt.splits)

text \<open>\<open>logged P w w'\<close>: between \<open>w\<close> and \<open>w'\<close> only events of the kind \<open>P\<close> were logged.\<close>

definition logged :: "(event \<Rightarrow> bool) \<Rightarrow> world \<Rightarrow> world \<Rightarrow> bool" where
  "logged P w w' \<longleftrightarrow> (\<exists>es. events w' = events w @ es \<and> list_all P es)"

lemma logged_refl [simp]: "logged P w w"
  by (simp add: logged_def)

lemma logged_trans: "logged P w w' \<Longrightarrow> logged P w' w'' \<Longrightarrow> logged P w w''"
  by (auto simp: logged_def)

lemma logged_log: "list_all P es \<Longrightarrow> logged P w (send_log es w)"
  by (auto simp: logged_def send_log_def)

lemma logged_log_upd: "list_all P es \<Longrightarrow> events v = events w \<Longrightarrow> logged P w (send_log es v)"
  by (auto simp: logged_def send_log_def)

lemma logged_mono: "logged P w w' \<Longrightarrow> (\<And>x. P x \<Longrightarrow> Q x) \<Longrightarrow> logged Q w w'"
  by (auto simp: logged_def list_all_iff)

lemma resolve_logged: "resolve e cfg host w = (ips, w') \<Longrightarrow> P (Resolved host ips) \<Longrightarrow> logged P w w'"
  by (auto simp: resolve_def logged_def send_log_def split: prod.splits)

lemma system_addrs_logged: "system_addrs e host port w = (ips, w') \<Longrightarrow> P (OsLookup host port ips) \<Longrightarrow> logged P w w'"
  by (auto simp: system_addrs_def logged_def send_log_def Let_def split: prod.splits)

lemma by_name_logged: "dial_by_name e host port w = (r, w') \<Longrightarrow> P (DialledByName host port) \<Longrightarrow> logged P w w'"
  by (auto simp: dial_by_name_def logged_def send_log_def)

text \<open>What may be logged when every dial has to go through the agent to one of the targets \<open>T\<close>.\<close>

fun through_agent :: "proxy_settings \<Rightarrow> (string \<times> u16) set \<Rightarrow> event \<Rightarrow> bool" where
  "through_agent cfg T (AskedAgent a h p) = ((h, p) \<in> T \<and> sa_port a = two_level_agent_port cfg)"
| "through_agent cfg T (Dialled a) = False"
| "through_agent cfg T (DialledByName h p) = False"
| "through_agent cfg T (Resolved h ips) = True"
| "through_agent cfg T (OsLookup h p ips) = True"
| "through_agent cfg T (Sent a n) = True"

lemma agent_addrs_logged:
  "agent_addrs e cfg agent w = (addrs, w') \<Longrightarrow> (\<And>ips. P (Resolved (a_host agent) ips)) \<Longrightarrow> logged P w w'"
  by (auto simp: agent_addrs_def resolve_logged split: option.splits prod.splits)

lemma agent_addrs_port: "agent_addrs e cfg agent w = (addrs, w') \<Longrightarrow> a \<in> set addrs \<Longrightarrow> sa_port a = a_port agent"
  by (auto simp: agent_addrs_def split: option.splits prod.splits)

lemma connect_agent_logged:
  assumes "connect_agent e cfg agent h p w = (r, w')" "agent_config cfg = Some agent" "(h, p) \<in> T"
  shows "logged (through_agent cfg T) w w'"
proof -
  obtain addrs w1 where a: "agent_addrs e cfg agent w = (addrs, w1)" by (cases "agent_addrs e cfg agent w")
  have port: "a_port agent = two_level_agent_port cfg"
    using assms(2) by (auto simp: agent_config_def Let_def split: if_splits)
  have "logged (through_agent cfg T) w w1" by (rule agent_addrs_logged [OF a]) simp
  moreover have "\<forall>x\<in>set (attempted f addrs). sa_port x = two_level_agent_port cfg" for f :: "sockaddr \<Rightarrow> io attempt"
    using attempted_members [of _ f addrs] agent_addrs_port [OF a] port by auto
  then have "logged (through_agent cfg T) w1 w'"
    using assms a by (auto simp: connect_agent_def Let_def list_all_iff intro!: logged_log)
  ultimately show ?thesis using logged_trans by blast
qed

lemma dial_upstream_agent_logged:
  "dial_upstream e cfg addrs h p w = (r, w') \<Longrightarrow> agent_config cfg \<noteq> None \<Longrightarrow> (h, p) \<in> T \<Longrightarrow>
     logged (through_agent cfg T) w w'"
  by (auto simp: dial_upstream_def intro: connect_agent_logged split: prod.splits)

lemma dial_upstream_direct:
  "agent_config cfg = None \<Longrightarrow> dial_upstream e cfg addrs h p w =
     (map_option snd (connect_upstream (tcp e) addrs), send_log (map Dialled (attempted (tcp e) addrs)) w)"
  by (simp add: dial_upstream_def)

end
