(* ===== verification/Fwd.thy ===== *)
theory Fwd
  imports Dial ClientHello
begin

text \<open>
  The forward proxy of \<open>crates/core/src/fwd.rs\<close>: one connection from the request head to its outcome.
  The runtime tables behind the locks are read once per connection here; the proxy writes them only
  when it starts. The relay of a tunnel is in \<open>Relay\<close>, the decryption of one in \<open>Mitm\<close>.
\<close>

section \<open>Request targets\<close>

definition has_scheme :: "string \<Rightarrow> string \<Rightarrow> bool" where
  "has_scheme scheme target = eq_ignore_case (take (length scheme) target) scheme"

definition is_plain_http :: "string \<Rightarrow> bool" where
  "is_plain_http target = has_scheme ''http://'' target"

definition is_absolute_http_target :: "string \<Rightarrow> bool" where
  "is_absolute_http_target target = (is_plain_http target \<or> has_scheme ''https://'' target)"

definition is_pac_absolute_path :: "string \<Rightarrow> bool" where
  "is_pac_absolute_path target =
     (case (case strip_prefix ''http://'' target of Some r \<Rightarrow> Some r | None \<Rightarrow> strip_prefix ''https://'' target) of
        None \<Rightarrow> False
      | Some rest \<Rightarrow> (case find_char CHR ''/'' rest of
            None \<Rightarrow> False
          | Some i \<Rightarrow> (let path = hd (split_on CHR ''?'' (drop i rest)) in path = ''/pac'' \<or> path = ''/proxy.pac'')))"

definition is_domain_form :: "string \<Rightarrow> bool" where
  "is_domain_form host = (parse_ip host = None \<and> CHR ''.'' \<in> set host)"

definition is_dns_poisoned :: "ipaddr list \<Rightarrow> bool" where
  "is_dns_poisoned ips = (case ips of ip # _ \<Rightarrow> is_loopback ip | [] \<Rightarrow> True)"

definition parse_host_port_default :: "string \<Rightarrow> u16 \<Rightarrow> (string \<times> u16) option" where
  "parse_host_port_default target standard =
     (let t = trim_end_matches CHR ''/'' (trim target) in
      case strip_prefix ''['' t of
        Some rest \<Rightarrow> (case split_once CHR '']'' rest of
            None \<Rightarrow> None
          | Some (host, after) \<Rightarrow> (case strip_prefix '':'' after of
                Some p \<Rightarrow> map_option (\<lambda>port. (host, port)) (parse_u16 (trim p))
              | None \<Rightarrow> if after = [] then Some (host, standard) else None))
      | None \<Rightarrow> (case rsplit_once CHR '':'' t of
            Some (host, port) \<Rightarrow>
              if port \<noteq> [] \<and> list_all is_digit port then map_option (\<lambda>n. (host, n)) (parse_u16 port)
              else Some (t, standard)
          | None \<Rightarrow> Some (t, standard)))"

definition parse_host_port :: "string \<Rightarrow> (string \<times> u16) option" where
  "parse_host_port target = parse_host_port_default target 443"

section \<open>Runtime and outcomes\<close>

record fwd_runtime =
  config :: proxy_settings
  domains :: "string list"
  forward :: "(string \<times> string) list"
  configured_ips :: "(string \<times> ipaddr list) list"
  mitm_on :: bool

text \<open>\<open>Closed\<close> carries the client stream at the end; \<open>Exchanged\<close> the client and the upstream stream of a
  forwarded request; \<open>Tunnel\<close> the two streams that are relayed; \<open>Decrypt\<close> hands the client stream to
  the TLS termination; \<open>Broken\<close> is an error return, \<open>Waiting\<close> a client that never sends its head.\<close>

datatype outcome =
    Closed io
  | Broken io
  | Exchanged io io
  | Tunnel io io
  | Decrypt u16 io
  | Waiting io

section \<open>Tunnels\<close>

definition dial_tunnel_upstream :: "env \<Rightarrow> fwd_runtime \<Rightarrow> string \<Rightarrow> u16 \<Rightarrow> world \<Rightarrow> io option \<times> world" where
  "dial_tunnel_upstream e rt host port w =
     (let cfg = config rt;
          accelerated = is_accelerated host (domains rt);
          preferred = manifest_ips_for cfg (configured_ips rt) host;
          al = manifest_forward_for cfg (forward rt) host;
          dial_host = (case al of Some a \<Rightarrow> a | None \<Rightarrow> host);
          (addrs, w) = (if accelerated \<or> al \<noteq> None
            then (case resolve e cfg dial_host w of (ips, w) \<Rightarrow> (candidate_endpoints preferred port ips, w))
            else ([], w));
          (up, w) = dial_upstream e cfg addrs dial_host port w;
          (up, w) = (if up = None \<and> al \<noteq> None \<and> accelerated
            then (case resolve e cfg host w of (ips, w) \<Rightarrow>
              dial_upstream e cfg (filter (\<lambda>a. a \<notin> set addrs) (candidate_endpoints [] port ips)) host port w)
            else (up, w)) in
      if up = None \<and> \<not> accelerated \<and> al = None \<and> agent_config cfg = None
      then dial_by_name e host port w
      else (up, w))"

definition bad_request_plain :: string where
  "bad_request_plain = ''HTTP/1.1 400 Bad Request'' @ crlf @ ''Content-Length: 0'' @ crlf @ crlf"

definition established :: string where
  "established = ''HTTP/1.1 200 Connection Established'' @ crlf @ crlf"

definition bad_request :: string where
  "bad_request = ''HTTP/1.1 400 Bad Request'' @ crlf @ ''Content-Length: 0'' @ crlf @ ''Connection: close'' @ crlf @ crlf"

definition bad_gateway :: string where
  "bad_gateway = ''HTTP/1.1 502 Bad Gateway'' @ crlf @ ''Content-Length: 0'' @ crlf @ ''Connection: close'' @ crlf @ crlf"

definition relay_bare :: "env \<Rightarrow> fwd_runtime \<Rightarrow> io \<Rightarrow> string \<Rightarrow> u16 \<Rightarrow> world \<Rightarrow> outcome \<times> world" where
  "relay_bare e rt client host port w = (case dial_tunnel_upstream e rt host port w of
     (None, w) \<Rightarrow> (Closed client, w)
   | (Some up, w) \<Rightarrow> (Tunnel client up, w))"

definition tls_record_head :: "bytes \<Rightarrow> bool" where
  "tls_record_head head = (length head = 2 \<and> head ! 0 = 0x16 \<and> head ! 1 = 0x03)"

definition handle_connect :: "env \<Rightarrow> fwd_runtime \<Rightarrow> poll list \<Rightarrow> io \<Rightarrow> string \<Rightarrow> world \<Rightarrow> outcome \<times> world" where
  "handle_connect e rt polls client target w = (case parse_host_port target of
     None \<Rightarrow> (Closed (snd (write_all bad_request_plain client)), w)
   | Some (host, port) \<Rightarrow>
       (case write_all established client of (ok, client) \<Rightarrow>
          if \<not> ok then (Broken client, w)
          else (case peek_client_head polls of
              None \<Rightarrow> (Waiting client, w)
            | Some head \<Rightarrow>
                if tls_record_head head \<and> mitm_on rt then (Decrypt port client, w)
                else (case dial_tunnel_upstream e rt host port w of
                    (None, w) \<Rightarrow> (Closed client, w)
                  | (Some up, w) \<Rightarrow> (Tunnel client up, w)))))"

definition handle_steered_tunnel :: "env \<Rightarrow> fwd_runtime \<Rightarrow> poll list \<Rightarrow> io \<Rightarrow> world \<Rightarrow> outcome \<times> world" where
  "handle_steered_tunnel e rt polls client w = (case peek_client_sni polls of
     None \<Rightarrow> (Closed client, w)
   | Some host \<Rightarrow> relay_bare e rt client host 443 w)"

section \<open>The PAC file\<close>

definition write_both :: "string \<Rightarrow> string \<Rightarrow> io \<Rightarrow> outcome" where
  "write_both head body client = (case write_all head client of (ok, c) \<Rightarrow>
     if \<not> ok then Broken c
     else (case write_all body c of (ok, c) \<Rightarrow> if ok then Closed c else Broken c))"

definition pac_head :: "nat \<Rightarrow> string" where
  "pac_head n = ''HTTP/1.1 200 OK'' @ crlf @ ''Content-Type: application/x-ns-proxy-autoconfig'' @ crlf @
     ''Content-Disposition: attachment;filename=proxy.pac'' @ crlf @ ''Content-Length: '' @ show_nat n @ crlf @
     ''Connection: close'' @ crlf @ crlf"

definition serve_pac :: "fwd_runtime \<Rightarrow> io \<Rightarrow> http_request \<Rightarrow> outcome" where
  "serve_pac rt client req =
     (let host_hdr = trim (case header req ''Host'' of Some v \<Rightarrow> v | None \<Rightarrow> []);
          proxy_host = (if host_hdr = [] then ''127.0.0.1:'' @ show_port (system_proxy_port (config rt)) else host_hdr);
          pac = create_pac proxy_host (domains rt) in
      write_both (pac_head (length pac)) pac client)"

section \<open>Forwarded requests\<close>

text \<open>The refusal, in UTF-8: the name may have been polluted.\<close>

definition pollution_notice :: "string \<Rightarrow> string" where
  "pollution_notice host =
     [CHR 0xE5, CHR 0x9F, CHR 0x9F, CHR 0xE5, CHR 0x90, CHR 0x8D] @ '' '' @ host @
     '' '' @ [CHR 0xE5, CHR 0x8F, CHR 0xAF, CHR 0xE8, CHR 0x83, CHR 0xBD, CHR 0xE5, CHR 0xB7, CHR 0xB2,
     CHR 0xE7, CHR 0xBB, CHR 0x8F, CHR 0xE8, CHR 0xA2, CHR 0xAB] @ '' DNS '' @ [CHR 0xE6, CHR 0xB1, CHR
     0xA1, CHR 0xE6, CHR 0x9F, CHR 0x93, CHR 0xEF, CHR 0xBC, CHR 0x8C, CHR 0xE5, CHR 0xA6, CHR 0x82, CHR
     0xE6, CHR 0x9E, CHR 0x9C, CHR 0xE5, CHR 0x9F, CHR 0x9F, CHR 0xE5, CHR 0x90, CHR 0x8D, CHR 0xE4, CHR
     0xB8, CHR 0xBA, CHR 0xE6, CHR 0x9C, CHR 0xAC, CHR 0xE6, CHR 0x9C, CHR 0xBA, CHR 0xE5, CHR 0x9F, CHR
     0x9F, CHR 0xE5, CHR 0x90, CHR 0x8D, CHR 0xEF, CHR 0xBC, CHR 0x8C, CHR 0xE8, CHR 0xAF, CHR 0xB7, CHR
     0xE8, CHR 0xA7, CHR 0xA3, CHR 0xE6, CHR 0x9E, CHR 0x90, CHR 0xE4, CHR 0xB8, CHR 0xBA, CHR 0xE9, CHR
     0x9D, CHR 0x9E, CHR 0xE5, CHR 0x9B, CHR 0x9E, CHR 0xE7, CHR 0x8E, CHR 0xAF] @ '' IP'' @ [CHR 0xE3,
     CHR 0x80, CHR 0x82]"

definition internal_error_head :: "nat \<Rightarrow> string" where
  "internal_error_head n = ''HTTP/1.1 500 Internal Server Error'' @ crlf @ ''Content-Type: text/plain; charset=utf-8'' @ crlf @
     ''Content-Length: '' @ show_nat n @ crlf @ ''Connection: close'' @ crlf @ crlf"

definition found_head :: "string \<Rightarrow> string" where
  "found_head location = ''HTTP/1.1 302 Found'' @ crlf @ ''Location: '' @ location @ crlf @
     ''Content-Length: 0'' @ crlf @ ''Connection: close'' @ crlf @ crlf"

text \<open>The relay of a response reads from the upstream and writes to the client: one stream state with the
  input of the one and the output of the other.\<close>

definition across :: "io \<Rightarrow> io \<Rightarrow> io" where
  "across client up = client\<lparr>inp := inp up, segs := segs up, ending_of := ending_of up\<rparr>"

definition written_to :: "io \<Rightarrow> io \<Rightarrow> io" where
  "written_to client s = client\<lparr>outp := outp s, room := room s\<rparr>"

definition read_from :: "io \<Rightarrow> io \<Rightarrow> io" where
  "read_from up s = up\<lparr>inp := inp s, segs := segs s\<rparr>"

definition exchange_http :: "io \<Rightarrow> io \<Rightarrow> http_request \<Rightarrow> string \<Rightarrow> u16 \<Rightarrow> outcome" where
  "exchange_http client up req2 host port =
     (case write_all (write_request req2 host port False) up of (ok, up) \<Rightarrow>
        if \<not> ok then Exchanged client up
        else (case read_response_head up of
            (None, up) \<Rightarrow> Exchanged (snd (write_all bad_gateway client)) up
          | (Some head, up) \<Rightarrow> (case stream_response_body head (r_method req2) (across client up) of
              (_, s) \<Rightarrow> Exchanged (written_to client s) (read_from up s))))"

text \<open>The target split into what the rest of the handler uses: host, port and origin-form path.\<close>

definition absolute_rest :: "string \<Rightarrow> string option" where
  "absolute_rest uri = (if is_plain_http uri then Some (drop 7 uri)
     else if has_scheme ''https://'' uri then Some (drop 8 uri) else None)"

definition split_target :: "string \<Rightarrow> string \<Rightarrow> string \<times> u16 \<times> string" where
  "split_target uri r =
     (let hostpart = hd (split_on CHR ''/'' r);
          standard = (if is_plain_http uri then 80 else 443);
          (host, port) = (case parse_host_port_default hostpart standard of Some hp \<Rightarrow> hp | None \<Rightarrow> (hostpart, standard));
          path = (case find_char CHR ''/'' r of Some i \<Rightarrow> drop i r | None \<Rightarrow> ''/'') in
      (host, port, path))"

definition redirected :: "fwd_runtime \<Rightarrow> string \<Rightarrow> string \<Rightarrow> bool" where
  "redirected rt uri host = (enable_http_proxy_to_https (config rt) \<and> is_plain_http uri \<and> is_accelerated host (domains rt))"

text \<open>The dial of a forwarded request: \<open>None\<close> when the pollution guard refuses.\<close>

definition dial_http :: "env \<Rightarrow> fwd_runtime \<Rightarrow> string \<Rightarrow> u16 \<Rightarrow> world \<Rightarrow> io option option \<times> world" where
  "dial_http e rt host port w =
     (let cfg = config rt;
          accelerated = is_accelerated host (domains rt);
          preferred = manifest_ips_for cfg (configured_ips rt) host;
          (ips, w) = (if accelerated then resolve e cfg host w else ([], w));
          addrs = candidate_endpoints preferred port ips;
          guarded = (\<not> accelerated \<and> addrs = [] \<and> is_domain_form host \<and> \<not> only_enable_proxy_script cfg);
          (system_ips, w) = (if guarded then system_addrs e host port w else ([], w)) in
      if guarded \<and> is_dns_poisoned system_ips then (None, w)
      else (let (up, w) = dial_upstream e cfg addrs host port w in
        if up = None \<and> \<not> accelerated \<and> addrs = [] \<and> agent_config cfg = None
        then (if system_ips = []
          then (case dial_by_name e host port w of (up, w) \<Rightarrow> (Some up, w))
          else (case dial_upstream e cfg (candidate_endpoints system_ips port []) host port w of (up, w) \<Rightarrow> (Some up, w)))
        else (Some up, w)))"

definition handle_http :: "env \<Rightarrow> fwd_runtime \<Rightarrow> io \<Rightarrow> http_request \<Rightarrow> world \<Rightarrow> outcome \<times> world" where
  "handle_http e rt client req w = (let uri = trim (r_path req) in case absolute_rest uri of
     None \<Rightarrow> (Closed (snd (write_all bad_request client)), w)
   | Some r \<Rightarrow> (case split_target uri r of (host, port, path) \<Rightarrow>
       if redirected rt uri host
       then (case write_all (found_head (''https://'' @ host @ path)) client of (ok, c) \<Rightarrow>
           (if ok then Closed c else Broken c, w))
       else (case dial_http e rt host port w of
           (None, w) \<Rightarrow> (write_both (internal_error_head (length (pollution_notice host))) (pollution_notice host) client, w)
         | (Some None, w) \<Rightarrow> (Closed (snd (write_all bad_gateway client)), w)
         | (Some (Some up), w) \<Rightarrow> (exchange_http client up (req\<lparr>r_path := path\<rparr>) host port, w))))"

definition handle_conn :: "(nat \<Rightarrow> bool) \<Rightarrow> env \<Rightarrow> fwd_runtime \<Rightarrow> poll list \<Rightarrow> io \<Rightarrow> world \<Rightarrow> outcome \<times> world" where
  "handle_conn alloc e rt polls client w = (case read_request alloc client of
     (None, client) \<Rightarrow> (Closed client, w)
   | (Some req, client) \<Rightarrow>
       (let target = r_path req in
        if eq_ignore_case (r_method req) ''CONNECT'' then handle_connect e rt polls client target w
        else if \<not> is_absolute_http_target target \<or> is_pac_absolute_path target then (serve_pac rt client req, w)
        else handle_http e rt client req w))"

section \<open>What one connection may send\<close>

text \<open>The handlers are built from five basic steps. A policy says which of them may be logged while a
  request for a host is served; what the steps respect, both dial sequences respect.\<close>

locale dial_policy =
  fixes rt :: fwd_runtime and P :: "string \<Rightarrow> event \<Rightarrow> bool"
  assumes resolving: "P h (Resolved x ips)"
    and os_asked: "\<not> is_accelerated h (domains rt) \<Longrightarrow> P h (OsLookup h p ips)"
    and direct: "agent_config (config rt) = None \<Longrightarrow> P h (Dialled a)"
    and named: "agent_config (config rt) = None \<Longrightarrow> \<not> is_accelerated h (domains rt) \<Longrightarrow> P h (DialledByName h p)"
    and agent_asked: "agent_config (config rt) = Some ag \<Longrightarrow> sa_port a = a_port ag \<Longrightarrow> P h (AskedAgent a x p)"
begin

lemma resolve_ok: "resolve e cfg x w = (ips, w') \<Longrightarrow> logged (P h) w w'"
  by (rule resolve_logged) (simp_all add: resolving)

lemma dial_ok:
  assumes "dial_upstream e (config rt) addrs x p w = (r, w')"
  shows "logged (P h) w w'"
proof (cases "agent_config (config rt)")
  case None
  then show ?thesis using assms direct
    by (auto simp: dial_upstream_direct list_all_iff intro!: logged_log)
next
  case (Some ag)
  obtain as w1 where a: "agent_addrs e (config rt) ag w = (as, w1)" by (cases "agent_addrs e (config rt) ag w")
  have "\<forall>a\<in>set (attempted f as). P h (AskedAgent a x p)" for f :: "sockaddr \<Rightarrow> io attempt"
    using attempted_members [of _ f as] agent_addrs_port [OF a] agent_asked [OF Some] by blast
  then have "logged (P h) w1 w'" using assms a Some
    by (auto simp: dial_upstream_def connect_agent_def Let_def list_all_iff intro!: logged_log split: prod.splits)
  then show ?thesis using logged_trans agent_addrs_logged [OF a] resolving by blast
qed

lemma tunnel_ok:
  assumes "dial_tunnel_upstream e rt h p w = (r, w')"
  shows "logged (P h) w w'"
proof -
  let ?acc = "is_accelerated h (domains rt)"
  let ?al = "manifest_forward_for (config rt) (forward rt) h"
  define dial_host where "dial_host = (case ?al of Some a \<Rightarrow> a | None \<Rightarrow> h)"
  obtain addrs w1 where a: "(if ?acc \<or> ?al \<noteq> None
      then (case resolve e (config rt) dial_host w of (ips, w) \<Rightarrow>
        (candidate_endpoints (manifest_ips_for (config rt) (configured_ips rt) h) p ips, w)) else ([], w)) = (addrs, w1)"
    by fastforce
  have l1: "logged (P h) w w1" using a resolve_ok by (auto split: if_splits prod.splits)
  obtain up w2 where b: "dial_upstream e (config rt) addrs dial_host p w1 = (up, w2)" by fastforce
  obtain up' w3 where c: "(if up = None \<and> ?al \<noteq> None \<and> ?acc
      then (case resolve e (config rt) h w2 of (ips, w) \<Rightarrow>
        dial_upstream e (config rt) (filter (\<lambda>a. a \<notin> set addrs) (candidate_endpoints [] p ips)) h p w)
      else (up, w2)) = (up', w3)" by fastforce
  have l3: "logged (P h) w2 w3"
    using c resolve_ok dial_ok logged_trans by (fastforce split: if_splits prod.splits)
  have "(r, w') = (if up' = None \<and> \<not> ?acc \<and> ?al = None \<and> agent_config (config rt) = None
      then dial_by_name e h p w3 else (up', w3))"
    using assms a b c unfolding dial_tunnel_upstream_def dial_host_def by (simp add: Let_def)
  then have "logged (P h) w3 w'" using by_name_logged [of e h p w3 r w' "P h"] named by (auto split: if_splits)
  then show ?thesis using l1 dial_ok [OF b, of h] l3 logged_trans by blast
qed

lemma http_ok:
  assumes "dial_http e rt h p w = (r, w')"
  shows "logged (P h) w w'"
proof -
  let ?cfg = "config rt" and ?acc = "is_accelerated h (domains rt)"
  obtain ips w1 where a: "(if ?acc then resolve e ?cfg h w else ([], w)) = (ips, w1)" by fastforce
  have l1: "logged (P h) w w1" using a resolve_ok by (auto split: if_splits)
  define addrs where "addrs = candidate_endpoints (manifest_ips_for ?cfg (configured_ips rt) h) p ips"
  define g where "g \<longleftrightarrow> \<not> ?acc \<and> addrs = [] \<and> is_domain_form h \<and> \<not> only_enable_proxy_script ?cfg"
  obtain sys w2 where b: "(if g then system_addrs e h p w1 else ([], w1)) = (sys, w2)" by fastforce
  have l2: "logged (P h) w1 w2"
    using b os_asked by (auto simp: g_def split: if_splits intro: system_addrs_logged)
  obtain up w3 where c: "dial_upstream e ?cfg addrs h p w2 = (up, w3)" by fastforce
  have r: "(r, w') = (if g \<and> is_dns_poisoned sys then (None, w2)
      else if up = None \<and> \<not> ?acc \<and> addrs = [] \<and> agent_config ?cfg = None
        then (if sys = [] then (case dial_by_name e h p w3 of (up, w) \<Rightarrow> (Some up, w))
          else (case dial_upstream e ?cfg (candidate_endpoints sys p []) h p w3 of (up, w) \<Rightarrow> (Some up, w)))
        else (Some up, w3))"
    using assms unfolding dial_http_def Let_def a prod.case addrs_def [symmetric] g_def [symmetric] b c by simp
  have "w' = w2 \<or> logged (P h) w3 w'"
    using r named by (auto split: if_splits prod.splits intro: by_name_logged dial_ok)
  then show ?thesis using l1 l2 dial_ok [OF c, of h] logged_trans by blast
qed

end

text \<open>The agent takes every dial; an accelerated host is never handed to the system by name. Within the chain of \<open>resolve_a\<close> the system
  is the last resort, for such a host as well.\<close>

fun leaves_to_system :: "event \<Rightarrow> bool" where
  "leaves_to_system (OsLookup h p ips) = True"
| "leaves_to_system (DialledByName h p) = True"
| "leaves_to_system x = False"

definition agent_rule :: "fwd_runtime \<Rightarrow> string \<Rightarrow> event \<Rightarrow> bool" where
  "agent_rule rt h x \<longleftrightarrow> agent_config (config rt) = None \<or> through_agent (config rt) UNIV x"

definition system_rule :: "fwd_runtime \<Rightarrow> string \<Rightarrow> event \<Rightarrow> bool" where
  "system_rule rt h x \<longleftrightarrow> \<not> (is_accelerated h (domains rt) \<and> leaves_to_system x)"

lemma agent_config_port: "agent_config cfg = Some ag \<Longrightarrow> a_port ag = two_level_agent_port cfg"
  by (auto simp: agent_config_def Let_def split: if_splits)

interpretation by_agent: dial_policy rt "agent_rule rt" for rt
  by unfold_locales (auto simp: agent_rule_def agent_config_port)

interpretation by_resolver: dial_policy rt "system_rule rt" for rt
  by unfold_locales (auto simp: system_rule_def)

text \<open>The host a request is served for: what the handlers dial on behalf of.\<close>

definition served_host :: "http_request \<Rightarrow> string" where
  "served_host req =
     (if eq_ignore_case (r_method req) ''CONNECT''
      then (case parse_host_port (r_path req) of Some (h, _) \<Rightarrow> h | None \<Rightarrow> [])
      else (case absolute_rest (trim (r_path req)) of Some r \<Rightarrow> fst (split_target (trim (r_path req)) r) | None \<Rightarrow> []))"

context dial_policy begin

lemma connect_ok:
  "handle_connect e rt polls client target w = (r, w') \<Longrightarrow>
     logged (P (case parse_host_port target of Some (h, _) \<Rightarrow> h | None \<Rightarrow> [])) w w'"
  unfolding handle_connect_def by (auto split: option.splits prod.splits if_splits dest: tunnel_ok)

lemma steered_ok: "handle_steered_tunnel e rt polls client w = (r, w') \<Longrightarrow> \<exists>h. logged (P h) w w'"
  by (auto simp: handle_steered_tunnel_def relay_bare_def split: option.splits prod.splits
      dest: tunnel_ok intro: logged_refl)

lemma plain_ok:
  "handle_http e rt client req w = (r, w') \<Longrightarrow>
     logged (P (case absolute_rest (trim (r_path req)) of
       Some r \<Rightarrow> fst (split_target (trim (r_path req)) r) | None \<Rightarrow> [])) w w'"
  unfolding handle_http_def by (auto simp: Let_def split: option.splits prod.splits if_splits dest: http_ok)

lemma conn_ok:
  assumes "handle_conn alloc e rt polls client w = (r, w')"
  shows "w' = w \<or> (\<exists>req. fst (read_request alloc client) = Some req \<and> logged (P (served_host req)) w w')"
proof -
  obtain q c where q: "read_request alloc client = (q, c)" by fastforce
  show ?thesis
  proof (cases q)
    case (Some req)
    have "w' = w \<or> logged (P (served_host req)) w w'"
      using assms q Some connect_ok [of e polls c "r_path req" w r w'] plain_ok [of e c req w r w']
      by (auto simp: handle_conn_def served_host_def Let_def split: if_splits)
    then show ?thesis using q Some by auto
  qed (use assms q in \<open>auto simp: handle_conn_def\<close>)
qed

end

section \<open>Justified dials\<close>

text \<open>The addresses lookups of this log answered, and the addresses it dialled.\<close>

fun answers_of :: "event list \<Rightarrow> ipaddr set" where
  "answers_of [] = {}"
| "answers_of (Resolved h ips # es) = set ips \<union> answers_of es"
| "answers_of (OsLookup h p ips # es) = set ips \<union> answers_of es"
| "answers_of (_ # es) = answers_of es"

fun dialled_of :: "event list \<Rightarrow> sockaddr list" where
  "dialled_of [] = []"
| "dialled_of (Dialled a # es) = a # dialled_of es"
| "dialled_of (_ # es) = dialled_of es"

lemma answers_of_append [simp]: "answers_of (es @ fs) = answers_of es \<union> answers_of fs"
  by (induction es rule: answers_of.induct) auto

lemma dialled_of_append [simp]: "dialled_of (es @ fs) = dialled_of es @ dialled_of fs"
  by (induction es rule: dialled_of.induct) auto

lemma of_map_Dialled [simp]: "dialled_of (map Dialled as) = as" "answers_of (map Dialled as) = {}"
  by (induction as) auto

lemma of_map_AskedAgent [simp]: "dialled_of (map (\<lambda>a. AskedAgent a h p) as) = []" "answers_of (map (\<lambda>a. AskedAgent a h p) as) = {}"
  by (induction as) auto

text \<open>\<open>grows I port w w' A\<close>: the log grew by dials to \<open>port\<close> of addresses in \<open>I\<close> or answered in the new
  part, and the addresses \<open>A\<close> were answered there.\<close>

definition grows :: "ipaddr set \<Rightarrow> u16 \<Rightarrow> world \<Rightarrow> world \<Rightarrow> ipaddr set \<Rightarrow> bool" where
  "grows I port w w' A \<longleftrightarrow> (\<exists>es. events w' = events w @ es \<and> A \<subseteq> answers_of es \<and>
     set (dialled_of es) \<subseteq> (I \<union> answers_of es) \<times> {port})"

lemma grows_refl [simp]: "grows I port w w {}"
  by (auto simp: grows_def)

lemma grows_trans: "grows I port w w1 A \<Longrightarrow> grows (I \<union> A) port w1 w' B \<Longrightarrow> grows I port w w' (A \<union> B)"
  unfolding grows_def by (elim exE conjE, rename_tac es fs, rule_tac x = "es @ fs" in exI) auto

lemma grows_weaken: "grows I port w w' A \<Longrightarrow> B \<subseteq> A \<Longrightarrow> grows I port w w' B"
  by (auto simp: grows_def)

lemma grows_resolve: "resolve e cfg h w = (ips, w') \<Longrightarrow> grows I port w w' (set ips)"
  by (auto simp: resolve_def grows_def send_log_def split: prod.splits)

lemma grows_system: "system_addrs e h p w = (ips, w') \<Longrightarrow> grows I port w w' (set ips)"
  by (auto simp: system_addrs_def grows_def send_log_def Let_def split: prod.splits)

lemma grows_by_name: "dial_by_name e h p w = (r, w') \<Longrightarrow> grows I port w w' {}"
  by (auto simp: dial_by_name_def grows_def send_log_def)

lemma grows_dial:
  assumes "dial_upstream e cfg addrs h p w = (r, w')" "set addrs \<subseteq> I \<times> {port}"
  shows "grows I port w w' {}"
proof (cases "agent_config cfg")
  case None
  moreover have "set (attempted (tcp e) addrs) \<subseteq> I \<times> {port}"
    using assms(2) attempted_members by blast
  ultimately show ?thesis using assms(1) by (auto simp: dial_upstream_direct grows_def send_log_def)
next
  case (Some ag)
  obtain as w1 where a: "agent_addrs e cfg ag w = (as, w1)" by fastforce
  have "grows I port w w1 {}"
    using a grows_resolve [THEN grows_weaken] by (auto simp: agent_addrs_def split: option.splits prod.splits)
  moreover have "grows I port w1 w' {}"
    using assms(1) a Some by (auto simp: dial_upstream_def connect_agent_def Let_def grows_def send_log_def split: prod.splits)
  ultimately show ?thesis using grows_trans by fastforce
qed

lemma set_candidates: "set (candidate_endpoints preferred port ips) = (set preferred \<union> set ips) \<times> {port}"
  by (auto simp: candidate_endpoints_def candidate_loop_push set_push_new)

lemma grows_tunnel:
  assumes "dial_tunnel_upstream e rt h port w = (r, w')"
  shows "grows (set (manifest_ips_for (config rt) (configured_ips rt) h)) port w w' {}"
proof -
  let ?acc = "is_accelerated h (domains rt)" and ?al = "manifest_forward_for (config rt) (forward rt) h"
  let ?I = "set (manifest_ips_for (config rt) (configured_ips rt) h)"
  obtain addrs w1 where a: "(if ?acc \<or> ?al \<noteq> None
      then (case resolve e (config rt) (case ?al of Some a \<Rightarrow> a | None \<Rightarrow> h) w of (ips, w) \<Rightarrow>
        (candidate_endpoints (manifest_ips_for (config rt) (configured_ips rt) h) port ips, w)) else ([], w)) = (addrs, w1)"
    by fastforce
  obtain A where l1: "grows ?I port w w1 A" "set addrs \<subseteq> (?I \<union> A) \<times> {port}"
    using a grows_resolve [of e "config rt" _ w _ w1 ?I port]
    by (fastforce simp: set_candidates split: if_splits prod.splits intro: that [of "{}"])
  obtain up w2 where b: "dial_upstream e (config rt) addrs (case ?al of Some a \<Rightarrow> a | None \<Rightarrow> h) port w1 = (up, w2)" by fastforce
  have l2: "grows ?I port w w2 {}" using grows_trans [OF l1(1) grows_dial [OF b l1(2)]] by (rule grows_weaken) simp
  obtain up' w3 where c: "(if up = None \<and> ?al \<noteq> None \<and> ?acc
      then (case resolve e (config rt) h w2 of (ips, w) \<Rightarrow>
        dial_upstream e (config rt) (filter (\<lambda>a. a \<notin> set addrs) (candidate_endpoints [] port ips)) h port w)
      else (up, w2)) = (up', w3)" by fastforce
  have l3: "grows ?I port w w3 {}"
  proof (cases "up = None \<and> ?al \<noteq> None \<and> ?acc")
    case True
    obtain ips v where v: "resolve e (config rt) h w2 = (ips, v)" by fastforce
    have d: "dial_upstream e (config rt) (filter (\<lambda>a. a \<notin> set addrs) (candidate_endpoints [] port ips)) h port v = (up', w3)"
      using c True v by simp
    have "grows (?I \<union> set ips) port v w3 {}" by (rule grows_dial [OF d]) (auto simp: set_candidates)
    from grows_trans [OF grows_resolve [OF v] this] have "grows (?I \<union> {}) port w2 w3 {}" by (auto intro: grows_weaken)
    from grows_trans [OF l2 this] show ?thesis by simp
  qed (use c l2 in auto)
  have "(r, w') = (if up' = None \<and> \<not> ?acc \<and> ?al = None \<and> agent_config (config rt) = None
      then dial_by_name e h port w3 else (up', w3))"
    using assms unfolding dial_tunnel_upstream_def Let_def a prod.case b c by simp
  then have "grows (?I \<union> {}) port w3 w' {}" using grows_by_name [OF sym] by (auto split: if_splits)
  from grows_trans [OF l3 this] show ?thesis by simp
qed

lemma grows_http:
  assumes "dial_http e rt h port w = (r, w')"
  shows "grows (set (manifest_ips_for (config rt) (configured_ips rt) h)) port w w' {}"
proof -
  let ?cfg = "config rt" and ?acc = "is_accelerated h (domains rt)"
  let ?I = "set (manifest_ips_for ?cfg (configured_ips rt) h)"
  obtain ips w1 where a: "(if ?acc then resolve e ?cfg h w else ([], w)) = (ips, w1)" by fastforce
  define addrs where "addrs = candidate_endpoints (manifest_ips_for ?cfg (configured_ips rt) h) port ips"
  define g where "g \<longleftrightarrow> \<not> ?acc \<and> addrs = [] \<and> is_domain_form h \<and> \<not> only_enable_proxy_script ?cfg"
  obtain sys w2 where b: "(if g then system_addrs e h port w1 else ([], w1)) = (sys, w2)" by fastforce
  obtain up w3 where c: "dial_upstream e ?cfg addrs h port w2 = (up, w3)" by fastforce
  have l1: "grows ?I port w w1 (set ips)" using a grows_resolve by (auto split: if_splits)
  have l2: "grows (?I \<union> set ips) port w1 w2 (set sys)" using b grows_system by (auto split: if_splits)
  note l12 = grows_trans [OF l1 l2]
  have "set addrs \<subseteq> (?I \<union> (set ips \<union> set sys)) \<times> {port}" by (auto simp: addrs_def set_candidates)
  note l3 = grows_trans [OF l12 grows_dial [OF c this]]
  have r: "(r, w') = (if g \<and> is_dns_poisoned sys then (None, w2)
      else if up = None \<and> \<not> ?acc \<and> addrs = [] \<and> agent_config ?cfg = None
        then (if sys = [] then (case dial_by_name e h port w3 of (up, w) \<Rightarrow> (Some up, w))
          else (case dial_upstream e ?cfg (candidate_endpoints sys port []) h port w3 of (up, w) \<Rightarrow> (Some up, w)))
        else (Some up, w3))"
    using assms unfolding dial_http_def Let_def a prod.case addrs_def [symmetric] g_def [symmetric] b c by simp
  have sys: "set (candidate_endpoints sys port []) \<subseteq> (?I \<union> (set ips \<union> set sys \<union> {})) \<times> {port}"
    by (auto simp: set_candidates)
  have last: "w' = w2 \<or> grows (?I \<union> (set ips \<union> set sys \<union> {})) port w3 w' {}"
    using r grows_by_name grows_dial [OF _ sys] by (auto split: if_splits prod.splits)
  then show ?thesis
    using grows_weaken [OF l12, of "{}"] grows_weaken [OF grows_trans [OF l3], of _ _ "{}"] by auto
qed

section \<open>Properties\<close>

text \<open>C15. With a second-level agent configured, every connection the forward proxy and the bare tunnel
  open goes to the agent, on its port: no target is dialled directly and none by name.\<close>

theorem agent_takes_every_dial:
  assumes "agent_config (config rt) \<noteq> None"
    and "handle_conn alloc e rt polls client w = (r, w') \<or> handle_steered_tunnel e rt polls client w = (r, w')"
  shows "\<exists>es. events w' = events w @ es \<and> list_all (through_agent (config rt) UNIV) es"
proof -
  obtain h where "logged (agent_rule rt h) w w'"
    using assms(2) by_agent.conn_ok [of alloc e rt polls client w r w'] by_agent.steered_ok [of e rt polls client w r w']
      logged_refl by metis
  then show ?thesis using assms(1) by (auto simp: logged_def list_all_iff agent_rule_def)
qed

text \<open>A request for an accelerated host is never handed to the system by name, neither for a lookup nor
  for a connection: the hosts the proxy exists for are resolved through its own chain only.\<close>

theorem accelerated_never_asks_system:
  assumes "handle_conn alloc e rt polls client w = (r, w')"
    and "fst (read_request alloc client) = Some req"
    and "is_accelerated (served_host req) (domains rt)"
  shows "\<exists>es. events w' = events w @ es \<and> list_all (\<lambda>x. \<not> leaves_to_system x) es"
proof -
  have "logged (system_rule rt (served_host req)) w w'"
    using by_resolver.conn_ok [OF assms(1)] assms(2) by auto
  then show ?thesis using assms(3) by (auto simp: logged_def list_all_iff system_rule_def)
qed

text \<open>Every address that is dialled directly is justified: it is pinned by the manifest for the
  requested host or was answered to a lookup made for this very connection, and the port is the one
  of the request.\<close>

theorem dials_are_justified:
  assumes "dial_tunnel_upstream e rt h port w = (r, w') \<or> dial_http e rt h port w = (r2, w')"
  shows "\<exists>es. events w' = events w @ es \<and> set (dialled_of es) \<subseteq>
    (set (manifest_ips_for (config rt) (configured_ips rt) h) \<union> answers_of es) \<times> {port}"
  using assms grows_tunnel grows_http unfolding grows_def by blast

text \<open>The pollution guard: for a name the manifest does not cover the addresses that are judged are
  the ones dialled. When the system answers nothing, or a loopback address first, the request is
  refused with the notice and nothing is dialled; otherwise, without an agent, exactly the
  judged addresses are tried in order, and the system is not asked a second time.\<close>

theorem pollution_guard:
  assumes "\<not> is_accelerated host (domains rt)" "manifest_ips_for (config rt) (configured_ips rt) host = []"
    and "is_domain_form host" "\<not> only_enable_proxy_script (config rt)"
    and "system_addrs e host port w = (ips, w1)"
  shows "(is_dns_poisoned ips \<longrightarrow> dial_http e rt host port w = (None, w1))
    \<and> (\<not> is_dns_poisoned ips \<longrightarrow> agent_config (config rt) = None \<longrightarrow>
        (let addrs = candidate_endpoints ips port [] in
         dial_http e rt host port w = (Some (map_option snd (connect_upstream (tcp e) addrs)),
           send_log (map Dialled (attempted (tcp e) addrs)) w1)))"
proof -
  have c: "candidate_endpoints [] port [] = []" by (simp add: candidate_endpoints_def)
  have l: "send_log [] v = v" for v by (simp add: send_log_def)
  have "ips = [] \<Longrightarrow> is_dns_poisoned ips" by (simp add: is_dns_poisoned_def)
  then show ?thesis
    using assms by (auto simp: dial_http_def Let_def c l dial_upstream_direct)
qed

definition refused_by_guard :: "string \<Rightarrow> string" where
  "refused_by_guard host = internal_error_head (length (pollution_notice host)) @ pollution_notice host"

lemma write_free': "room s = None \<Longrightarrow> write_all bs s = (True, s\<lparr>outp := outp s @ bs\<rparr>)"
  by (simp add: write_all_def)

text \<open>The client got a response: its rewritten head and what arrived of the body.\<close>

definition got_response :: "io \<Rightarrow> io \<Rightarrow> bool" where
  "got_response client c = (\<exists>head body. outp c = outp client @ client_head head @ body)"

lemma exchange_answers:
  assumes "exchange_http client up req2 host port = r" "room client = None"
  shows "\<exists>c u. r = Exchanged c u \<and>
    (outp c = outp client \<and> room u = Some 0 \<or> outp c = outp client @ bad_gateway \<or> got_response client c)"
proof -
  obtain ok up1 where w: "write_all (write_request req2 host port False) up = (ok, up1)" by fastforce
  show ?thesis
  proof (cases ok)
    case True
    obtain h up2 where h: "read_response_head up1 = (h, up2)" by fastforce
    show ?thesis
    proof (cases h)
      case None
      then show ?thesis using assms w True h by (auto simp: exchange_http_def write_free')
    next
      case (Some head)
      obtain x s where s: "stream_response_body head (r_method req2) (across client up2) = (x, s)" by fastforce
      obtain body where "outp s = outp client @ client_head head @ body"
        using stream_response_body_truncates [OF s] assms(2) by (auto simp: across_def)
      then have "got_response client (written_to client s)" by (auto simp: got_response_def written_to_def)
      then show ?thesis using assms(1) w True h Some s by (auto simp: exchange_http_def)
    qed
  next
    case False
    then have "room up1 = Some 0" using w by (auto simp: write_all_def split: option.splits if_splits)
    then show ?thesis using assms w False by (auto simp: exchange_http_def)
  qed
qed


text \<open>A name or literal as it stands in a target.\<close>

definition plain_name :: "string \<Rightarrow> bool" where
  "plain_name h \<longleftrightarrow> h \<noteq> [] \<and> trim h = h \<and> CHR '':'' \<notin> set h \<and> CHR ''/'' \<notin> set h \<and> CHR ''['' \<notin> set h"

lemma target_as_written:
  "t \<noteq> [] \<Longrightarrow> \<not> is_ws (hd t) \<Longrightarrow> \<not> is_ws (last t) \<Longrightarrow> last t \<noteq> CHR ''/'' \<Longrightarrow>
     trim_end_matches CHR ''/'' (trim t) = t"
  using trim_nonempty_iff [of t]
  by (cases t rule: rev_cases) (simp_all add: trim_end_matches_def)

lemma digit_facts: "is_digit c \<Longrightarrow> \<not> is_ws c \<and> c \<noteq> CHR ''/'' \<and> c \<noteq> CHR '':''"
  by (auto simp: is_digit_def is_ws_def code_of_def)

lemma show_nat_facts: "\<not> is_ws (last (show_nat n))" "last (show_nat n) \<noteq> CHR ''/''" "CHR '':'' \<notin> set (show_nat n)"
  "trim (show_nat n) = show_nat n"
proof -
  have d: "c \<in> set (show_nat n) \<Longrightarrow> \<not> is_ws c \<and> c \<noteq> CHR ''/'' \<and> c \<noteq> CHR '':''" for c
    using show_nat_digit digit_facts by blast
  show "\<not> is_ws (last (show_nat n))" "last (show_nat n) \<noteq> CHR ''/''" "CHR '':'' \<notin> set (show_nat n)"
    using d [of "last (show_nat n)"] d [of "CHR '':''"] by auto
  show "trim (show_nat n) = show_nat n"
    using d [of "last (show_nat n)"] d [of "hd (show_nat n)"] trim_nonempty_iff [of "show_nat n"] by simp
qed

lemma parse_uint_too_big: "mx < n \<Longrightarrow> parse_uint mx (show_nat n) = None"
proof -
  assume n: "mx < n"
  obtain c t where ct: "show_nat n = c # t" by (cases "show_nat n") auto
  have d: "(case show_nat n of [] \<Rightarrow> [] | c # t \<Rightarrow> if c = CHR ''+'' then t else show_nat n) = show_nat n"
    using show_nat_no_plus [OF ct] by (simp add: ct)
  show ?thesis unfolding parse_uint_def Let_def d using n by simp
qed

lemma parse_named:
  assumes "plain_name h"
  shows "parse_host_port_default (h @ '':'' @ show_nat n) d = map_option (\<lambda>p. (h, p)) (parse_u16 (show_nat n))"
    and "parse_host_port_default h d = Some (h, d)"
proof -
  have h: "h \<noteq> []" "\<not> is_ws (hd h)" "\<not> is_ws (last h)" "last h \<noteq> CHR ''/''" "hd h \<noteq> CHR ''[''"
    using assms trim_nonempty_iff [of h] last_in_set [of h] hd_in_set [of h] unfolding plain_name_def by metis+
  have nb: "strip_prefix ''['' (h @ x) = None" for x
    using h(1,5) by (cases h) (auto simp: strip_prefix_def)
  have "trim_end_matches CHR ''/'' (trim (h @ '':'' @ show_nat n)) = h @ '':'' @ show_nat n"
    by (rule target_as_written) (use h show_nat_facts [of n] in simp_all)
  then show "parse_host_port_default (h @ '':'' @ show_nat n) d = map_option (\<lambda>p. (h, p)) (parse_u16 (show_nat n))"
    using nb [of "'':'' @ show_nat n"] show_nat_facts(3) [of n] show_nat_digits [of n]
    by (simp add: parse_host_port_default_def Let_def)
  have "trim_end_matches CHR ''/'' (trim h) = h" by (rule target_as_written) (use h in simp_all)
  then show "parse_host_port_default h d = Some (h, d)"
    using nb [of "[]"] assms by (simp add: parse_host_port_default_def Let_def plain_name_def)
qed

lemma parse_bracketed:
  assumes "CHR '']'' \<notin> set v"
  shows "parse_host_port_default (''['' @ v @ '']:'' @ show_nat n) d = map_option (\<lambda>p. (v, p)) (parse_u16 (show_nat n))"
    and "parse_host_port_default (''['' @ v @ '']'') d = Some (v, d)"
proof -
  have ws: "\<not> is_ws CHR ''[''" "\<not> is_ws CHR '']''" by code_simp+
  have "trim_end_matches CHR ''/'' (trim (''['' @ v @ '']:'' @ show_nat n)) = ''['' @ v @ '']:'' @ show_nat n"
    by (rule target_as_written) (use show_nat_facts [of n] ws in simp_all)
  then show "parse_host_port_default (''['' @ v @ '']:'' @ show_nat n) d = map_option (\<lambda>p. (v, p)) (parse_u16 (show_nat n))"
    using assms show_nat_facts(4) [of n] by (simp add: parse_host_port_default_def Let_def strip_prefix_def)
  have "trim_end_matches CHR ''/'' (trim (''['' @ v @ '']'')) = ''['' @ v @ '']''"
    by (rule target_as_written) (use ws in simp_all)
  then show "parse_host_port_default (''['' @ v @ '']'') d = Some (v, d)"
    using assms split_once_append [of "CHR '']''" v "[]"] by (simp add: parse_host_port_default_def Let_def strip_prefix_def)
qed

text \<open>A target is split into the host and port that were written, for names and for IPv6 literals in
  brackets, with the default where no port is given; a port above 65535 is refused, not wrapped.\<close>

theorem parse_host_port_roundtrip:
  assumes "plain_name h" "CHR '']'' \<notin> set v"
  shows "parse_host_port_default (h @ '':'' @ show_u16 p) d = Some (h, p)
    \<and> parse_host_port_default h d = Some (h, d)
    \<and> parse_host_port_default (''['' @ v @ '']:'' @ show_u16 p) d = Some (v, p)
    \<and> parse_host_port_default (''['' @ v @ '']'') d = Some (v, d)
    \<and> (65535 < n \<longrightarrow> parse_host_port_default (h @ '':'' @ show_nat n) d = None)"
  using parse_named [OF assms(1)] parse_bracketed [OF assms(2)] parse_u16_show [of p]
  by (simp add: show_u16_def parse_u16_def parse_uint_too_big)

section \<open>Witnesses\<close>

text \<open>One reachable server that answers every request; the system resolver knows it.\<close>

definition sample_env :: env where
  "sample_env = \<lparr>net = quiet_net,
     tcp = (\<lambda>a. if sa_ip a = ip4 20 205 243 166
       then Connected (stream (''HTTP/1.1 200 OK'' @ crlf @ ''Content-Length: 2'' @ crlf @ crlf @ ''hi'') [3]) else TcpFailed),
     os_lookup = (\<lambda>h p t. (Some [if h = ''bad.example'' then loopback4 else ip4 20 205 243 166], 5)),
     by_name = (\<lambda>h p. TimedOut), base64 = (\<lambda>x. x)\<rparr>"

definition sample_world :: world where
  "sample_world = \<lparr>dns = start_state, clock = 0, events = []\<rparr>"

definition sample_runtime :: fwd_runtime where
  "sample_runtime = \<lparr>config = default_settings, domains = [''github.com''], forward = [], configured_ips = [], mitm_on = False\<rparr>"

definition agent_runtime :: fwd_runtime where
  "agent_runtime = sample_runtime\<lparr>config := default_settings\<lparr>two_level_agent_enable := True\<rparr>\<rparr>"

definition get_of :: "string \<Rightarrow> io" where
  "get_of target = stream (''GET '' @ target @ '' HTTP/1.1'' @ crlf @ ''Host: x'' @ crlf @ crlf) [9]"

definition sample_get :: "string \<Rightarrow> http_request" where
  "sample_get target = \<lparr>r_method = ''GET'', r_path = target, r_headers = [(''Host'', ''x'')], r_body = []\<rparr>"

lemma agent_takes_every_dial_witness:
  "\<exists>es. events (snd (handle_conn (\<lambda>_. True) sample_env agent_runtime [] (get_of ''http://a.com/'') sample_world)) = es
     \<and> list_all (through_agent (config agent_runtime) UNIV) es"
proof -
  have "agent_config (config agent_runtime) \<noteq> None" by code_simp
  moreover obtain r w' where
    h: "handle_conn (\<lambda>_. True) sample_env agent_runtime [] (get_of ''http://a.com/'') sample_world = (r, w')" by fastforce
  ultimately show ?thesis using agent_takes_every_dial [OF _ disjI1 [OF h]] by (simp add: sample_world_def)
qed

lemma accelerated_never_asks_system_witness:
  "\<exists>es. events (snd (handle_conn (\<lambda>_. True) sample_env sample_runtime [] (get_of ''https://api.github.com/'') sample_world)) = es
     \<and> list_all (\<lambda>x. \<not> leaves_to_system x) es"
proof -
  have "fst (read_request (\<lambda>_. True) (get_of ''https://api.github.com/'')) = Some (sample_get ''https://api.github.com/'')"
    by code_simp
  moreover have "is_accelerated (served_host (sample_get ''https://api.github.com/'')) (domains sample_runtime)" by code_simp
  ultimately show ?thesis
    using accelerated_never_asks_system [OF surjective_pairing] by (fastforce simp: sample_world_def)
qed

lemma dials_are_justified_witness:
  "\<exists>es. events (snd (dial_http sample_env sample_runtime ''plain.example'' 80 sample_world)) = es \<and> set (dialled_of es) \<subseteq>
    (set (manifest_ips_for default_settings [] ''plain.example'') \<union> answers_of es) \<times> {80}"
  using dials_are_justified [OF disjI2, OF surjective_pairing, of sample_env sample_runtime "''plain.example''" 80 sample_world]
  by (simp add: sample_world_def sample_runtime_def)

lemma pollution_guard_witness:
  "fst (dial_http sample_env sample_runtime ''bad.example'' 80 sample_world) = None
   \<and> events (snd (dial_http sample_env sample_runtime ''plain.example'' 80 sample_world)) =
      [OsLookup ''plain.example'' 80 [ip4 20 205 243 166], Dialled (ip4 20 205 243 166, 80)]"
proof -
  have a: "\<not> is_accelerated ''bad.example'' (domains sample_runtime)" "\<not> is_accelerated ''plain.example'' (domains sample_runtime)"
    "manifest_ips_for (config sample_runtime) (configured_ips sample_runtime) ''bad.example'' = []"
    "manifest_ips_for (config sample_runtime) (configured_ips sample_runtime) ''plain.example'' = []"
    "is_domain_form ''bad.example''" "is_domain_form ''plain.example''" "\<not> only_enable_proxy_script (config sample_runtime)"
    by code_simp+
  obtain w1 where b: "system_addrs sample_env ''bad.example'' 80 sample_world = ([loopback4], w1)"
    by (simp add: system_addrs_def sample_env_def Let_def)
  obtain w2 where c: "system_addrs sample_env ''plain.example'' 80 sample_world = ([ip4 20 205 243 166], w2)"
      "events w2 = [OsLookup ''plain.example'' 80 [ip4 20 205 243 166]]"
    by (simp add: system_addrs_def sample_env_def sample_world_def send_log_def Let_def)
  have d: "agent_config (config sample_runtime) = None"
    "attempted (tcp sample_env) (candidate_endpoints [ip4 20 205 243 166] 80 []) = [(ip4 20 205 243 166, 80)]" by code_simp+
  show ?thesis
    using pollution_guard [OF a(1,3,5,7) b] pollution_guard [OF a(2,4,6,7) c(1)] c(2) d
    by (simp add: is_dns_poisoned_def Let_def send_log_def)
qed


lemma parse_host_port_roundtrip_witness:
  "parse_host_port_default ''github.com:8080'' 443 = Some (''github.com'', 8080)
   \<and> parse_host_port_default ''[::1]'' 443 = Some (''::1'', 443) \<and> parse_host_port_default ''github.com:65536'' 443 = None"
proof -
  have "plain_name ''github.com''" "CHR '']'' \<notin> set ''::1''" by code_simp+
  from parse_host_port_roundtrip [OF this, of 8080 443 65536]
  have "parse_host_port_default (''github.com'' @ '':'' @ show_u16 8080) 443 = Some (''github.com'', 8080)"
    "parse_host_port_default (''['' @ ''::1'' @ '']'') 443 = Some (''::1'', 443)"
    "parse_host_port_default (''github.com'' @ '':'' @ show_nat 65536) 443 = None" by simp_all
  moreover have "show_u16 8080 = ''8080''" "show_nat 65536 = ''65536''" by code_simp+
  ultimately show ?thesis by simp
qed

end
