(* ===== verification/Relay.thy ===== *)
theory Relay
  imports Fwd
begin

text \<open>
  The two pumps of a tunnel (\<open>relay\<close> and \<open>pump\<close> in \<open>crates/core/src/fwd.rs\<close>), run concurrently by
  \<open>join!\<close> and linked by one \<open>Notify\<close> with its stored permit. A step is one completed read, write or
  notification of one pump; the scheduler, the size of the reads and the failure of a write are
  free. What a peer will still send is the source of a pump, what it got is its destination.
\<close>

section \<open>The pumps\<close>

text \<open>\<open>Writing bs\<close> is between a read and the end of its \<open>write_all\<close>; \<open>HalfClosed\<close> after the clean end of
  the source and the shutdown of the destination, \<open>Dropped\<close> after an error.\<close>

datatype status = Reading | Writing string | HalfClosed | Dropped

record pump =
  src :: string
  src_end :: ending
  status_of :: status
  dst :: string

definition buffer_size :: nat where "buffer_size = 16 * 1024"

inductive pump_step :: "pump \<Rightarrow> bool \<Rightarrow> pump \<Rightarrow> bool \<Rightarrow> bool" where
  aborted: "status_of p = Reading \<Longrightarrow> pump_step p True (p\<lparr>status_of := Dropped\<rparr>) False"
| ended: "status_of p = Reading \<Longrightarrow> src p = [] \<Longrightarrow> src_end p = Eof \<Longrightarrow>
    pump_step p False (p\<lparr>status_of := HalfClosed\<rparr>) False"
| read_failed: "status_of p = Reading \<Longrightarrow> src p = [] \<Longrightarrow> src_end p = Fail \<Longrightarrow>
    pump_step p False (p\<lparr>status_of := Dropped\<rparr>) True"
| read: "status_of p = Reading \<Longrightarrow> src p = bs @ rest \<Longrightarrow> bs \<noteq> [] \<Longrightarrow> length bs \<le> buffer_size \<Longrightarrow>
    pump_step p False (p\<lparr>src := rest, status_of := Writing bs\<rparr>) False"
| wrote: "status_of p = Writing bs \<Longrightarrow> pump_step p n (p\<lparr>dst := dst p @ bs, status_of := Reading\<rparr>) n"
| write_failed: "status_of p = Writing bs \<Longrightarrow> prefix cs bs \<Longrightarrow>
    pump_step p n (p\<lparr>dst := dst p @ cs, status_of := Dropped\<rparr>) True"

inductive_cases pump_stepE: "pump_step p n p' n'"

record relay =
  uplink :: pump
  downlink :: pump
  permit :: bool

inductive relay_step :: "relay \<Rightarrow> relay \<Rightarrow> bool" where
  step_up: "pump_step (uplink s) (permit s) p n \<Longrightarrow> relay_step s (s\<lparr>uplink := p, permit := n\<rparr>)"
| step_down: "pump_step (downlink s) (permit s) p n \<Longrightarrow> relay_step s (s\<lparr>downlink := p, permit := n\<rparr>)"

inductive_simps relay_step_iff: "relay_step s t"

definition pump_of :: "string \<Rightarrow> ending \<Rightarrow> pump" where
  "pump_of bs e = \<lparr>src = bs, src_end = e, status_of = Reading, dst = []\<rparr>"

definition relay_of :: "io \<Rightarrow> io \<Rightarrow> relay" where
  "relay_of client up = \<lparr>uplink = pump_of (inp client) (ending_of client), downlink = pump_of (inp up) (ending_of up), permit = False\<rparr>"

section \<open>Invariants\<close>

text \<open>Of one pump whose source was \<open>a\<close>.\<close>

definition carries :: "string \<Rightarrow> ending \<Rightarrow> pump \<Rightarrow> bool" where
  "carries a e p \<longleftrightarrow> src_end p = e \<and> (case status_of p of
      Reading \<Rightarrow> a = dst p @ src p
    | Writing bs \<Rightarrow> a = dst p @ bs @ src p
    | HalfClosed \<Rightarrow> a = dst p \<and> e = Eof
    | Dropped \<Rightarrow> prefix (dst p) a)"

lemma pump_step_carries: "pump_step p n p' n' \<Longrightarrow> carries a e p \<Longrightarrow> carries a e p'"
  by (induction rule: pump_step.induct) (auto simp: carries_def)

text \<open>Of the two together: an error of one direction is never lost.\<close>

definition linked :: "relay \<Rightarrow> bool" where
  "linked s \<longleftrightarrow> (status_of (uplink s) = Dropped \<or> status_of (downlink s) = Dropped \<longrightarrow>
      permit s \<or> status_of (uplink s) = Dropped \<and> status_of (downlink s) = Dropped)
    \<and> (permit s \<longrightarrow> status_of (uplink s) = Dropped \<or> status_of (downlink s) = Dropped)"

lemma relay_step_linked: "relay_step s t \<Longrightarrow> linked s \<Longrightarrow> linked t"
  by (induction rule: relay_step.induct) (auto simp: linked_def elim!: pump_stepE)

definition reached :: "io \<Rightarrow> io \<Rightarrow> relay \<Rightarrow> bool" where
  "reached client up s \<longleftrightarrow> relay_step\<^sup>*\<^sup>* (relay_of client up) s"

lemma reached_invariant:
  "reached client up s \<Longrightarrow> carries (inp client) (ending_of client) (uplink s) \<and>
     carries (inp up) (ending_of up) (downlink s) \<and> linked s"
  unfolding reached_def
proof (induction rule: rtranclp_induct)
  case base
  show ?case by (simp add: relay_of_def pump_of_def carries_def linked_def)
next
  case (step s t)
  from step(2) have "carries (inp client) (ending_of client) (uplink t) \<and> carries (inp up) (ending_of up) (downlink t)"
    by (rule relay_step.cases) (use step(3) in \<open>auto intro: pump_step_carries\<close>)
  then show ?case using relay_step_linked [OF step(2)] step(3) by blast
qed

section \<open>Termination\<close>

fun work :: "status \<Rightarrow> nat" where
  "work Reading = 1"
| "work (Writing bs) = 2 + length bs"
| "work HalfClosed = 0"
| "work Dropped = 0"

definition pump_work :: "pump \<Rightarrow> nat" where
  "pump_work p = 3 * length (src p) + work (status_of p)"

lemma pump_step_work: "pump_step p n p' n' \<Longrightarrow> pump_work p' < pump_work p"
proof (induction rule: pump_step.induct)
  case (read p bs rest)
  then show ?case by (cases bs) (auto simp: pump_work_def)
qed (auto simp: pump_work_def)

lemma relay_step_work: "relay_step s t \<Longrightarrow> pump_work (uplink t) + pump_work (downlink t) < pump_work (uplink s) + pump_work (downlink s)"
  by (induction rule: relay_step.induct) (auto dest: pump_step_work)

definition stuck :: "relay \<Rightarrow> bool" where
  "stuck s \<longleftrightarrow> (\<forall>t. \<not> relay_step s t)"

lemma pump_can_step:
  assumes "status_of p \<notin> {HalfClosed, Dropped}" "\<not> n \<longrightarrow> status_of p = Reading \<longrightarrow> src p = [] \<longrightarrow> src_end p \<noteq> Stall"
  shows "\<exists>p' n'. pump_step p n p' n'"
proof (cases "status_of p")
  case Reading
  show ?thesis
  proof (cases n)
    case True
    then show ?thesis using aborted [OF Reading] by auto
  next
    case f: False
    show ?thesis
    proof (cases "src p")
      case Nil
      then show ?thesis using assms(2) f Reading ended [of p] read_failed [of p] by (cases "src_end p") auto
    next
      case (Cons c cs)
      then show ?thesis using read [OF Reading, of "[c]" cs] f by (auto simp: buffer_size_def)
    qed
  qed
next
  case (Writing bs)
  then show ?thesis using wrote by blast
qed (use assms(1) in auto)

lemma stuck_pumps:
  assumes "stuck s" "src_end (uplink s) \<noteq> Stall" "src_end (downlink s) \<noteq> Stall"
  shows "status_of (uplink s) \<in> {HalfClosed, Dropped} \<and> status_of (downlink s) \<in> {HalfClosed, Dropped}"
  using assms pump_can_step [of "uplink s" "permit s"] pump_can_step [of "downlink s" "permit s"]
  unfolding stuck_def relay_step_iff by metis

section \<open>Properties\<close>

text \<open>C14. A tunnel never corrupts a stream: in every reachable state, under every schedule, each side has
  received a prefix of what the other sent, and where a direction was half closed it has received
  all of it. A failure of one direction reaches the other: the permit is there until it is taken.\<close>

theorem relay_delivers_prefix:
  assumes "reached client up s"
  shows "prefix (dst (uplink s)) (inp client) \<and> prefix (dst (downlink s)) (inp up)
    \<and> (status_of (uplink s) = HalfClosed \<longrightarrow> dst (uplink s) = inp client \<and> ending_of client = Eof)
    \<and> (status_of (downlink s) = HalfClosed \<longrightarrow> dst (downlink s) = inp up \<and> ending_of up = Eof)
    \<and> (status_of (uplink s) = Dropped \<and> status_of (downlink s) \<noteq> Dropped \<longrightarrow> permit s)
    \<and> (status_of (downlink s) = Dropped \<and> status_of (uplink s) \<noteq> Dropped \<longrightarrow> permit s)"
  using reached_invariant [OF assms] by (auto simp: carries_def linked_def prefix_def split: status.splits)


text \<open>C39. A CONNECT that ends in a tunnel is transparent: the client got the 200 and nothing else before
  the tunnel, no byte the client sent after its request head is lost, and the upstream stream is a
  connection dialled for the requested host, fresh or just past the handshake of the agent.\<close>

theorem connect_is_transparent:
  assumes "handle_connect e rt polls client target w = (Tunnel c u, w')"
  shows "inp c = inp client \<and> ending_of c = ending_of client \<and> outp c = outp client @ established
    \<and> (\<exists>host port v v'. parse_host_port target = Some (host, port) \<and>
        dial_tunnel_upstream e rt host port v = (Some u, v')
        \<and> (mitm_on rt \<longrightarrow> (\<exists>head. peek_client_head polls = Some head \<and> \<not> tls_record_head head)))"
proof -
  obtain host port where t: "parse_host_port target = Some (host, port)"
    using assms by (auto simp: handle_connect_def split: option.splits)
  obtain ok c1 where x: "write_all established client = (ok, c1)" by fastforce
  then have "ok" "c1 = c" "\<exists>v v'. dial_tunnel_upstream e rt host port v = (Some u, v')"
    "mitm_on rt \<longrightarrow> (\<exists>head. peek_client_head polls = Some head \<and> \<not> tls_record_head head)"
    using assms t by (auto simp: handle_connect_def split: if_splits option.splits prod.splits)
  then show ?thesis using x t write_all_spec [of established client ok c1] by auto
qed

section \<open>Witnesses\<close>

definition done_pump :: "string \<Rightarrow> pump" where
  "done_pump bs = \<lparr>src = [], src_end = Eof, status_of = HalfClosed, dst = bs\<rparr>"

definition done_relay :: relay where
  "done_relay = \<lparr>uplink = done_pump ''hi'', downlink = done_pump [], permit = False\<rparr>"

lemma step_parts:
  "pump_step p n p' n' \<Longrightarrow> relay_step \<lparr>uplink = p, downlink = q, permit = n\<rparr> \<lparr>uplink = p', downlink = q, permit = n'\<rparr>"
  "pump_step q n q' n' \<Longrightarrow> relay_step \<lparr>uplink = p, downlink = q, permit = n\<rparr> \<lparr>uplink = p, downlink = q', permit = n'\<rparr>"
  using step_up [of "\<lparr>uplink = p, downlink = q, permit = n\<rparr>" p' n'] step_down [of "\<lparr>uplink = p, downlink = q, permit = n\<rparr>" q' n']
  by simp_all

lemma done_reached: "reached (stream ''hi'' []) (stream [] []) done_relay"
proof -
  let ?p = "\<lambda>a st b. \<lparr>src = a, src_end = Eof, status_of = st, dst = b\<rparr>"
  have "pump_step (?p ''hi'' Reading []) False (?p [] (Writing ''hi'') []) False"
    using read [of "?p ''hi'' Reading []" "''hi''" "[]"] by (simp add: buffer_size_def)
  moreover have "pump_step (?p [] (Writing ''hi'') []) False (?p [] Reading ''hi'') False"
    using wrote [of "?p [] (Writing ''hi'') []" "''hi''"] by simp
  moreover have "pump_step (?p [] Reading bs) False (?p [] HalfClosed bs) False" for bs
    using ended [of "?p [] Reading bs"] by simp
  ultimately show ?thesis
    unfolding reached_def relay_of_def pump_of_def done_relay_def done_pump_def stream_def io.simps
    by (meson step_parts converse_rtranclp_into_rtranclp rtranclp.rtrancl_refl)
qed

lemma relay_delivers_prefix_witness:
  "status_of (uplink done_relay) = HalfClosed \<and> dst (uplink done_relay) = inp (stream ''hi'' [])"
  using relay_delivers_prefix [OF done_reached] by (simp add: done_relay_def done_pump_def)


lemma connect_is_transparent_witness:
  "case fst (handle_connect (sample_env\<lparr>by_name := \<lambda>h p. Connected (stream [] [])\<rparr>) sample_runtime [Peeked [0x53, 0x53, 0x48]]
      (stream ''SSH-2.0'' []) ''plain.example:22'' sample_world) of
     Tunnel c u \<Rightarrow> inp c = ''SSH-2.0'' \<and> outp c = established | _ \<Rightarrow> False"
proof -
  let ?h = "handle_connect (sample_env\<lparr>by_name := \<lambda>h p. Connected (stream [] [])\<rparr>) sample_runtime [Peeked [0x53, 0x53, 0x48]]
      (stream ''SSH-2.0'' []) ''plain.example:22'' sample_world"
  have "case fst ?h of Tunnel c u \<Rightarrow> True | _ \<Rightarrow> False" by code_simp
  then obtain c u w' where h: "?h = (Tunnel c u, w')" by (cases ?h) (auto split: outcome.splits)
  show ?thesis using connect_is_transparent [OF h] unfolding h by simp
qed

end
