(* ===== verification/Upstream.thy ===== *)
theory Upstream
  imports Relay
begin

text \<open>
  The upstream leg of a decrypted request, from \<open>crates/core/src/mitm.rs\<close>: one attempt on one endpoint,
  the pool of idle connections, the order in which endpoints and server names are tried, the hedged
  race and the fallbacks. Time is in milliseconds. The TLS library is a parameter: what a handshake
  under a budget at a time gives, and how long an attempt took.
\<close>

section \<open>The outside world\<close>

text \<open>A connector verifies the certificate for the name it presents, or, when it sends none, for a fixed
  host. A budget is the connect time, the time for the response head and the time the attempt starts;
  a stream that is too slow for its budget shows as a stall.\<close>

datatype connector = WebPki | VerifyAs string

type_synonym budget = "nat \<times> nat \<times> nat"

record 'n tls_env =
  ext :: env
  server_name :: "string \<Rightarrow> 'n option"
  direct :: "connector \<Rightarrow> budget \<Rightarrow> 'n sni_name \<Rightarrow> sockaddr \<Rightarrow> io attempt"
  over :: "connector \<Rightarrow> budget \<Rightarrow> 'n sni_name \<Rightarrow> io \<Rightarrow> io attempt"
  took :: "string option \<Rightarrow> sockaddr \<Rightarrow> nat \<Rightarrow> nat"
  tcp53 :: "ipaddr \<Rightarrow> nat \<Rightarrow> io option \<times> nat"
  can_verify :: "string \<Rightarrow> bool"

section \<open>Budgets\<close>

definition upstream_budget :: nat where "upstream_budget = 45000"
definition fast_head_timeout :: nat where "fast_head_timeout = 3000"
definition fast_connect_timeout :: nat where "fast_connect_timeout = 4000"
definition connect_timeout :: nat where "connect_timeout = 10000"
definition response_head_timeout :: nat where "response_head_timeout = 15000"
definition pool_idle_timeout :: nat where "pool_idle_timeout = 15000"
definition pool_max :: nat where "pool_max = 64"
definition hedge_delay :: nat where "hedge_delay = 600"
definition hedge_fallback_after :: nat where "hedge_fallback_after = 1500"
definition hedge_budget :: nat where "hedge_budget = 32000"

section \<open>Which requests may be repeated\<close>

definition race_safe :: "string \<Rightarrow> bool" where
  "race_safe meth = (to_upper meth \<in> {''GET'', ''HEAD'', ''OPTIONS'', ''TRACE''})"

definition retryable_response :: "string \<Rightarrow> string \<Rightarrow> bool" where
  "retryable_response meth path = (let m = to_upper meth in
     if m \<noteq> ''POST'' \<and> m \<noteq> ''PATCH'' then True
     else starts_with path ''/git-upload-pack'' \<or> starts_with path ''/git-receive-pack'' \<or> contains path ''/info/refs'')"

definition retryable_status :: "u16 \<Rightarrow> bool" where
  "retryable_status st = (st = 500 \<or> 502 \<le> st \<and> st \<le> 504)"

definition stateful :: "http_request \<Rightarrow> bool" where
  "stateful req = list_ex (\<lambda>(k, v). eq_ignore_case k ''cookie'' \<and>
     (contains (to_lower v) ''logged_in=yes'' \<or> contains (to_lower v) ''user_session='')) (r_headers req)"

section \<open>Published edges and server names\<close>

definition github_web_fallback_ips :: "string list" where
  "github_web_fallback_ips = [''20.27.177.113'', ''20.200.245.247'', ''20.233.83.145'', ''20.205.243.166'',
     ''20.201.28.151'', ''20.207.73.82'', ''20.248.137.48'', ''20.26.156.215'', ''140.82.113.4'',
     ''140.82.121.4'', ''140.82.112.4'', ''140.82.114.4'']"

definition github_fallback_ips :: "string \<Rightarrow> ipaddr list" where
  "github_fallback_ips host = (if host = ''github.com'' \<or> ends_with host ''.github.com''
     then List.map_filter parse_ip github_web_fallback_ips else [])"

definition sni_candidates :: "string \<Rightarrow> string \<Rightarrow> string list" where
  "sni_candidates primary fallback = primary # (if fallback \<noteq> primary then [fallback] else [])"

section \<open>One exchange\<close>

datatype attempt_failure = ConnectFailed | WriteFailed | NoResponse

type_synonym upstream_answer = "io \<times> response_head \<times> string"

definition response_has_body :: "response_head \<Rightarrow> string \<Rightarrow> bool" where
  "response_has_body head meth = (\<not> bodyless meth head \<and> content_length_of (h_headers head) \<noteq> Some 0)"

definition probe_body :: "response_head \<Rightarrow> string \<Rightarrow> io \<Rightarrow> (attempt_failure + string) \<times> io" where
  "probe_body head meth s =
     (if retryable_status (status head) \<or> \<not> response_has_body head meth then (Inr [], s)
      else (case read_some 1 s of
          (Some [b], s') \<Rightarrow> (Inr [b], s')
        | (_, s') \<Rightarrow> (Inl NoResponse, s')))"

definition exchange :: "http_request \<Rightarrow> string \<Rightarrow> u16 \<Rightarrow> io \<Rightarrow> (attempt_failure + response_head) \<times> io" where
  "exchange req host port s = (case write_all (write_request req host port False) s of (ok, s) \<Rightarrow>
     if \<not> ok then (Inl WriteFailed, s)
     else (case read_response_head s of (r, s) \<Rightarrow> (case r of Some head \<Rightarrow> Inr head | None \<Rightarrow> Inl NoResponse, s)))"

definition attempt_on :: "http_request \<Rightarrow> string \<Rightarrow> u16 \<Rightarrow> io \<Rightarrow> attempt_failure + upstream_answer" where
  "attempt_on req host port s = (case exchange req host port s of
     (Inl f, _) \<Rightarrow> Inl f
   | (Inr head, s) \<Rightarrow> (case probe_body head (r_method req) s of
       (Inl f, _) \<Rightarrow> Inl f
     | (Inr got, s) \<Rightarrow> Inr (s, head, got)))"

text \<open>The log entry of a sent request, and the time an attempt took.\<close>

definition spend :: "'n tls_env \<Rightarrow> string option \<Rightarrow> sockaddr \<Rightarrow> world \<Rightarrow> world" where
  "spend te sni addr w = w\<lparr>clock := clock w + took te sni addr (clock w)\<rparr>"

definition attempt_upstream :: "'n tls_env \<Rightarrow> proxy_settings \<Rightarrow> nat \<Rightarrow> nat \<Rightarrow> string \<Rightarrow> sockaddr \<Rightarrow> u16 \<Rightarrow>
    http_request \<Rightarrow> string \<Rightarrow> world \<Rightarrow> (attempt_failure + upstream_answer) \<times> world" where
  "attempt_upstream te cfg head_ms connect_ms sni addr port req host w =
     (let b = (connect_ms, head_ms, clock w) in
      case dial_upstream_tls (ext te) (server_name te) (direct te WebPki b) (over te WebPki b) cfg [addr] sni port w of
        (None, w) \<Rightarrow> (Inl ConnectFailed, spend te (Some sni) addr w)
      | (Some s, w) \<Rightarrow> (attempt_on req host port s, spend te (Some sni) addr (send_log [Sent addr (Some sni)] w)))"

definition attempt_upstream_no_sni :: "'n tls_env \<Rightarrow> proxy_settings \<Rightarrow> nat \<Rightarrow> nat \<Rightarrow> sockaddr \<Rightarrow> string \<Rightarrow> u16 \<Rightarrow>
    http_request \<Rightarrow> string \<Rightarrow> world \<Rightarrow> (attempt_failure + upstream_answer) \<times> world" where
  "attempt_upstream_no_sni te cfg head_ms connect_ms addr target_host port req host w =
     (let b = (connect_ms, head_ms, clock w); c = VerifyAs host in
      case dial_upstream_tls_no_sni (ext te) (direct te c b) (over te c b) cfg [addr] target_host port w of
        (None, w) \<Rightarrow> (Inl ConnectFailed, spend te None addr w)
      | (Some s, w) \<Rightarrow> (attempt_on req host port s, spend te None addr (send_log [Sent addr None] w)))"

section \<open>The pool of idle connections\<close>

record pooled =
  u_host :: string
  u_port :: u16
  u_sni :: string
  u_no_sni :: bool
  u_returned :: nat
  u_peer :: "sockaddr option"
  u_stream :: io

definition idle_ok :: "nat \<Rightarrow> pooled \<Rightarrow> bool" where
  "idle_ok now p = (now - u_returned p < pool_idle_timeout)"

definition pool_take :: "string \<Rightarrow> u16 \<Rightarrow> (pooled \<Rightarrow> bool) \<Rightarrow> nat \<Rightarrow> pooled list \<Rightarrow> pooled option \<times> pooled list" where
  "pool_take host port allowed now pool =
     (let live = filter (idle_ok now) pool in
      case List.extract (\<lambda>p. u_host p = host \<and> u_port p = port \<and> allowed p) live of
        None \<Rightarrow> (None, live)
      | Some (before, p, after) \<Rightarrow> (Some p, before @ after))"

definition pool_put :: "pooled \<Rightarrow> nat \<Rightarrow> pooled list \<Rightarrow> pooled list" where
  "pool_put c now pool = (let live = filter (idle_ok now) pool in if length live < pool_max then live @ [c] else live)"

definition reusable :: "bool \<Rightarrow> string list \<Rightarrow> bool \<Rightarrow> nat \<Rightarrow> pooled \<Rightarrow> bool" where
  "reusable no_sni_allowed sni_list retry_response now p =
     ((if u_no_sni p then no_sni_allowed else u_sni p \<in> set sni_list)
      \<and> idle_ok now p \<and> (retry_response \<or> now - u_returned p < 2000))"

section \<open>DNS over TCP\<close>

definition resolve_tcp :: "'n tls_env \<Rightarrow> string \<Rightarrow> ipaddr \<Rightarrow> world \<Rightarrow> ipaddr list \<times> world" where
  "resolve_tcp te host server w = (case build_a_query_with_id host 0x2222 TypeA 512 of
     Built q \<Rightarrow> (case tcp53 te server (clock w) of (c, d) \<Rightarrow>
       let w = w\<lparr>clock := clock w + d\<rparr>;
         ips = (case c of None \<Rightarrow> [] | Some s \<Rightarrow>
          (case write_all (str_of (to_be16 (word_of_nat (length q)) @ q)) s of (ok, s) \<Rightarrow>
             if \<not> ok then [] else (case read_full 2 s of
               (None, s) \<Rightarrow> []
             | (Some lenb, s) \<Rightarrow>
                 (let rlen = unat (from_be16 (bytes_of lenb ! 0) (bytes_of lenb ! 1)) in
                  if rlen = 0 \<or> 512 < rlen then []
                  else (case read_full rlen s of
                      (None, _) \<Rightarrow> []
                    | (Some resp, _) \<Rightarrow> (case parse_a_response (bytes_of resp) TypeA of
                        Inr (ips, _) \<Rightarrow> ips | Inl _ \<Rightarrow> [])))))) in
       (ips, send_log [Resolved host ips] w))
   | _ \<Rightarrow> ([], w))"

fun tcp_fallback :: "'n tls_env \<Rightarrow> string \<Rightarrow> ipaddr list \<Rightarrow> world \<Rightarrow> ipaddr list \<times> world" where
  "tcp_fallback te host [] w = ([], w)"
| "tcp_fallback te host (srv # srvs) w = (case resolve_tcp te host srv w of (ips, w) \<Rightarrow>
     if ips \<noteq> [] then (ips, w) else tcp_fallback te host srvs w)"

definition alternatives :: "env \<Rightarrow> proxy_settings \<Rightarrow> string \<Rightarrow> ipaddr list \<Rightarrow> world \<Rightarrow> ipaddr list \<times> world" where
  "alternatives e cfg host exclude w =
     (case resolve_alternatives (net e) host (proxy_master_dns cfg) (use_doh cfg) (custom_doh_address cfg) exclude
         (clock w) (dns w) of (ips, t, s) \<Rightarrow> (ips, send_log [Resolved host ips] (w\<lparr>dns := s, clock := t\<rparr>)))"

text \<open>The smart HTTP services of git follow the path of the repository, so the tests on the start of the path never apply to them.\<close>

lemma git_push_not_retryable:
  "\<not> retryable_response ''POST'' ''/owner/repo.git/git-upload-pack''"
  "\<not> retryable_response ''POST'' ''/owner/repo.git/git-receive-pack''"
  by code_simp+

end
