(* ===== verification/Mitm.thy ===== *)
theory Mitm
  imports Upstream
begin

text \<open>
  The decrypting proxy of \<open>crates/core/src/mitm.rs\<close>: how one decrypted request finds an endpoint, how
  its response is returned, and the loop over the requests of one client connection. \<open>Upstream\<close> holds
  the single attempts.
\<close>

section \<open>The endpoints of a request\<close>

type_synonym hedge_answer = "io \<times> response_head \<times> string \<times> sockaddr \<times> string \<times> bool"

datatype upstream_failure = UpConnect | UpNoResponse

definition endpoint_addrs ::
  "ipaddr list \<Rightarrow> u16 \<Rightarrow> ipaddr list \<Rightarrow> bool \<Rightarrow> ipaddr option \<Rightarrow> bool \<Rightarrow> bool \<Rightarrow> string \<Rightarrow> sockaddr list" where
  "endpoint_addrs preferred port ips accelerated good agent_on is_stateful host =
     (let addrs = candidate_endpoints preferred port ips;
          addrs = (case good of
              Some g \<Rightarrow> if accelerated then (g, port) # filter (\<lambda>a. sa_ip a \<noteq> g) addrs else addrs
            | None \<Rightarrow> addrs);
          addrs = (if agent_on then [(unspecified4, port)] else addrs) in
      if is_stateful \<and> accelerated \<and> \<not> agent_on
      then fold (\<lambda>ip as. if ip \<in> sa_ip ` set as then as else as @ [(ip, port)]) (github_fallback_ips host) addrs
      else addrs)"

text \<open>What every stage of the search uses: the settings, the deadline of the upstream phase and the names.\<close>

record plan =
  q_cfg :: proxy_settings
  q_retry :: bool
  q_deadline :: nat
  q_host :: string
  q_connect_host :: string
  q_port :: u16
  q_req :: http_request
  q_sni_list :: "string list"

text \<open>The result of a stage: \<open>None\<close> to go on, otherwise the end of the upstream phase. Past the deadline
  the phase is over whatever the attempt gave.\<close>

type_synonym stage_result = "(upstream_failure + hedge_answer) option"

definition judge :: "plan \<Rightarrow> sockaddr \<Rightarrow> string \<Rightarrow> bool \<Rightarrow> (attempt_failure + upstream_answer) \<Rightarrow> world \<Rightarrow> stage_result" where
  "judge q addr sni no_sni r w =
     (if q_deadline q < clock w then Some (Inl UpConnect)
      else case r of
        Inr (s, head, got) \<Rightarrow>
          if q_retry q \<and> retryable_status (status head) then None else Some (Inr (s, head, got, addr, sni, no_sni))
      | Inl f \<Rightarrow> if f \<noteq> ConnectFailed \<and> \<not> q_retry q then Some (Inl UpNoResponse) else None)"

fun no_sni_stage :: "'n tls_env \<Rightarrow> plan \<Rightarrow> sockaddr list \<Rightarrow> world \<Rightarrow> stage_result \<times> world" where
  "no_sni_stage te q [] w = (None, w)"
| "no_sni_stage te q (a # as) w =
     (case attempt_upstream_no_sni te (q_cfg q) (if q_retry q then fast_head_timeout else response_head_timeout)
         (if q_retry q then fast_connect_timeout else connect_timeout) a (q_connect_host q) (q_port q) (q_req q) (q_host q) w of
        (r, w) \<Rightarrow> (case judge q a [] True r w of Some x \<Rightarrow> (Some x, w) | None \<Rightarrow> no_sni_stage te q as w))"

section \<open>The hedged race\<close>

text \<open>A candidate is a server name (\<open>None\<close> without one) and an endpoint.\<close>

type_synonym hedge_candidate = "string option \<times> sockaddr"

definition hedge_candidates :: "bool \<Rightarrow> string list \<Rightarrow> sockaddr list \<Rightarrow> hedge_candidate list" where
  "hedge_candidates no_sni sni_list addrs =
     concat (map (\<lambda>a. (if no_sni then [(None, a)] else []) @ map (\<lambda>sni. (Some sni, a)) sni_list) addrs)"

definition hedge_try :: "'n tls_env \<Rightarrow> plan \<Rightarrow> hedge_candidate \<Rightarrow> world \<Rightarrow> (attempt_failure + upstream_answer) \<times> world" where
  "hedge_try te q c w = (case c of
     (None, a) \<Rightarrow> attempt_upstream_no_sni te (q_cfg q) fast_head_timeout fast_connect_timeout a
       (q_connect_host q) (q_port q) (q_req q) (q_host q) w
   | (Some sni, a) \<Rightarrow> attempt_upstream te (q_cfg q) fast_head_timeout fast_connect_timeout sni a (q_port q) (q_req q) (q_host q) w)"

text \<open>A run of the race: when a candidate starts, its result, when it ends and what it logged. All runs
  are computed on the same world; those that had not started when the race was decided are dropped.\<close>

record hedge_run =
  h_start :: nat
  h_cand :: hedge_candidate
  h_result :: "attempt_failure + upstream_answer"
  h_end :: nat
  h_log :: "event list"

definition hedge_run_of :: "'n tls_env \<Rightarrow> plan \<Rightarrow> world \<Rightarrow> nat \<times> hedge_candidate \<Rightarrow> hedge_run" where
  "hedge_run_of te q w tc = (case hedge_try te q (snd tc) (w\<lparr>clock := fst tc, events := []\<rparr>) of
     (r, w') \<Rightarrow> \<lparr>h_start = fst tc, h_cand = snd tc, h_result = r, h_end = clock w', h_log = events w'\<rparr>)"

definition hedge_starts :: "nat \<Rightarrow> hedge_candidate list \<Rightarrow> hedge_candidate list \<Rightarrow> (nat \<times> hedge_candidate) list" where
  "hedge_starts t0 initial fallback =
     map (\<lambda>i. (t0 + hedge_delay * i, initial ! i)) [0..<length initial] @
     map (\<lambda>c. (t0 + hedge_fallback_after, c)) fallback"

definition hedge_wins :: "nat \<Rightarrow> hedge_run \<Rightarrow> bool" where
  "hedge_wins deadline h = (h_end h < deadline \<and>
     (case h_result h of Inr (_, head, _) \<Rightarrow> \<not> retryable_status (status head) | Inl _ \<Rightarrow> False))"

definition hedge_answer_of :: "hedge_run \<Rightarrow> hedge_answer option" where
  "hedge_answer_of h = (case h_result h of
     Inl _ \<Rightarrow> None
   | Inr (s, head, got) \<Rightarrow> Some (s, head, got, snd (h_cand h),
       (case fst (h_cand h) of Some sni \<Rightarrow> sni | None \<Rightarrow> []), fst (h_cand h) = None))"

definition hedged_attempts :: "'n tls_env \<Rightarrow> plan \<Rightarrow> hedge_candidate list \<Rightarrow> hedge_candidate list \<Rightarrow> world \<Rightarrow>
    hedge_answer option \<times> world" where
  "hedged_attempts te q initial fallback w =
     (let t0 = clock w; deadline = t0 + hedge_budget;
          runs = map (hedge_run_of te q w) (hedge_starts t0 initial fallback);
          won = sort_key h_end (filter (hedge_wins deadline) runs);
          decided = (case won of h # _ \<Rightarrow> h_end h | [] \<Rightarrow> min deadline (fold max (map h_end runs) t0));
          started = sort_key h_start (filter (\<lambda>h. h_start h < decided \<or> h_start h = t0) runs) in
      ((case won of h # _ \<Rightarrow> hedge_answer_of h | [] \<Rightarrow> None),
       w\<lparr>clock := decided, events := events w @ concat (map h_log started)\<rparr>))"

section \<open>The sequential search\<close>

text \<open>The attempts that are left, the addresses that need not be tried again and the fallbacks that were
  used. The race of the published edges is not a stage of this loop: see \<open>fallback_race_done\<close>.\<close>

record search =
  pending :: "(string \<times> sockaddr) list"
  tried :: "ipaddr list"
  host_fallback_done :: bool
  alias_alts_done :: bool
  host_alts_done :: bool

function search_loop :: "'n tls_env \<Rightarrow> plan \<Rightarrow> string \<Rightarrow> search \<Rightarrow> world \<Rightarrow> (upstream_failure + hedge_answer) \<times> world" where
  "search_loop te q primary S w =
     (case pending S of
        (sni, a) # rest \<Rightarrow>
          (let is_last = (rest = [] \<and> host_fallback_done S \<and> alias_alts_done S \<and> host_alts_done S);
               head_ms = (if \<not> q_retry q \<or> is_last then response_head_timeout else fast_head_timeout);
               connect_ms = (if q_retry q \<and> \<not> is_last then fast_connect_timeout else connect_timeout) in
           case attempt_upstream te (q_cfg q) head_ms connect_ms sni a (q_port q) (q_req q) (q_host q) w of
             (r, w) \<Rightarrow> (case judge q a sni False r w of
                 Some x \<Rightarrow> (x, w)
               | None \<Rightarrow> search_loop te q primary (S\<lparr>pending := rest\<rparr>) w))
      | [] \<Rightarrow>
          if \<not> host_fallback_done S then
            (case resolve (ext te) (q_cfg q) (q_host q) w of (ips, w) \<Rightarrow>
              if q_deadline q < clock w then (Inl UpConnect, w)
              else (let new = drop (length (tried S)) (push_new (tried S) ips) in
                search_loop te q primary (S\<lparr>pending := map (\<lambda>ip. (primary, (ip, q_port q))) new,
                  tried := tried S @ new, host_fallback_done := True\<rparr>) w))
          else if \<not> alias_alts_done S then
            (case alternatives (ext te) (q_cfg q) (q_connect_host q) (tried S) w of (alts, w) \<Rightarrow>
              if q_deadline q < clock w then (Inl UpConnect, w)
              else search_loop te q primary
                (S\<lparr>pending := concat (map (\<lambda>ip. map (\<lambda>sni. (sni, (ip, q_port q))) (q_sni_list q)) alts),
                  tried := tried S @ alts, alias_alts_done := True\<rparr>) w)
          else if \<not> host_alts_done S then
            (case alternatives (ext te) (q_cfg q) (q_host q) (tried S) w of (alts, w) \<Rightarrow>
              if q_deadline q < clock w then (Inl UpConnect, w)
              else search_loop te q primary
                (S\<lparr>pending := map (\<lambda>ip. (primary, (ip, q_port q))) alts,
                  tried := tried S @ alts, host_alts_done := True\<rparr>) w)
          else (Inl UpConnect, w))"
  by pat_completeness auto
termination
  by (relation "measures [\<lambda>(_, _, _, S, _). of_bool (\<not> host_fallback_done S) + of_bool (\<not> alias_alts_done S)
        + of_bool (\<not> host_alts_done S), \<lambda>(_, _, _, S, _). length (pending S)]") auto

declare search_loop.simps [simp del]

section \<open>State and runtime\<close>

text \<open>The pool, the table of last good edges and the counters are shared by all connections. \<open>u_peer\<close> of
  a connection made through the agent is not kept: the code only uses it in a log line then.\<close>

record mitm_state =
  wld :: world
  idle :: "pooled list"
  last_good :: "string \<rightharpoonup> ipaddr"
  total_bytes :: "64 word"
  by_domain :: "string \<rightharpoonup> 64 word"

record mitm_runtime =
  m_config :: proxy_settings
  m_domains :: "string list"
  m_forward :: "(string \<times> string) list"
  m_configured_ips :: "(string \<times> ipaddr list) list"
  m_fake_names :: "(string \<times> string) list"

section \<open>The upstream phase\<close>

text \<open>Whether the loop starts with its race of published edges already marked as done.\<close>

definition fallback_race_done :: "bool \<Rightarrow> bool \<Rightarrow> http_request \<Rightarrow> bool" where
  "fallback_race_done agent_on accelerated req =
     (agent_on \<or> \<not> accelerated \<or> stateful req \<or> \<not> race_safe (r_method req))"

definition hedge_path :: "bool \<Rightarrow> bool \<Rightarrow> http_request \<Rightarrow> bool" where
  "hedge_path agent_on accelerated req = (accelerated \<and> \<not> agent_on \<and> \<not> stateful req \<and> race_safe (r_method req))"

text \<open>Off the hedged path the race of the loop is always marked as done: that stage is unreachable.\<close>

lemma fallback_race_dead: "\<not> hedge_path agent_on accelerated req \<Longrightarrow> fallback_race_done agent_on accelerated req"
  by (auto simp: hedge_path_def fallback_race_done_def)

definition upstream_phase ::
  "'n tls_env \<Rightarrow> plan \<Rightarrow> bool \<Rightarrow> bool \<Rightarrow> bool \<Rightarrow> string \<Rightarrow> ipaddr list \<Rightarrow> ipaddr option \<Rightarrow> world \<Rightarrow>
   (upstream_failure + hedge_answer) \<times> world" where
  "upstream_phase te q accelerated agent_on no_sni_tls primary preferred good w =
     (case resolve (ext te) (q_cfg q) (q_connect_host q) w of (ips, w) \<Rightarrow>
      if q_deadline q < clock w then (Inl UpConnect, w)
      else (case (if ips = [] then tcp_fallback te (q_connect_host q) (tcp_dns_servers (net (ext te)) (proxy_master_dns (q_cfg q))) w
                  else (ips, w)) of (ips, w) \<Rightarrow>
        if q_deadline q < clock w then (Inl UpConnect, w)
        else (let addrs = endpoint_addrs preferred (q_port q) ips accelerated good agent_on (stateful (q_req q)) (q_host q);
                  tried_ips = push_new ips (map sa_ip addrs) in
          if hedge_path agent_on accelerated (q_req q)
          then (case hedged_attempts te q (hedge_candidates no_sni_tls (q_sni_list q) addrs)
                  (hedge_candidates no_sni_tls (q_sni_list q)
                     (map (\<lambda>ip. (ip, q_port q)) (filter (\<lambda>ip. ip \<notin> set tried_ips) (github_fallback_ips (q_host q))))) w of
                (r, w) \<Rightarrow> (if q_deadline q < clock w then Inl UpConnect
                  else case r of Some ans \<Rightarrow> Inr ans | None \<Rightarrow> Inl UpConnect, w))
          else (case (if no_sni_tls then no_sni_stage te q addrs w else (None, w)) of
              (Some x, w) \<Rightarrow> (x, w)
            | (None, w) \<Rightarrow> search_loop te q primary
                \<lparr>pending = concat (map (\<lambda>sni. map (\<lambda>a. (sni, a)) addrs) (q_sni_list q)), tried = tried_ips,
                 host_fallback_done = (agent_on \<or> q_connect_host q = q_host q),
                 alias_alts_done = (agent_on \<or> \<not> accelerated),
                 host_alts_done = (agent_on \<or> \<not> accelerated \<or> q_connect_host q = q_host q)\<rparr> w))))"

section \<open>The response\<close>

text \<open>The reader that serves the probed bytes first, and the connection inside it afterwards.\<close>

definition with_prefix :: "string \<Rightarrow> io \<Rightarrow> io" where
  "with_prefix got s = s\<lparr>inp := got @ inp s, segs := (if got = [] then segs s else length got # segs s)\<rparr>"

definition inner_after :: "io \<Rightarrow> io \<Rightarrow> io" where
  "inner_after up s = up\<lparr>inp := drop (length (inp s) - length (inp up)) (inp s), segs := segs s\<rparr>"

definition count_flow :: "string \<Rightarrow> 64 word \<Rightarrow> mitm_state \<Rightarrow> mitm_state" where
  "count_flow host bytes st = st\<lparr>total_bytes := total_bytes st + bytes,
     by_domain := (by_domain st)(host \<mapsto> (case by_domain st host of Some b \<Rightarrow> b | None \<Rightarrow> 0) + bytes)\<rparr>"

definition finish_response :: "http_request \<Rightarrow> string \<Rightarrow> string \<Rightarrow> u16 \<Rightarrow> bool \<Rightarrow> (upstream_failure + hedge_answer) \<Rightarrow>
    io \<Rightarrow> mitm_state \<Rightarrow> bool \<times> io \<times> mitm_state" where
  "finish_response req host connect_host port agent_on outcome client st = (case outcome of
     Inl _ \<Rightarrow> (False, snd (write_all bad_gateway client),
       if agent_on then st else st\<lparr>last_good := (last_good st)(host := None)\<rparr>)
   | Inr (up, head, got, winner, sni, no_sni) \<Rightarrow>
       (let st = count_flow host (word_of_nat (length (h_headers head) + length (r_body req))) st in
        case stream_response_body head (r_method req) (across client (with_prefix got up)) of (r, s) \<Rightarrow>
          (case r of
             None \<Rightarrow> (False, written_to client s, st)
           | Some keep \<Rightarrow>
               (let st = (if \<not> agent_on \<and> \<not> is_unspecified (sa_ip winner)
                      then st\<lparr>last_good := (last_good st)(host \<mapsto> sa_ip winner)\<rparr> else st);
                    st = (if keep then st\<lparr>idle := pool_put
                        \<lparr>u_host = connect_host, u_port = port, u_sni = sni, u_no_sni = no_sni, u_returned = clock (wld st),
                         u_peer = (if agent_on then None else Some winner), u_stream = inner_after up s\<rparr>
                        (clock (wld st)) (idle st)\<rparr> else st) in
                (keep, written_to client s, st)))))"

section \<open>One request\<close>

text \<open>A reused connection serves the request, refuses it, or sends the request on to a fresh dial.\<close>

datatype reuse = Served hedge_answer | Refuse | DialAgain

definition reuse_pooled :: "'n tls_env \<Rightarrow> bool \<Rightarrow> http_request \<Rightarrow> string \<Rightarrow> u16 \<Rightarrow> pooled \<Rightarrow> world \<Rightarrow> reuse \<times> world" where
  "reuse_pooled te retry_response req host port p w =
     (let peer = (case u_peer p of Some a \<Rightarrow> a | None \<Rightarrow> (unspecified4, port));
          sni = (if u_no_sni p then None else Some (u_sni p));
          w = spend te sni peer (send_log [Sent peer sni] w) in
      (case exchange req host port (u_stream p) of
         (Inr head, s) \<Rightarrow>
           if retry_response \<and> retryable_status (status head) then DialAgain
           else (case probe_body head (r_method req) s of (r, s) \<Rightarrow>
             let got = (case r of Inr got \<Rightarrow> got | Inl _ \<Rightarrow> []) in
             if got \<noteq> [] \<or> \<not> response_has_body head (r_method req)
             then Served (s, head, got, peer, u_sni p, u_no_sni p) else DialAgain)
       | (Inl f, s) \<Rightarrow> if \<not> retry_response \<and> f \<noteq> ConnectFailed then Refuse else DialAgain, w))"

definition forward_one :: "'n tls_env \<Rightarrow> mitm_runtime \<Rightarrow> http_request \<Rightarrow> string \<Rightarrow> string \<Rightarrow> u16 \<Rightarrow> io \<Rightarrow> mitm_state \<Rightarrow>
    bool \<times> io \<times> mitm_state" where
  "forward_one te rt req host connect_host port client st =
     (let cfg = m_config rt;
          accelerated = is_accelerated host (m_domains rt);
          retry_response = (accelerated \<and> retryable_response (r_method req) (r_path req));
          agent_on = (agent_config cfg \<noteq> None);
          fake_name = manifest_fake_name_for cfg (m_fake_names rt) host;
          primary = (case fake_name of Some n \<Rightarrow> n | None \<Rightarrow> host);
          sni_list = sni_candidates primary connect_host;
          no_sni_allowed = (accelerated \<and> fake_name = None);
          no_sni_tls = (no_sni_allowed \<and> can_verify te host);
          now = clock (wld st);
          (previous, rest) = pool_take connect_host port (reusable no_sni_allowed sni_list retry_response now) now (idle st);
          st = st\<lparr>idle := rest\<rparr>;
          (reused, w) = (case previous of
              Some p \<Rightarrow> reuse_pooled te retry_response req host port p (wld st)
            | None \<Rightarrow> (DialAgain, wld st));
          st = st\<lparr>wld := w\<rparr> in
      case reused of
        Served ans \<Rightarrow> finish_response req host connect_host port agent_on (Inr ans) client st
      | Refuse \<Rightarrow> (False, snd (write_all bad_gateway client), st)
      | DialAgain \<Rightarrow>
          (case upstream_phase te
              \<lparr>q_cfg = cfg, q_retry = retry_response, q_deadline = clock w + upstream_budget, q_host = host,
               q_connect_host = connect_host, q_port = port, q_req = req, q_sni_list = sni_list\<rparr>
              accelerated agent_on no_sni_tls primary (manifest_ips_for cfg (m_configured_ips rt) host) (last_good st host) w of
            (outcome, w) \<Rightarrow> finish_response req host connect_host port agent_on outcome client (st\<lparr>wld := w\<rparr>)))"

section \<open>One client connection\<close>

definition connect_host_of :: "mitm_runtime \<Rightarrow> string \<Rightarrow> string" where
  "connect_host_of rt host = (case manifest_forward_for (m_config rt) (m_forward rt) host of Some a \<Rightarrow> a | None \<Rightarrow> host)"

lemma skip_trailers_dec: "skip_trailers s = (ok, s') \<Longrightarrow> length (inp s') \<le> length (inp s)"
proof (induction s arbitrary: ok s' rule: skip_trailers.induct)
  case (1 s)
  then show ?case using read_line_dec [of 8192 s]
    by (auto simp: skip_trailers.simps [of s] split: prod.splits option.splits if_splits) fastforce+
qed

lemma read_n_dec: "read_n alloc n s = (r, s') \<Longrightarrow> length (inp s') \<le> length (inp s)"
  using read_full_spec [of n s r s'] by (auto simp: read_n_def split: if_splits)

lemma read_chunks_dec: "read_chunks alloc body s = (r, s') \<Longrightarrow> length (inp s') \<le> length (inp s)"
proof (induction alloc body s arbitrary: r s' rule: read_chunks.induct)
  case (1 alloc body s)
  obtain x s1 where x: "read_line 4096 s = (x, s1)" by fastforce
  note d1 = read_line_dec [OF x]
  show ?case
  proof (cases "x = None \<or> parse_chunk_size (the x) = None")
    case True
    then show ?thesis using 1(2) x d1 by (auto simp: read_chunks.simps [of alloc body s] split: option.splits)
  next
    case False
    then obtain l n where l: "x = Some l" "parse_chunk_size l = Some n" by auto
    show ?thesis
    proof (cases "n = 0")
      case True
      then show ?thesis using 1(2) x d1 l skip_trailers_dec [of s1]
        by (fastforce simp: read_chunks.simps [of alloc body s] split: prod.splits)
    next
      case n: False
      obtain c s2 where c: "read_n alloc n s1 = (c, s2)" by fastforce
      obtain e s3 where e: "read_full 2 s2 = (e, s3)" by fastforce
      note d = d1 read_n_dec [OF c] read_full_spec [OF e, THEN conjunct2, THEN conjunct1]
      consider "s' = s2" | "s' = s3" | ch where "c = Some ch" "e = Some crlf" "read_chunks alloc (body @ ch) s3 = (r, s')"
        using 1(2) x l n c e by (auto simp: read_chunks.simps [of alloc body s] split: option.splits if_splits)
      then show ?thesis
      proof cases
        case 3
        from 1(1) [OF x [symmetric] l n c [symmetric] 3(1) e [symmetric] 3(2) _ 3(3)] show ?thesis using d by simp
      qed (use d in auto)
    qed
  qed
qed

lemma read_request_dec: "read_request alloc s = (Some req, s') \<Longrightarrow> length (inp s') < length (inp s)"
proof -
  assume r: "read_request alloc s = (Some req, s')"
  obtain buf s1 where h: "read_head s = (Some buf, s1)"
    using r by (auto simp: read_request_def split: option.splits prod.splits)
  have d: "length (inp s1) < length (inp s)" using read_head_dec [OF h] by simp
  have b: "read_body_of alloc hs v = (x, v') \<Longrightarrow> length (inp v') \<le> length (inp v)" for hs v x v'
    by (auto simp: read_body_of_def Let_def read_chunks_dec read_n_dec split: if_splits)
  have w: "write_all bs v = (ok, v') \<Longrightarrow> inp v' = inp v" for bs v ok v' using write_all_inp by blast
  show ?thesis using r h d
    by (auto simp: read_request_def Let_def split: list.splits prod.splits if_splits option.splits dest!: b w)
qed

lemma finish_response_inp: "finish_response req host ch port ag outcome client st = (k, c, st') \<Longrightarrow> inp c = inp client"
  using write_all_inp [of bad_gateway client]
  by (cases "write_all bad_gateway client")
    (auto simp: finish_response_def Let_def written_to_def split: sum.splits prod.splits option.splits)

lemma forward_one_inp: "forward_one te rt req host ch port client st = (k, c, st') \<Longrightarrow> inp c = inp client"
  using write_all_inp [of bad_gateway client] finish_response_inp
  by (cases "write_all bad_gateway client")
    (auto simp: forward_one_def Let_def split: prod.splits option.splits reuse.splits)

text \<open>The requests of one HTTP/1.1 client, in order, until the client or a response ends the connection.\<close>

function serve_requests :: "(nat \<Rightarrow> bool) \<Rightarrow> 'n tls_env \<Rightarrow> mitm_runtime \<Rightarrow> u16 \<Rightarrow> io \<Rightarrow> mitm_state \<Rightarrow> io \<times> mitm_state" where
  "serve_requests alloc te rt port client st = (case read_request alloc client of
     (None, client) \<Rightarrow> (client, st)
   | (Some req, client) \<Rightarrow> (case request_host req of
       None \<Rightarrow> (snd (write_all bad_request client), st)
     | Some host \<Rightarrow> (case forward_one te rt req host (connect_host_of rt host) port client st of
         (keep, client, st) \<Rightarrow> if keep then serve_requests alloc te rt port client st else (client, st))))"
  by pat_completeness auto
termination
proof (relation "measure (\<lambda>(_, _, _, _, client, _). length (inp client))", goal_cases)
  case (2 alloc te rt port client st r c req host keep c' st')
  then show ?case using read_request_dec [of alloc client req c] by (auto dest!: forward_one_inp [OF sym])
qed simp

declare serve_requests.simps [simp del]

section \<open>What is sent upstream\<close>

fun is_sent :: "event \<Rightarrow> bool" where
  "is_sent (Sent a n) = True"
| "is_sent _ = False"

text \<open>\<open>sends P n w w'\<close>: the log grew, its requests are of the kind \<open>P\<close> and at most \<open>n\<close> of them, and nothing was handed
  to the system by name.\<close>

definition sends :: "(sockaddr \<Rightarrow> string option \<Rightarrow> bool) \<Rightarrow> nat \<Rightarrow> world \<Rightarrow> world \<Rightarrow> bool" where
  "sends P n w w' \<longleftrightarrow> (\<exists>es. events w' = events w @ es \<and> length (filter is_sent es) \<le> n \<and>
     (\<forall>a m. Sent a m \<in> set es \<longrightarrow> P a m) \<and> list_all (\<lambda>x. \<not> leaves_to_system x) es)"

lemma sends_refl [simp]: "sends P n w w"
  by (simp add: sends_def)

lemma sends_trans: "sends P n w w1 \<Longrightarrow> sends P m w1 w' \<Longrightarrow> sends P (n + m) w w'"
  unfolding sends_def by (elim exE conjE, rename_tac es fs, rule_tac x = "es @ fs" in exI) auto

lemma sends_mono: "sends P n w w' \<Longrightarrow> n \<le> m \<Longrightarrow> sends P m w w'"
  by (auto simp: sends_def)

lemma sends_same: "events w' = events w \<Longrightarrow> sends P n w w'"
  by (simp add: sends_def)

lemma sends_clock [simp]: "sends P n w (spend te m a w') = sends P n w w'"
  by (simp add: sends_def spend_def)

lemma not_sent: "\<not> is_sent x \<Longrightarrow> x \<noteq> Sent a m"
  by auto

definition unsent :: "event \<Rightarrow> bool" where
  "unsent x \<longleftrightarrow> \<not> is_sent x \<and> \<not> leaves_to_system x"

lemma unsent_simps [simp]: "unsent (Resolved h ips)" "unsent (Dialled a)" "unsent (AskedAgent a h p)"
  by (simp_all add: unsent_def)

lemma sends_quiet: "list_all unsent es \<Longrightarrow> events w' = events w @ es \<Longrightarrow> sends P 0 w w'"
  unfolding sends_def by (rule exI [of _ es]) (auto simp: list_all_iff unsent_def)

lemma sends_resolve: "resolve e cfg h w = (ips, w') \<Longrightarrow> sends P 0 w w'"
  by (rule sends_quiet [of "[Resolved h ips]"]) (auto simp: resolve_def send_log_def split: prod.splits)

lemma sends_alternatives: "alternatives e cfg h ex w = (ips, w') \<Longrightarrow> sends P 0 w w'"
  by (rule sends_quiet [of "[Resolved h ips]"]) (auto simp: alternatives_def send_log_def split: prod.splits)

lemma sends_tcp: "resolve_tcp te h srv w = (ips, w') \<Longrightarrow> sends P 0 w w'"
proof (cases "build_a_query_with_id h 0x2222 TypeA 512")
  case (Built q)
  assume "resolve_tcp te h srv w = (ips, w')"
  then show ?thesis using Built
    by (intro sends_quiet [of "[Resolved h ips]"]) (auto simp: resolve_tcp_def Let_def send_log_def split: prod.splits)
qed (auto simp: resolve_tcp_def)

lemma sends_tcp_fallback: "tcp_fallback te h srvs w = (ips, w') \<Longrightarrow> sends P 0 w w'"
proof (induction srvs arbitrary: w)
  case (Cons srv srvs)
  obtain i w1 where r: "resolve_tcp te h srv w = (i, w1)" by fastforce
  then show ?case using Cons sends_tcp [OF r, of P] sends_trans [of P 0 w w1 0 w'] by (auto split: if_splits)
qed simp

lemma sends_logged: "logged unsent w w' \<Longrightarrow> sends P 0 w w'"
  using sends_quiet by (auto simp: logged_def)

lemma sends_connect_agent: "connect_agent e cfg ag h p w = (r, w') \<Longrightarrow> sends P 0 w w'"
proof -
  assume c: "connect_agent e cfg ag h p w = (r, w')"
  obtain as w1 where a: "agent_addrs e cfg ag w = (as, w1)" by fastforce
  have "logged unsent w w1" by (rule agent_addrs_logged [OF a]) simp
  moreover have "logged unsent w1 w'"
    using c a by (auto simp: connect_agent_def Let_def list_all_iff intro!: logged_log)
  ultimately show ?thesis using sends_logged logged_trans by blast
qed

lemma sends_dial_tls: "dial_upstream_tls e sn c o' cfg as h p w = (r, w') \<Longrightarrow> sends P 0 w w'"
proof (cases "agent_config cfg")
  case None
  assume "dial_upstream_tls e sn c o' cfg as h p w = (r, w')"
  then have "logged unsent w w'"
    using None by (auto simp: dial_upstream_tls_def list_all_iff intro!: logged_log)
  then show ?thesis by (rule sends_logged)
next
  case (Some ag)
  assume "dial_upstream_tls e sn c o' cfg as h p w = (r, w')"
  then show ?thesis using Some sends_connect_agent
    by (auto simp: dial_upstream_tls_def split: prod.splits option.splits attempt.splits)
qed

lemma sends_dial_no_sni: "dial_upstream_tls_no_sni e c o' cfg as h p w = (r, w') \<Longrightarrow> sends P 0 w w'"
proof (cases "agent_config cfg")
  case None
  assume "dial_upstream_tls_no_sni e c o' cfg as h p w = (r, w')"
  then have "logged unsent w w'"
    using None by (auto simp: dial_upstream_tls_no_sni_def list_all_iff intro!: logged_log)
  then show ?thesis by (rule sends_logged)
next
  case (Some ag)
  assume "dial_upstream_tls_no_sni e c o' cfg as h p w = (r, w')"
  then show ?thesis using Some sends_connect_agent
    by (auto simp: dial_upstream_tls_no_sni_def split: prod.splits option.splits attempt.splits)
qed

lemma sends_log: "P a m \<Longrightarrow> sends P 1 w (send_log [Sent a m] w)"
  by (auto simp: sends_def send_log_def)

lemma attempt_on_sent: "attempt_on req host port s \<noteq> Inl ConnectFailed"
  by (auto simp: attempt_on_def exchange_def probe_body_def split: prod.splits sum.splits option.splits if_splits list.splits)

text \<open>An attempt that did not get past the dial sent nothing; any other sent the request once.\<close>

lemma attempt_sends:
  assumes "attempt_upstream te cfg hm cm sni a port req host w = (r, w')" "P a (Some sni)"
  shows "(r = Inl ConnectFailed \<and> sends P 0 w w') \<or> (r \<noteq> Inl ConnectFailed \<and> sends P 1 w w')"
proof -
  let ?b = "(cm, hm, clock w)"
  obtain d w1 where d: "dial_upstream_tls (ext te) (server_name te) (direct te WebPki ?b) (over te WebPki ?b) cfg [a] sni port w = (d, w1)"
    by fastforce
  note z = sends_dial_tls [OF d, of P]
  show ?thesis
  proof (cases d)
    case None
    then show ?thesis using assms(1) d z by (auto simp: attempt_upstream_def)
  next
    case (Some s)
    have "sends P 1 w (send_log [Sent a (Some sni)] w1)" using sends_trans [OF z sends_log [of P, OF assms(2)]] by simp
    then show ?thesis using assms(1) d Some attempt_on_sent by (auto simp: attempt_upstream_def)
  qed
qed

lemma attempt_no_sni_sends:
  assumes "attempt_upstream_no_sni te cfg hm cm a target port req host w = (r, w')" "P a None"
  shows "(r = Inl ConnectFailed \<and> sends P 0 w w') \<or> (r \<noteq> Inl ConnectFailed \<and> sends P 1 w w')"
proof -
  let ?b = "(cm, hm, clock w)" and ?c = "VerifyAs host"
  obtain d w1 where d: "dial_upstream_tls_no_sni (ext te) (direct te ?c ?b) (over te ?c ?b) cfg [a] target port w = (d, w1)"
    by fastforce
  note z = sends_dial_no_sni [OF d, of P]
  show ?thesis
  proof (cases d)
    case None
    then show ?thesis using assms(1) d z by (auto simp: attempt_upstream_no_sni_def)
  next
    case (Some s)
    have "sends P 1 w (send_log [Sent a None] w1)" using sends_trans [OF z sends_log [of P, OF assms(2)]] by simp
    then show ?thesis using assms(1) d Some attempt_on_sent by (auto simp: attempt_upstream_no_sni_def)
  qed
qed

lemma judge_goes_on: "judge q a sni ns r w = None \<Longrightarrow> \<not> q_retry q \<Longrightarrow> r = Inl ConnectFailed"
  by (auto simp: judge_def split: if_splits sum.splits)

text \<open>The two bounds: any number of requests when the request may be repeated, one otherwise.\<close>

lemma no_sni_stage_sends:
  assumes "no_sni_stage te q as w = (r, w')" "\<And>a. a \<in> set as \<Longrightarrow> P a None"
  shows "(\<exists>n. sends P n w w') \<and> (\<not> q_retry q \<longrightarrow> sends P (if r = None then 0 else 1) w w')"
  using assms
proof (induction as arbitrary: w)
  case (Cons a as)
  obtain x w1 where x: "attempt_upstream_no_sni te (q_cfg q) (if q_retry q then fast_head_timeout else response_head_timeout)
      (if q_retry q then fast_connect_timeout else connect_timeout) a (q_connect_host q) (q_port q) (q_req q) (q_host q) w = (x, w1)"
    by fastforce
  have s: "(x = Inl ConnectFailed \<and> sends P 0 w w1) \<or> (x \<noteq> Inl ConnectFailed \<and> sends P 1 w w1)"
    using attempt_no_sni_sends [of te _ _ _ a _ _ _ _ w x w1 P] x Cons.prems(2) by fastforce
  then have s1: "sends P 1 w w1" using sends_mono [of P 0 w w1 1] by auto
  show ?case
  proof (cases "judge q a [] True x w1")
    case None
    then have n: "no_sni_stage te q as w1 = (r, w')" using Cons.prems(1) x by simp
    have ih: "(\<exists>n. sends P n w1 w') \<and> (\<not> q_retry q \<longrightarrow> sends P (if r = None then 0 else 1) w1 w')"
      using Cons.IH [OF n] Cons.prems(2) by simp
    have "\<not> q_retry q \<longrightarrow> sends P 0 w w1" using judge_goes_on [OF None] s by auto
    then show ?thesis using ih sends_trans [OF s1] sends_trans [of P 0 w w1] by fastforce
  next
    case (Some y)
    then have "r = Some y" "w' = w1" using Cons.prems(1) x by auto
    then show ?thesis using s1 by auto
  qed
qed auto

lemma search_loop_sends:
  assumes "search_loop te q primary S w = (r, w')"
    and "\<And>sni a. (sni, a) \<in> set (pending S) \<Longrightarrow> P a (Some sni)" "\<And>a sni. sni \<in> insert primary (set (q_sni_list q)) \<Longrightarrow> P a (Some sni)"
  shows "(\<exists>n. sends P n w w') \<and> (\<not> q_retry q \<longrightarrow> sends P 1 w w')"
  using assms
proof (induction te q primary S w arbitrary: r w' rule: search_loop.induct)
  case (1 te q primary S w)
  note u = search_loop.simps [of te q primary S w]
  show ?case
  proof (cases "pending S")
    case (Cons c rest)
    obtain sni a where c: "c = (sni, a)" by (cases c)
    define lst where "lst = (rest = [] \<and> host_fallback_done S \<and> alias_alts_done S \<and> host_alts_done S)"
    define hm where "hm = (if \<not> q_retry q \<or> lst then response_head_timeout else fast_head_timeout)"
    define cm where "cm = (if q_retry q \<and> \<not> lst then fast_connect_timeout else connect_timeout)"
    obtain x w1 where x: "attempt_upstream te (q_cfg q) hm cm sni a (q_port q) (q_req q) (q_host q) w = (x, w1)"
      by fastforce
    have s: "(x = Inl ConnectFailed \<and> sends P 0 w w1) \<or> (x \<noteq> Inl ConnectFailed \<and> sends P 1 w w1)"
      using attempt_sends [OF x] "1.prems"(2) Cons c by simp
    then have s1: "sends P 1 w w1" using sends_mono [of P 0 w w1 1] by auto
    show ?thesis
    proof (cases "judge q a sni False x w1")
      case None
      then have n: "search_loop te q primary (S\<lparr>pending := rest\<rparr>) w1 = (r, w')"
        using "1.prems"(1) x by (simp add: u Cons c lst_def hm_def cm_def Let_def)
      have "(\<exists>n. sends P n w1 w') \<and> (\<not> q_retry q \<longrightarrow> sends P 1 w1 w')"
        using "1.IH"(4) [OF Cons c [symmetric] refl refl refl x [symmetric, unfolded hm_def cm_def lst_def] None n]
          "1.prems"(2,3) Cons by simp
      moreover have "\<not> q_retry q \<longrightarrow> sends P 0 w w1" using judge_goes_on [OF None] s by auto
      ultimately show ?thesis using sends_trans [OF s1] sends_trans [of P 0 w w1] by fastforce
    next
      case (Some y)
      then have "w' = w1" using "1.prems"(1) x by (simp add: u Cons c lst_def hm_def cm_def Let_def)
      then show ?thesis using s1 by auto
    qed
  next
    case Nil
    note names = "1.prems"(3)
    have stop: "w1 = w' \<Longrightarrow> sends P 0 w w1 \<Longrightarrow> ?thesis" for w1 using sends_mono [of P 0 w w' 1] by auto
    have step: "sends P 0 w w1 \<Longrightarrow> (\<exists>n. sends P n w1 w') \<and> (\<not> q_retry q \<longrightarrow> sends P 1 w1 w') \<Longrightarrow> ?thesis" for w1
      using sends_trans [of P 0 w w1] by fastforce
    consider "\<not> host_fallback_done S" | "host_fallback_done S" "\<not> alias_alts_done S"
      | "host_fallback_done S" "alias_alts_done S" "\<not> host_alts_done S"
      | "host_fallback_done S" "alias_alts_done S" "host_alts_done S" by blast
    then show ?thesis
    proof cases
      case c1: 1
      obtain ips w1 where r: "resolve (ext te) (q_cfg q) (q_host q) w = (ips, w1)" by fastforce
      show ?thesis
      proof (cases "q_deadline q < clock w1")
        case True
        then show ?thesis using "1.prems"(1) r c1 stop sends_resolve [OF r] by (simp add: u Nil)
      next
        case False
        define new where "new = drop (length (tried S)) (push_new (tried S) ips)"
        have n: "search_loop te q primary (S\<lparr>pending := map (\<lambda>ip. (primary, (ip, q_port q))) new,
            tried := tried S @ new, host_fallback_done := True\<rparr>) w1 = (r, w')"
          using "1.prems"(1) r c1 False by (simp add: u Nil new_def Let_def)
        show ?thesis
          by (rule step [OF sends_resolve [OF r]], rule "1.IH"(1) [OF Nil c1 r [symmetric] False new_def n])
            (use names in auto)
      qed
    next
      case c2: 2
      obtain alts w1 where r: "alternatives (ext te) (q_cfg q) (q_connect_host q) (tried S) w = (alts, w1)" by fastforce
      show ?thesis
      proof (cases "q_deadline q < clock w1")
        case True
        then show ?thesis using "1.prems"(1) r c2 stop sends_alternatives [OF r] by (simp add: u Nil)
      next
        case False
        have n: "search_loop te q primary (S\<lparr>pending := concat (map (\<lambda>ip. map (\<lambda>sni. (sni, (ip, q_port q))) (q_sni_list q)) alts),
            tried := tried S @ alts, alias_alts_done := True\<rparr>) w1 = (r, w')"
          using "1.prems"(1) r c2 False by (simp add: u Nil)
        show ?thesis
          by (rule step [OF sends_alternatives [OF r]], rule "1.IH"(2) [OF Nil _ _ r [symmetric] False n])
            (use names c2 in auto)
      qed
    next
      case c3: 3
      obtain alts w1 where r: "alternatives (ext te) (q_cfg q) (q_host q) (tried S) w = (alts, w1)" by fastforce
      show ?thesis
      proof (cases "q_deadline q < clock w1")
        case True
        then show ?thesis using "1.prems"(1) r c3 stop sends_alternatives [OF r] by (simp add: u Nil)
      next
        case False
        have n: "search_loop te q primary (S\<lparr>pending := map (\<lambda>ip. (primary, (ip, q_port q))) alts,
            tried := tried S @ alts, host_alts_done := True\<rparr>) w1 = (r, w')"
          using "1.prems"(1) r c3 False by (simp add: u Nil)
        show ?thesis
          by (rule step [OF sends_alternatives [OF r]], rule "1.IH"(3) [OF Nil _ _ _ r [symmetric] False n])
            (use names c3 in auto)
      qed
    next
      case 4
      then have "w' = w" using "1.prems"(1) by (simp add: u Nil)
      then show ?thesis by auto
    qed
  qed
qed

lemma hedge_log_kind:
  assumes "\<And>sni. fst c = sni \<Longrightarrow> P (snd c) sni" "x \<in> set (h_log (hedge_run_of te q w (t, c)))"
  shows "(x = Sent a m \<longrightarrow> P a m) \<and> \<not> leaves_to_system x"
proof -
  define v where "v = w\<lparr>clock := t, events := []\<rparr>"
  obtain r w' where h: "hedge_try te q c v = (r, w')" by fastforce
  have "\<exists>n. sends P n v w'"
  proof -
    obtain sni addr where Pair: "c = (sni, addr)" by (cases c)
    then have p: "P addr sni" using assms(1) by simp
    show ?thesis
    proof (cases sni)
      case None
      then have "attempt_upstream_no_sni te (q_cfg q) fast_head_timeout fast_connect_timeout addr
          (q_connect_host q) (q_port q) (q_req q) (q_host q) v = (r, w')"
        using h Pair by (simp add: hedge_try_def)
      then show ?thesis using attempt_no_sni_sends p None by blast
    next
      case (Some n)
      then have "attempt_upstream te (q_cfg q) fast_head_timeout fast_connect_timeout n addr (q_port q) (q_req q) (q_host q) v = (r, w')"
        using h Pair by (simp add: hedge_try_def)
      then show ?thesis using attempt_sends p Some by blast
    qed
  qed
  then have "\<forall>a m. Sent a m \<in> set (events w') \<longrightarrow> P a m" "list_all (\<lambda>x. \<not> leaves_to_system x) (events w')"
    unfolding sends_def v_def by auto
  moreover have "h_log (hedge_run_of te q w (t, c)) = events w'" using h by (simp add: hedge_run_of_def v_def)
  ultimately show ?thesis using assms(2) unfolding list_all_iff by metis
qed

lemma hedged_sends:
  assumes "hedged_attempts te q initial fallback w = (r, w')"
    and "\<And>sni a. (sni, a) \<in> set initial \<union> set fallback \<Longrightarrow> P a sni"
  shows "\<exists>n. sends P n w w'"
proof -
  let ?starts = "hedge_starts (clock w) initial fallback"
  obtain started where e: "events w' = events w @ concat (map h_log started)" "set started \<subseteq> hedge_run_of te q w ` set ?starts"
    using assms(1) by (auto simp: hedged_attempts_def Let_def)
  have c: "tc \<in> set ?starts \<Longrightarrow> snd tc \<in> set initial \<union> set fallback" for tc
    by (auto simp: hedge_starts_def)
  have "(x = Sent a m \<longrightarrow> P a m) \<and> \<not> leaves_to_system x" if "x \<in> set (concat (map h_log started))" for x a m
  proof -
    from that obtain h where h: "h \<in> set started" "x \<in> set (h_log h)" unfolding set_concat set_map by blast
    then obtain t d where d: "(t, d) \<in> set ?starts" "h = hedge_run_of te q w (t, d)" using e(2) by auto
    then have "d \<in> set initial \<union> set fallback" using c [OF d(1)] by simp
    then show ?thesis using hedge_log_kind [of d P x te q w t a m] assms(2) h(2) d(2) by (cases d) auto
  qed
  then show ?thesis using e(1) unfolding sends_def list_all_iff by (intro exI conjI) (assumption, rule order_refl, blast+)
qed

text \<open>The names a request may present: none only where that is allowed, else one of the list.\<close>

definition allowed_name :: "bool \<Rightarrow> string list \<Rightarrow> sockaddr \<Rightarrow> string option \<Rightarrow> bool" where
  "allowed_name no_sni names a m = (case m of None \<Rightarrow> no_sni | Some n \<Rightarrow> n \<in> set names)"

lemma hedge_candidates_allowed:
  "(sni, a) \<in> set (hedge_candidates no_sni names as) \<Longrightarrow> allowed_name no_sni names b sni"
  by (auto simp: hedge_candidates_def allowed_name_def split: if_splits)

lemma upstream_phase_sends:
  assumes "upstream_phase te q acc ag ns primary preferred good w = (r, w')" "primary \<in> set (q_sni_list q)"
    and "\<not> q_retry q \<longrightarrow> \<not> hedge_path ag acc (q_req q)"
  shows "(\<exists>n. sends (allowed_name ns (q_sni_list q)) n w w') \<and> (\<not> q_retry q \<longrightarrow> sends (allowed_name ns (q_sni_list q)) 1 w w')"
proof -
  let ?P = "allowed_name ns (q_sni_list q)"
  have via: "sends ?P 0 w v \<Longrightarrow> (\<exists>n. sends ?P n v w') \<and> (\<not> q_retry q \<longrightarrow> sends ?P 1 v w') \<Longrightarrow> ?thesis" for v
    using sends_trans [of ?P 0 w v] by fastforce
  have stop: "sends ?P 0 w w' \<Longrightarrow> ?thesis" by (rule via [of w']) auto
  obtain ips w1 where a: "resolve (ext te) (q_cfg q) (q_connect_host q) w = (ips, w1)" by fastforce
  have s1: "sends ?P 0 w w1" by (rule sends_resolve [OF a])
  show ?thesis
  proof (cases "q_deadline q < clock w1")
    case True
    then show ?thesis using assms(1) a stop s1 by (simp add: upstream_phase_def)
  next
    case f1: False
    obtain ips2 w2 where b: "(if ips = [] then tcp_fallback te (q_connect_host q)
        (tcp_dns_servers (net (ext te)) (proxy_master_dns (q_cfg q))) w1 else (ips, w1)) = (ips2, w2)" by fastforce
    have s2: "sends ?P 0 w w2"
      using b sends_trans [OF s1 sends_tcp_fallback] s1 by (auto split: if_splits)
    show ?thesis
    proof (cases "q_deadline q < clock w2")
      case True
      then show ?thesis using assms(1) a b f1 stop s2 by (simp add: upstream_phase_def)
    next
      case f2: False
      define addrs where "addrs = endpoint_addrs preferred (q_port q) ips2 acc good ag (stateful (q_req q)) (q_host q)"
      show ?thesis
      proof (cases "hedge_path ag acc (q_req q)")
        case True
        then obtain x where "hedged_attempts te q (hedge_candidates ns (q_sni_list q) addrs)
            (hedge_candidates ns (q_sni_list q) (map (\<lambda>ip. (ip, q_port q))
               (filter (\<lambda>ip. ip \<notin> set (push_new ips2 (map sa_ip addrs))) (github_fallback_ips (q_host q))))) w2 = (x, w')"
          using assms(1) a b f1 f2 by (auto simp: upstream_phase_def Let_def addrs_def split: prod.splits)
        from hedged_sends [OF this, of ?P] have "\<exists>n. sends ?P n w2 w'"
          using hedge_candidates_allowed by blast
        then show ?thesis using via [OF s2] assms(3) True by blast
      next
        case False
        obtain x w3 where c: "(if ns then no_sni_stage te q addrs w2 else (None, w2)) = (x, w3)" by fastforce
        have s3: "(\<exists>n. sends ?P n w2 w3) \<and> (\<not> q_retry q \<longrightarrow> sends ?P (if x = None then 0 else 1) w2 w3)"
          using c no_sni_stage_sends [of te q addrs w2 x w3 ?P] by (auto simp: allowed_name_def split: if_splits)
        show ?thesis
        proof (cases x)
          case (Some y)
          then have "w' = w3" using assms(1) a b f1 f2 False c by (auto simp: upstream_phase_def Let_def simp flip: addrs_def)
          then show ?thesis using via [OF s2] s3 Some by simp
        next
          case None
          obtain S where S: "search_loop te q primary S w3 = (r, w')"
              "pending S = concat (map (\<lambda>sni. map (\<lambda>a. (sni, a)) addrs) (q_sni_list q))"
            using assms(1) a b f1 f2 False c None that by (auto simp: upstream_phase_def Let_def simp flip: addrs_def)
          have "(\<exists>n. sends ?P n w3 w') \<and> (\<not> q_retry q \<longrightarrow> sends ?P 1 w3 w')"
            by (rule search_loop_sends [OF S(1)]) (use S(2) assms(2) in \<open>auto simp: allowed_name_def\<close>)
          then have "(\<exists>n. sends ?P n w2 w') \<and> (\<not> q_retry q \<longrightarrow> sends ?P 1 w2 w')"
            using s3 None sends_trans [of ?P _ w2 w3 _ w'] sends_trans [of ?P 0 w2 w3 1 w'] by auto
          then show ?thesis using via [OF s2] by blast
        qed
      qed
    qed
  qed
qed

lemma pool_take_Some:
  "pool_take host port allowed now pool = (Some p, rest) \<Longrightarrow>
     p \<in> set pool \<and> idle_ok now p \<and> u_host p = host \<and> u_port p = port \<and> allowed p"
proof -
  assume "pool_take host port allowed now pool = (Some p, rest)"
  then obtain us vs where "List.extract (\<lambda>p. u_host p = host \<and> u_port p = port \<and> allowed p) (filter (idle_ok now) pool) = Some (us, p, vs)"
    by (auto simp: pool_take_def Let_def split: option.splits prod.splits)
  note e = extract_SomeE [OF this]
  then have "p \<in> set (filter (idle_ok now) pool)" by (metis in_set_conv_decomp)
  then have "p \<in> set pool" "idle_ok now p" by simp_all
  then show ?thesis using e by simp
qed

lemma reuse_sends:
  assumes "reuse_pooled te retry req host port p w = (r, w')"
    and "reusable ok names retry now p"
  shows "sends (allowed_name ok names) 1 w w' \<and> (r = DialAgain \<longrightarrow> \<not> retry \<longrightarrow>
    (\<exists>head s. exchange req host port (u_stream p) = (Inr head, s) \<and> response_has_body head (r_method req)))"
proof
  show "sends (allowed_name ok names) 1 w w'"
    using assms by (auto simp: reuse_pooled_def Let_def reusable_def allowed_name_def split: if_splits intro!: sends_log [of _ _ _, unfolded One_nat_def])
  show "r = DialAgain \<longrightarrow> \<not> retry \<longrightarrow>
    (\<exists>head s. exchange req host port (u_stream p) = (Inr head, s) \<and> response_has_body head (r_method req))"
    using assms(1) by (auto simp: reuse_pooled_def Let_def exchange_def
        split: prod.splits sum.splits if_splits option.splits)
qed

text \<open>The names a request for a host may be sent under.\<close>

definition primary_name :: "mitm_runtime \<Rightarrow> string \<Rightarrow> string" where
  "primary_name rt host = (case manifest_fake_name_for (m_config rt) (m_fake_names rt) host of Some n \<Rightarrow> n | None \<Rightarrow> host)"

definition no_sni_ok :: "mitm_runtime \<Rightarrow> string \<Rightarrow> bool" where
  "no_sni_ok rt host = (is_accelerated host (m_domains rt) \<and>
     manifest_fake_name_for (m_config rt) (m_fake_names rt) host = None)"

lemma race_safe_retryable: "race_safe m \<Longrightarrow> retryable_response m path"
  by (auto simp: race_safe_def retryable_response_def Let_def)

lemma finish_response_wld:
  "finish_response req host ch port ag outcome client st = (k, c, st') \<Longrightarrow> wld st' = wld st"
  by (auto simp: finish_response_def Let_def count_flow_def split: sum.splits prod.splits option.splits if_splits)

lemma forward_one_sends:
  assumes "forward_one te rt req host ch port client st = (k, c, st')"
  defines "names \<equiv> sni_candidates (primary_name rt host) ch"
    and "retry \<equiv> is_accelerated host (m_domains rt) \<and> retryable_response (r_method req) (r_path req)"
  shows "(\<exists>n. sends (allowed_name (no_sni_ok rt host) names) n (wld st) (wld st')) \<and>
    (\<not> retry \<longrightarrow> sends (allowed_name (no_sni_ok rt host) names) 1 (wld st) (wld st') \<or>
      sends (allowed_name (no_sni_ok rt host) names) 2 (wld st) (wld st') \<and>
      (\<exists>p\<in>set (idle st). \<exists>head s. exchange req host port (u_stream p) = (Inr head, s) \<and> response_has_body head (r_method req)))"
proof -
  let ?P = "allowed_name (no_sni_ok rt host) names"
  let ?now = "clock (wld st)"
  obtain previous rest where t: "pool_take ch port (reusable (no_sni_ok rt host) names retry ?now) ?now (idle st) = (previous, rest)"
    by fastforce
  obtain reused w where r: "(case previous of Some p \<Rightarrow> reuse_pooled te retry req host port p (wld st)
      | None \<Rightarrow> (DialAgain, wld st)) = (reused, w)" by fastforce
  let ?st = "st\<lparr>idle := rest, wld := w\<rparr>"
  have f: "(case reused of
        Served ans \<Rightarrow> finish_response req host ch port (agent_config (m_config rt) \<noteq> None) (Inr ans) client ?st
      | Refuse \<Rightarrow> (False, snd (write_all bad_gateway client), ?st)
      | DialAgain \<Rightarrow> (case upstream_phase te
              \<lparr>q_cfg = m_config rt, q_retry = retry, q_deadline = clock w + upstream_budget, q_host = host,
               q_connect_host = ch, q_port = port, q_req = req, q_sni_list = names\<rparr>
              (is_accelerated host (m_domains rt)) (agent_config (m_config rt) \<noteq> None) (no_sni_ok rt host \<and> can_verify te host)
              (primary_name rt host) (manifest_ips_for (m_config rt) (m_configured_ips rt) host) (last_good ?st host) w of
            (outcome, w) \<Rightarrow> finish_response req host ch port (agent_config (m_config rt) \<noteq> None) outcome client (?st\<lparr>wld := w\<rparr>)))
      = (k, c, st')"
    using assms(1) t r unfolding forward_one_def Let_def names_def retry_def primary_name_def no_sni_ok_def
    by (auto split: option.splits)
  have s1: "sends ?P (if previous = None then 0 else 1) (wld st) w"
    "previous \<noteq> None \<Longrightarrow> reused = DialAgain \<Longrightarrow> \<not> retry \<Longrightarrow>
      \<exists>p\<in>set (idle st). \<exists>head s. exchange req host port (u_stream p) = (Inr head, s) \<and> response_has_body head (r_method req)"
    using r t reuse_sends [of te retry req host port _ "wld st" reused w "no_sni_ok rt host" names ?now] pool_take_Some [of ch port _ ?now "idle st"]
    by (auto split: option.splits) blast+
  show ?thesis
  proof (cases "reused = DialAgain")
    case False
    then have "wld st' = w" using f finish_response_wld by (cases reused) fastforce+
    then show ?thesis using s1(1) sends_mono [OF s1(1), of 1] by auto
  next
    case True
    obtain outcome w2 where u: "upstream_phase te
              \<lparr>q_cfg = m_config rt, q_retry = retry, q_deadline = clock w + upstream_budget, q_host = host,
               q_connect_host = ch, q_port = port, q_req = req, q_sni_list = names\<rparr>
              (is_accelerated host (m_domains rt)) (agent_config (m_config rt) \<noteq> None) (no_sni_ok rt host \<and> can_verify te host)
              (primary_name rt host) (manifest_ips_for (m_config rt) (m_configured_ips rt) host) (last_good ?st host) w = (outcome, w2)"
      by fastforce
    have w2: "wld st' = w2" using f True u finish_response_wld by fastforce
    have weaken: "sends (allowed_name (no_sni_ok rt host \<and> can_verify te host) names) n w w2 \<Longrightarrow> sends ?P n w w2" for n
      by (auto simp: sends_def allowed_name_def split: option.splits)
    have s2: "(\<exists>n. sends ?P n w w2) \<and> (\<not> retry \<longrightarrow> sends ?P 1 w w2)"
    proof -
      have "primary_name rt host \<in> set names" by (simp add: names_def sni_candidates_def)
      moreover have "\<not> retry \<longrightarrow> \<not> hedge_path (agent_config (m_config rt) \<noteq> None) (is_accelerated host (m_domains rt)) req"
        using race_safe_retryable by (auto simp: hedge_path_def retry_def)
      ultimately show ?thesis using upstream_phase_sends [OF u] weaken by fastforce
    qed
    then show ?thesis
      using w2 s1 True sends_trans [OF s1(1)] by (cases "previous = None") (fastforce simp: numeral_2_eq_2)+
  qed
qed

section \<open>What the client gets\<close>

text \<open>A response that leaves the connection usable: its body is as long as its framing says.\<close>

definition whole :: "string \<Rightarrow> response_head \<Rightarrow> string \<Rightarrow> bool" where
  "whole meth head body \<longleftrightarrow> keep_alive head \<and> (bodyless meth head \<longrightarrow> body = []) \<and>
     (\<not> bodyless meth head \<longrightarrow> \<not> is_chunked head \<longrightarrow> content_length_of (h_headers head) = Some (length body))"

lemma stream_response_keep:
  assumes "stream_response_body rh meth s = (Some True, s')"
  shows "\<exists>bs. outp s' = outp s @ client_head rh @ bs \<and> whole meth rh bs"
proof -
  have k: "keep_alive rh"
    using assms by (auto simp: stream_response_body_def stream_response_body_inner_def
        split: if_splits prod.splits option.splits)
  obtain bs where bs: "outp s' = outp s @ client_head rh @ bs" "bodyless meth rh \<longrightarrow> bs = []"
    "\<forall>len. \<not> bodyless meth rh \<longrightarrow> \<not> is_chunked rh \<longrightarrow> content_length_of (h_headers rh) = Some len \<longrightarrow> length bs = len"
    "\<not> bodyless meth rh \<longrightarrow> \<not> is_chunked rh \<longrightarrow> content_length_of (h_headers rh) \<noteq> None"
    using stream_response_body_consumes [OF assms] by auto
  then have "whole meth rh bs" using k by (auto simp: whole_def)
  then show ?thesis using bs(1) by blast
qed

text \<open>One answer: the refusal, or a head with a prefix of the body, complete when the connection is kept.\<close>

definition one_answer :: "string \<Rightarrow> io \<Rightarrow> bool \<Rightarrow> io \<Rightarrow> bool" where
  "one_answer meth client keep c \<longleftrightarrow> \<not> keep \<and> outp c = outp client @ bad_gateway
     \<or> (\<exists>head body. outp c = outp client @ client_head head @ body \<and> (keep \<longrightarrow> whole meth head body))"

lemma finish_response_answer:
  assumes "finish_response req host ch port ag outcome client st = (k, c, st')" "room client = None"
  shows "one_answer (r_method req) client k c"
proof (cases outcome)
  case (Inl f)
  then show ?thesis using assms by (auto simp: finish_response_def one_answer_def write_free')
next
  case (Inr ans)
  obtain up head got winner sni ns where a: "ans = (up, head, got, winner, sni, ns)" by (metis prod_cases6)
  let ?s = "across client (with_prefix got up)"
  obtain r s where s: "stream_response_body head (r_method req) ?s = (r, s)" by fastforce
  have kc: "c = written_to client s" "k \<longrightarrow> r = Some True"
    using assms(1) Inr a s by (auto simp: finish_response_def Let_def split: option.splits)
  obtain bs where bs: "outp s = outp client @ client_head head @ bs"
    using stream_response_body_truncates [OF s] assms(2) by (auto simp: across_def)
  moreover have "k \<Longrightarrow> whole (r_method req) head bs"
    using stream_response_keep [of head "r_method req" ?s s] s kc(2) bs by (auto simp: across_def)
  ultimately show ?thesis using kc(1) by (auto simp: one_answer_def written_to_def)
qed

lemma forward_one_answer:
  assumes "forward_one te rt req host ch port client st = (k, c, st')" "room client = None"
  shows "one_answer (r_method req) client k c"
  using assms unfolding forward_one_def
  by (auto simp: Let_def one_answer_def [of _ _ False] write_free' finish_response_answer
      split: prod.splits option.splits reuse.splits)

section \<open>Facts on the race\<close>

lemma sort_key_hd:
  assumes "sort_key f xs = x # rest"
  shows "x \<in> set xs \<and> (\<forall>y\<in>set xs. f x \<le> f y)"
proof -
  have "sorted (map f (x # rest))" using sorted_sort_key [of f xs] assms by simp
  moreover have "set xs = set (x # rest)" using set_sort [of f xs] assms by metis
  ultimately show ?thesis by auto
qed

lemma sort_key_Nil_iff: "sort_key f xs = [] \<longleftrightarrow> xs = []"
  by (metis set_empty set_sort)

lemma hedge_answer_exists: "hedge_wins dl h \<Longrightarrow> \<exists>ans. hedge_answer_of h = Some ans"
  by (auto simp: hedge_wins_def hedge_answer_of_def split: sum.splits)

lemma dial_tls_clock:
  assumes "agent_config cfg = None"
  shows "dial_upstream_tls e sn c o' cfg as h p w = (x, w') \<Longrightarrow> clock w' = clock w"
    and "dial_upstream_tls_no_sni e c o' cfg as h p w = (x, w') \<Longrightarrow> clock w' = clock w"
  using assms by (auto simp: dial_upstream_tls_def dial_upstream_tls_no_sni_def send_log_def)

lemma attempt_clock:
  assumes "agent_config cfg = None"
  shows "attempt_upstream te cfg hm cm sni a port req host w = (r, w') \<Longrightarrow> clock w \<le> clock w'"
    and "attempt_upstream_no_sni te cfg hm cm a target port req host w = (r, w') \<Longrightarrow> clock w \<le> clock w'"
proof -
  let ?b = "(cm, hm, clock w)" and ?c = "VerifyAs host"
  obtain d w1 where d: "dial_upstream_tls (ext te) (server_name te) (direct te WebPki ?b) (over te WebPki ?b) cfg [a] sni port w = (d, w1)"
    by fastforce
  obtain d2 w2 where d2: "dial_upstream_tls_no_sni (ext te) (direct te ?c ?b) (over te ?c ?b) cfg [a] target port w = (d2, w2)"
    by fastforce
  note c = dial_tls_clock(1) [OF assms d] dial_tls_clock(2) [OF assms d2]
  show "attempt_upstream te cfg hm cm sni a port req host w = (r, w') \<Longrightarrow> clock w \<le> clock w'"
    using d c(1) by (cases d) (auto simp: attempt_upstream_def spend_def send_log_def)
  show "attempt_upstream_no_sni te cfg hm cm a target port req host w = (r, w') \<Longrightarrow> clock w \<le> clock w'"
    using d2 c(2) by (cases d2) (auto simp: attempt_upstream_no_sni_def spend_def send_log_def)
qed

lemma hedge_run_simps [simp]:
  "h_start (hedge_run_of te q w tc) = fst tc" "h_cand (hedge_run_of te q w tc) = snd tc"
  by (simp_all add: hedge_run_of_def split: prod.split)

lemma hedge_run_time:
  "agent_config (q_cfg q) = None \<Longrightarrow> fst tc \<le> h_end (hedge_run_of te q w tc)"
proof -
  assume ag: "agent_config (q_cfg q) = None"
  obtain t sni a where tc: "tc = (t, sni, a)" by (cases tc)
  obtain r w' where h: "hedge_try te q (sni, a) (w\<lparr>clock := t, events := []\<rparr>) = (r, w')" by fastforce
  have "t \<le> clock w'"
  proof (cases sni)
    case None
    then show ?thesis using h attempt_clock(2) [OF ag, where w = "w\<lparr>clock := t, events := []\<rparr>"] by (fastforce simp: hedge_try_def)
  next
    case (Some n)
    then show ?thesis using h attempt_clock(1) [OF ag, where w = "w\<lparr>clock := t, events := []\<rparr>"] by (fastforce simp: hedge_try_def)
  qed
  then show ?thesis using h tc by (simp add: hedge_run_of_def)
qed

section \<open>Properties\<close>


text \<open>C10. Nothing but the permitted server names leaves for the upstream: a request is sent under no name
  only for an accelerated host without a substitute name, and otherwise under the substitute name
  (the host itself where none is configured) or the name that is dialled, reused and raced
  connections included.\<close>

theorem server_names_respected:
  assumes "forward_one te rt req host ch port client st = (k, c, st')"
  shows "\<exists>es. events (wld st') = events (wld st) @ es \<and> (\<forall>a m. Sent a m \<in> set es \<longrightarrow> (case m of
      None \<Rightarrow> is_accelerated host (m_domains rt) \<and> manifest_fake_name_for (m_config rt) (m_fake_names rt) host = None
    | Some n \<Rightarrow> n = primary_name rt host \<or> n = ch))"
proof -
  obtain es where "events (wld st') = events (wld st) @ es"
    "\<forall>a m. Sent a m \<in> set es \<longrightarrow> allowed_name (no_sni_ok rt host) (sni_candidates (primary_name rt host) ch) a m"
    using forward_one_sends [OF assms, THEN conjunct1] unfolding sends_def by blast
  then show ?thesis
    by (intro exI [of _ es]) (auto simp: allowed_name_def no_sni_ok_def sni_candidates_def split: option.splits if_splits)
qed

text \<open>Each request is answered once: with the 502 of the proxy, which ends the connection, or with the
  head of a response and what arrived of its body; the connection is kept for the next request only
  when the body is as long as its framing announced.\<close>

theorem forward_one_answers_once:
  assumes "forward_one te rt req host ch port client st = (k, c, st')" "room client = None"
  shows "\<not> k \<and> outp c = outp client @ bad_gateway
     \<or> (\<exists>head body. outp c = outp client @ client_head head @ body \<and> (k \<longrightarrow> whole (r_method req) head body))"
  using forward_one_answer [OF assms] by (simp add: one_answer_def)


text \<open>A healthy first endpoint costs one request: when its answer is there before the second candidate
  is due, nothing else is dialled or sent.\<close>

theorem healthy_primary_is_alone:
  assumes "hedged_attempts te q (cand # initial) fallback w = (r, w')" "agent_config (q_cfg q) = None"
    and "h = hedge_run_of te q w (clock w, cand)" "hedge_wins (clock w + hedge_budget) h" "h_end h < clock w + hedge_delay"
  shows "r = hedge_answer_of h \<and> events w' = events w @ h_log h"
proof -
  let ?dl = "clock w + hedge_budget"
  define late where "late = map (\<lambda>i. (clock w + hedge_delay * i, (cand # initial) ! i)) [1..<Suc (length initial)] @
     map (\<lambda>c. (clock w + hedge_fallback_after, c)) fallback"
  have up: "[0..<Suc (length initial)] = 0 # [1..<Suc (length initial)]" by (simp add: upt_conv_Cons del: upt_Suc)
  have starts: "hedge_starts (clock w) (cand # initial) fallback = (clock w, cand) # late"
    by (simp add: hedge_starts_def late_def up del: upt_Suc)
  have late: "tc \<in> set late \<Longrightarrow> clock w + hedge_delay \<le> fst tc" for tc
    by (auto simp: late_def hedge_delay_def hedge_fallback_after_def)
  have "h_end h < h_end (hedge_run_of te q w tc)" if "tc \<in> set late" for tc
    using late [OF that] hedge_run_time [OF assms(2), of tc te w] assms(5) by simp
  then have others: "h' \<in> hedge_run_of te q w ` set late \<Longrightarrow> h_end h < h_end h' \<and> \<not> h_start h' < h_end h \<and> h_start h' \<noteq> clock w" for h'
    using late assms(5) by (fastforce simp: hedge_delay_def)
  let ?runs = "h # map (hedge_run_of te q w) late"
  define won where "won = sort_key h_end (filter (hedge_wins ?dl) ?runs)"
  have "won \<noteq> []" using assms(4) unfolding won_def sort_key_Nil_iff by simp
  then obtain x xs where x: "won = x # xs" by (cases won) auto
  have xh: "x = h" using sort_key_hd [OF x [unfolded won_def]] assms(4) others by (auto simp: not_less [symmetric])
  have fil: "filter (\<lambda>h'. h_start h' < h_end h \<or> h_start h' = clock w) ?runs = [h]"
    using others assms(3) by (auto simp: filter_empty_conv)
  have "(r, w') = (hedge_answer_of h, w\<lparr>clock := h_end h, events := events w @ concat (map h_log (sort_key h_start [h]))\<rparr>)"
    using assms(1) x fil unfolding hedged_attempts_def Let_def starts list.map assms(3) [symmetric] won_def [symmetric] xh
    by simp
  then show ?thesis by simp
qed

section \<open>Witnesses\<close>

text \<open>One edge that answers; a connection to it, pooled half a second ago, on which only a 500 arrives.\<close>

definition sample_answer :: io where
  "sample_answer = stream (''HTTP/1.1 200 OK'' @ crlf @ ''Content-Length: 2'' @ crlf @ crlf @ ''hi'') []"

definition sample_tls :: "string tls_env" where
  "sample_tls = \<lparr>ext = sample_env, server_name = Some,
     direct = (\<lambda>c b n a. if sa_ip a = ip4 20 205 243 166 then Connected sample_answer else TcpFailed),
     over = (\<lambda>c b n s. TlsFailed), took = (\<lambda>n a t. 200), tcp53 = (\<lambda>srv t. (None, 10)), can_verify = (\<lambda>h. True)\<rparr>"

definition sample_mitm :: mitm_runtime where
  "sample_mitm = \<lparr>m_config = default_settings\<lparr>use_doh := False\<rparr>, m_domains = [''github.com''], m_forward = [],
     m_configured_ips = [], m_fake_names = []\<rparr>"

definition failing_upstream :: pooled where
  "failing_upstream = \<lparr>u_host = ''plain.example'', u_port = 443, u_sni = ''plain.example'', u_no_sni = False, u_returned = 500,
     u_peer = None, u_stream = stream (''HTTP/1.1 500 Internal Server Error'' @ crlf @ ''Content-Length: 2'' @ crlf @ crlf @ ''no'') []\<rparr>"

definition sample_state :: mitm_state where
  "sample_state = \<lparr>wld = sample_world\<lparr>clock := 1000\<rparr>, idle = [failing_upstream], last_good = Map.empty, total_bytes = 0,
     by_domain = Map.empty\<rparr>"

definition sample_post :: http_request where
  "sample_post = \<lparr>r_method = ''POST'', r_path = ''/order'', r_headers = [(''Host'', ''plain.example'')], r_body = ''x''\<rparr>"

abbreviation post_run :: "bool \<times> io \<times> mitm_state" where
  "post_run \<equiv> forward_one sample_tls sample_mitm sample_post ''plain.example'' ''plain.example'' 443 (stream [] []) sample_state"

lemma post_run_parts: "post_run = (fst post_run, fst (snd post_run), snd (snd post_run))"
  by simp

text \<open>The exception of \<open>unsafe_request_sent_once\<close> happens: a POST answered by a 500 on a reused connection is
  dialled and sent again, although a fresh connection would have returned that answer.\<close>

lemma reused_post_sent_twice:
  "filter is_sent (events (wld (snd (snd post_run)))) =
     [Sent (unspecified4, 443) (Some ''plain.example''), Sent (ip4 20 205 243 166, 443) (Some ''plain.example'')]"
  by code_simp


lemma server_names_respected_witness:
  "list_all (\<lambda>e. case e of Sent a m \<Rightarrow> m = Some ''plain.example'' | _ \<Rightarrow> True) (events (wld (snd (snd post_run))))"
proof -
  have "\<not> is_accelerated ''plain.example'' (m_domains sample_mitm)" "primary_name sample_mitm ''plain.example'' = ''plain.example''"
    by code_simp+
  with server_names_respected [OF post_run_parts] show ?thesis
    by (fastforce simp: sample_state_def sample_world_def list_all_iff split: option.splits event.splits)
qed

lemma forward_one_answers_once_witness:
  "fst post_run \<and> (\<exists>head body. outp (fst (snd post_run)) = client_head head @ body \<and> whole ''POST'' head body)"
proof -
  have "fst post_run" by code_simp
  with forward_one_answers_once [OF post_run_parts] show ?thesis by (auto simp: sample_post_def)
qed

definition sample_plan :: plan where
  "sample_plan = \<lparr>q_cfg = m_config sample_mitm, q_retry = True, q_deadline = 60000, q_host = ''github.com'', q_connect_host = ''github.com'',
     q_port = 443, q_req = sample_get ''/'', q_sni_list = [''github.com'']\<rparr>"

abbreviation first_candidate :: hedge_candidate where
  "first_candidate \<equiv> (None, (ip4 20 205 243 166, 443))"

abbreviation first_run :: hedge_run where
  "first_run \<equiv> hedge_run_of sample_tls sample_plan sample_world (clock sample_world, first_candidate)"

lemma first_run_wins: "hedge_wins (clock sample_world + hedge_budget) first_run" "h_end first_run < clock sample_world + hedge_delay"
  by code_simp+


lemma healthy_primary_is_alone_witness:
  "events (snd (hedged_attempts sample_tls sample_plan [first_candidate, (Some ''github.com'', (ip4 20 205 243 166, 443))]
      [(None, (ip4 20 27 177 113, 443))] sample_world)) = h_log first_run"
proof -
  have "agent_config (q_cfg sample_plan) = None" by code_simp
  from healthy_primary_is_alone [OF surjective_pairing this refl first_run_wins] show ?thesis by (simp add: sample_world_def)
qed

end
