(* ===== verification/Http2.thy ===== *)
theory Http2
  imports Mitm
begin

text \<open>
  HTTP/2 clients of the decrypting proxy (\<open>handle_h2_request\<close> and what it uses in
  \<open>crates/core/src/mitm.rs\<close>). The frames, flow control and header validation are the \<open>h2\<close> and \<open>http\<close>
  libraries: a request arrives as its parts and its data chunks, a response leaves as its head, its
  body and how the stream ended; \<open>valid\<close> is the check of the response builder. The request runs through the
  HTTP/1.1 path into a pipe, and the answer is read back from the pipe.
\<close>

record h2_request =
  h2_method :: string
  h2_path :: "string option"
  h2_authority :: "string option"
  h2_port :: "u16 option"
  h2_headers :: "(string \<times> string) list"
  h2_chunks :: "string option list"

datatype h2_ending = EndStream | ResetStream

text \<open>An error with no body, an error return that leaves the stream to the library, or a response.\<close>

datatype h2_answer =
    H2Error u16
  | H2Failed
  | H2Response u16 "(string \<times> string) list" string h2_ending

text \<open>The data frames, collected; \<open>None\<close> is a stream error.\<close>

fun collect_chunks :: "string option list \<Rightarrow> string option" where
  "collect_chunks [] = Some []"
| "collect_chunks (None # cs) = None"
| "collect_chunks (Some c # cs) = map_option (\<lambda>rest. c @ rest) (collect_chunks cs)"

definition h1_headers :: "h2_request \<Rightarrow> (string \<times> string) list" where
  "h1_headers r = map (\<lambda>(k, v). (k, utf8_lossy v)) (h2_headers r) @
     (if list_ex (\<lambda>(k, _). eq_ignore_case k ''host'') (h2_headers r) then []
      else case h2_authority r of Some a \<Rightarrow> [(''Host'', a)] | None \<Rightarrow> [])"

definition h1_request :: "h2_request \<Rightarrow> string \<Rightarrow> http_request" where
  "h1_request r body = \<lparr>r_method = h2_method r, r_path = (case h2_path r of Some p \<Rightarrow> p | None \<Rightarrow> ''/''),
     r_headers = h1_headers r, r_body = body\<rparr>"

definition h2_dropped :: "string \<Rightarrow> bool" where
  "h2_dropped kl = (kl \<in> {''connection'', ''keep-alive'', ''proxy-connection'', ''transfer-encoding'', ''upgrade'',
     ''trailer'', ''content-length''})"

text \<open>The last Content-Length, kept for a response without body only.\<close>

definition last_content_length :: "(string \<times> string) list \<Rightarrow> string option" where
  "last_content_length hs = map_option snd (List.find (\<lambda>(k, _). to_lower k = ''content-length'') (rev hs))"

definition h2_response_headers :: "string \<Rightarrow> response_head \<Rightarrow> (string \<times> string) list" where
  "h2_response_headers meth head =
     filter (\<lambda>(k, _). \<not> h2_dropped (to_lower k)) (h_headers head) @
     (if bodyless meth head then (case last_content_length (h_headers head) of
        Some v \<Rightarrow> [(''content-length'', v)] | None \<Rightarrow> []) else [])"

text \<open>The writer of the stream swallows the first write, which is the HTTP/1.1 head.\<close>

definition h2_body :: "response_head \<Rightarrow> string \<Rightarrow> io \<Rightarrow> string \<times> h2_ending" where
  "h2_body head meth reader = (case stream_response_body_decoded head meth (reader\<lparr>outp := [], room := None\<rparr>) of
     (r, s) \<Rightarrow> (drop (length (client_head head)) (outp s), if r = None then ResetStream else EndStream))"

definition pipe :: io where
  "pipe = \<lparr>inp = [], segs = [], ending_of = Eof, outp = [], room = None\<rparr>"

definition handle_h2_request :: "(u16 \<Rightarrow> (string \<times> string) list \<Rightarrow> bool) \<Rightarrow> 'n tls_env \<Rightarrow> mitm_runtime \<Rightarrow> u16 \<Rightarrow>
    h2_request \<Rightarrow> mitm_state \<Rightarrow> h2_answer \<times> mitm_state" where
  "handle_h2_request valid te rt port r st = (case collect_chunks (h2_chunks r) of
     None \<Rightarrow> (H2Failed, st)
   | Some body \<Rightarrow>
       (let req = h1_request r body; request_port = (case h2_port r of Some p \<Rightarrow> p | None \<Rightarrow> port) in
        case request_host req of
          None \<Rightarrow> (H2Error 400, st)
        | Some host \<Rightarrow>
            (case forward_one te rt req host (connect_host_of rt host) request_port pipe st of (_, writer, st) \<Rightarrow>
              (case read_response_head (stream (outp writer) []) of
                 (None, _) \<Rightarrow> (H2Error 502, st)
               | (Some head, reader) \<Rightarrow>
                   if \<not> valid (status head) (h2_response_headers (r_method req) head) then (H2Failed, st)
                   else if bodyless (r_method req) head
                   then (H2Response (status head) (h2_response_headers (r_method req) head) [] EndStream, st)
                   else (case h2_body head (r_method req) reader of (b, e) \<Rightarrow>
                     (H2Response (status head) (h2_response_headers (r_method req) head) b e, st))))))"

section \<open>Facts\<close>

text \<open>No framing or hop-by-hop header reaches an HTTP/2 client, except the length of a response without body.\<close>

lemma h2_headers_clean:
  "(k, v) \<in> set (h2_response_headers meth head) \<Longrightarrow> h2_dropped (to_lower k) \<Longrightarrow> bodyless meth head \<and> k = ''content-length''"
proof -
  assume m: "(k, v) \<in> set (h2_response_headers meth head)" and d: "h2_dropped (to_lower k)"
  have "(k, v) \<notin> set (filter (\<lambda>(k, _). \<not> h2_dropped (to_lower k)) (h_headers head))" using d by simp
  then have "(k, v) \<in> set (if bodyless meth head then (case last_content_length (h_headers head) of
      Some v \<Rightarrow> [(''content-length'', v)] | None \<Rightarrow> []) else [])"
    using m unfolding h2_response_headers_def set_append by blast
  then show ?thesis by (cases "bodyless meth head"; cases "last_content_length (h_headers head)") auto
qed

text \<open>A request that carries a Host header keeps it; one with an authority only gets exactly that host.\<close>

lemma h1_headers_host:
  assumes "\<forall>(k, v)\<in>set (h2_headers r). \<not> eq_ignore_case k ''host''" "h2_authority r = Some a"
  shows "header (h1_request r body) ''Host'' = Some a"
proof -
  have "find_header ''Host'' (map (\<lambda>(k, v). (k, utf8_lossy v)) hs @ [(''Host'', a)]) = Some a"
    if "\<forall>(k, v)\<in>set hs. \<not> eq_ignore_case k ''host''" for hs
    using that by (induction hs) (auto simp: find_header_def eq_ignore_case_def to_lower_def)
  moreover have "\<not> list_ex (\<lambda>(k, _). eq_ignore_case k ''host'') (h2_headers r)"
    using assms(1) by (auto simp: list_ex_iff)
  ultimately show ?thesis using assms by (simp add: header_def h1_request_def h1_headers_def)
qed

lemma decoded_body_shape:
  "stream_response_body_decoded head meth s = (r, s') \<Longrightarrow> \<not> bodyless meth head \<Longrightarrow>
     \<not> is_chunked head \<Longrightarrow> content_length_of (h_headers head) = Some len \<Longrightarrow> r \<noteq> None \<Longrightarrow>
     \<exists>b. outp s' = outp s @ client_head head @ b \<and> length b = len"
proof -
  assume a: "stream_response_body_decoded head meth s = (r, s')" "\<not> bodyless meth head" "\<not> is_chunked head"
    "content_length_of (h_headers head) = Some len" "r \<noteq> None"
  have eq: "stream_response_body_decoded head meth s = stream_response_body head meth s"
    using a(3) by (cases "write_all (client_head head) s")
      (simp add: stream_response_body_decoded_def stream_response_body_def stream_response_body_inner_def)
  obtain ka where "r = Some ka" using a(5) by auto
  then have "stream_response_body head meth s = (Some ka, s')" using a(1) eq by simp
  from stream_response_body_consumes [OF this] show ?thesis using a(2-4) by auto
qed

text \<open>A body of announced length is delivered in full or the stream is reset.\<close>

lemma h2_body_exact:
  assumes "h2_body head meth reader = (b, EndStream)" "\<not> bodyless meth head" "\<not> is_chunked head"
    and "content_length_of (h_headers head) = Some len"
  shows "length b = len"
proof -
  obtain r s where s: "stream_response_body_decoded head meth (reader\<lparr>outp := [], room := None\<rparr>) = (r, s)" by fastforce
  then have "r \<noteq> None" "b = drop (length (client_head head)) (outp s)" using assms(1) by (auto simp: h2_body_def split: if_splits)
  then show ?thesis using decoded_body_shape [OF s assms(2,3,4)] by auto
qed

end
