(* ===== verification/SysProxy.thy ===== *)
theory SysProxy
  imports RustNet
begin

text \<open>
  The system proxy and PAC settings (\<open>crates/core/src/sysproxy.rs\<close>). The state is the part of the registry
  the code touches: four values of \<open>Internet Settings\<close> and the \<open>DefaultConnectionSettings\<close> blob that
  browsers read. What the system permits (\<open>reg_access\<close>) is a parameter of every operation; the notification of
  running programs and the queries of WinHTTP are system calls. \<open>create_pac\<close> is in \<open>Domains\<close>.
\<close>

unbundle bit_operations_syntax

section \<open>Values\<close>

definition flag_direct :: u8 where "flag_direct = 0x01"
definition flag_manual_proxy :: u8 where "flag_manual_proxy = 0x02"
definition flag_auto_proxy_url :: u8 where "flag_auto_proxy_url = 0x04"
definition flag_auto_detect :: u8 where "flag_auto_detect = 0x08"

definition no_proxy_list :: string where
  "no_proxy_list = join '';'' [''10.*'', ''172.16.*'', ''172.17.*'', ''172.18.*'', ''172.19.*'', ''172.20.*'', ''172.21.*'',
     ''172.22.*'', ''172.23.*'', ''172.24.*'', ''172.25.*'', ''172.26.*'', ''172.27.*'', ''172.28.*'', ''172.29.*'', ''172.30.*'',
     ''172.31.*'', ''192.168.*'', ''api.steampp.net'', ''shop.api.steampp.net'']"

definition format_host_port :: "string \<Rightarrow> u16 \<Rightarrow> string" where
  "format_host_port host port =
     (let host = trim host in
      if CHR '':'' \<in> set host \<and> \<not> prefix ''['' host then ''['' @ host @ '']:'' @ show_u16 port
      else host @ '':'' @ show_u16 port)"

section \<open>The registry\<close>

record registry =
  proxy_enable :: "u32 option"
  proxy_server :: "string option"
  proxy_override :: "string option"
  auto_config_url :: "string option"
  connections :: "bytes option"

text \<open>Whether the two keys can be opened, and which values can be written.\<close>

record reg_access =
  settings_open :: bool
  connections_open :: bool
  writable :: "string \<Rightarrow> bool"

datatype reg_error = OpenFailed | WriteFailed string

type_synonym reg_result = "(reg_error + unit) \<times> registry"

text \<open>Rust's \<open>?\<close> between two operations on the registry.\<close>

fun try_then :: "reg_result \<Rightarrow> (registry \<Rightarrow> reg_result) \<Rightarrow> reg_result" where
  "try_then (Inl e, g) f = (Inl e, g)"
| "try_then (Inr u, g) f = f g"

definition set_value :: "reg_access \<Rightarrow> string \<Rightarrow> registry \<Rightarrow> registry \<Rightarrow> reg_result" where
  "set_value acc name g' g = (if writable acc name then (Inr (), g') else (Inl (WriteFailed name), g))"

definition nonempty :: "string option \<Rightarrow> string option" where
  "nonempty v = (case v of Some s \<Rightarrow> if s = [] then None else Some s | None \<Rightarrow> None)"

definition read_auto_config_url :: "reg_access \<Rightarrow> registry \<Rightarrow> string option" where
  "read_auto_config_url acc g = (if settings_open acc then nonempty (auto_config_url g) else None)"

definition read_proxy_server :: "reg_access \<Rightarrow> registry \<Rightarrow> string option" where
  "read_proxy_server acc g = (if settings_open acc then nonempty (proxy_server g) else None)"

definition enabled :: "registry \<Rightarrow> bool" where
  "enabled g = (case proxy_enable g of Some v \<Rightarrow> v \<noteq> 0 | None \<Rightarrow> False)"

definition is_system_proxy_enabled :: "reg_access \<Rightarrow> registry \<Rightarrow> bool" where
  "is_system_proxy_enabled acc g = (settings_open acc \<and> enabled g)"

section \<open>The connection blob\<close>

definition skeleton :: bytes where
  "skeleton = [0x46, 0, 0, 0, 0x03, 0, 0, 0, flag_direct] @ replicate 79 0"

text \<open>The blob an operation starts from; a missing or short one is replaced by the skeleton.\<close>

definition the_blob :: "registry \<Rightarrow> bytes" where
  "the_blob g = (case connections g of Some b \<Rightarrow> if 24 \<le> length b then b else skeleton | None \<Rightarrow> skeleton)"

definition read_connection_blob :: "reg_access \<Rightarrow> registry \<Rightarrow> bytes" where
  "read_connection_blob acc g = (if connections_open acc then the_blob g else skeleton)"

definition write_connection_blob :: "reg_access \<Rightarrow> bytes \<Rightarrow> registry \<Rightarrow> reg_result" where
  "write_connection_blob acc b g =
     (if \<not> connections_open acc then (Inl OpenFailed, g)
      else set_value acc ''DefaultConnectionSettings'' (g\<lparr>connections := Some b\<rparr>) g)"

definition next_counter :: "bytes \<Rightarrow> u32" where
  "next_counter b = from_le32 (b ! 4) (b ! 5) (b ! 6) (b ! 7) + 1"

definition conn_flags :: "bool \<Rightarrow> bool \<Rightarrow> u8" where
  "conn_flags manual auto =
     (flag_direct OR (if manual then flag_manual_proxy else 0) OR (if auto then flag_auto_proxy_url else 0))
       AND NOT flag_auto_detect"

definition flag_bytes :: "bool \<Rightarrow> bool \<Rightarrow> bytes" where
  "flag_bytes manual auto = to_le32 (ucast (conn_flags manual auto))"

definition with_flags :: "bool \<Rightarrow> bool \<Rightarrow> bytes \<Rightarrow> bytes" where
  "with_flags manual auto b = put_slice 8 (flag_bytes manual auto) (put_slice 4 (to_le32 (next_counter b)) b)"

definition set_blob_flags :: "reg_access \<Rightarrow> bool \<Rightarrow> bool \<Rightarrow> registry \<Rightarrow> reg_result" where
  "set_blob_flags acc manual auto g = write_connection_blob acc (with_flags manual auto (read_connection_blob acc g)) g"

definition field_bytes :: "string option \<Rightarrow> bytes" where
  "field_bytes v = (case nonempty v of
     Some s \<Rightarrow> to_le32 (word_of_nat (length s)) @ bytes_of s
   | None \<Rightarrow> to_le32 0)"

definition blob_with :: "string option \<Rightarrow> string option \<Rightarrow> bytes \<Rightarrow> bytes" where
  "blob_with endpoint auto_url old =
     take 4 old @ to_le32 (if 8 \<le> length old then next_counter old else 1) @
     flag_bytes (endpoint \<noteq> None) (auto_url \<noteq> None) @
     concat (map field_bytes [endpoint, Some no_proxy_list, auto_url])"

definition update_blob :: "reg_access \<Rightarrow> string option \<Rightarrow> string option \<Rightarrow> registry \<Rightarrow> reg_result" where
  "update_blob acc endpoint auto_url g = write_connection_blob acc (blob_with endpoint auto_url (read_connection_blob acc g)) g"

section \<open>Operations\<close>

definition set_system_proxy :: "reg_access \<Rightarrow> bool \<Rightarrow> string \<Rightarrow> u16 \<Rightarrow> registry \<Rightarrow> reg_result" where
  "set_system_proxy acc enable ip port g =
     (let endpoint = format_host_port ip port in
      if \<not> settings_open acc then (Inl OpenFailed, g)
      else try_then
        (if enable
         then try_then (set_value acc ''ProxyEnable'' (g\<lparr>proxy_enable := Some 1\<rparr>) g) (\<lambda>g.
              try_then (set_value acc ''ProxyServer'' (g\<lparr>proxy_server := Some endpoint\<rparr>) g) (\<lambda>g.
                set_value acc ''ProxyOverride'' (g\<lparr>proxy_override := Some no_proxy_list\<rparr>) g))
         else set_value acc ''ProxyEnable'' (g\<lparr>proxy_enable := Some 0\<rparr>) g)
        (\<lambda>g. let auto = read_auto_config_url acc g in
           if enable then update_blob acc (Some endpoint) auto g else set_blob_flags acc False (auto \<noteq> None) g))"

definition set_pac_proxy :: "reg_access \<Rightarrow> bool \<Rightarrow> string \<Rightarrow> registry \<Rightarrow> reg_result" where
  "set_pac_proxy acc enable url g =
     (let manual_enabled = enabled g; on = (enable \<and> url \<noteq> []) in
      if \<not> settings_open acc then (Inl OpenFailed, g)
      else try_then (set_value acc ''AutoConfigURL'' (g\<lparr>auto_config_url := Some (if on then url else [])\<rparr>) g)
        (\<lambda>g. if on
           then update_blob acc (if manual_enabled then read_proxy_server acc g else None) (Some url) g
           else set_blob_flags acc manual_enabled False g))"

section \<open>What a browser reads\<close>

text \<open>The layout of the blob, as WinINET documents it: version, counter and flags of four bytes each,
  then three strings with their length in front. This reader is the specification of the writers above.\<close>

record conn =
  c_version :: bytes
  c_counter :: u32
  c_flags :: u32
  c_server :: string
  c_bypass :: string
  c_pac :: string

definition read_le32 :: "bytes \<Rightarrow> u32" where
  "read_le32 b = from_le32 (b ! 0) (b ! 1) (b ! 2) (b ! 3)"

definition read_field :: "bytes \<Rightarrow> (string \<times> bytes) option" where
  "read_field b = (if length b < 4 then None
     else let n = unat (read_le32 b); rest = drop 4 b in
       if length rest < n then None else Some (str_of (take n rest), drop n rest))"

definition decode_conn :: "bytes \<Rightarrow> conn option" where
  "decode_conn b = (if length b < 12 then None else
     case read_field (drop 12 b) of None \<Rightarrow> None | Some (server, b1) \<Rightarrow>
     (case read_field b1 of None \<Rightarrow> None | Some (bypass, b2) \<Rightarrow>
     (case read_field b2 of None \<Rightarrow> None | Some (pac, _) \<Rightarrow>
       Some \<lparr>c_version = take 4 b, c_counter = read_le32 (drop 4 b), c_flags = read_le32 (drop 8 b),
         c_server = server, c_bypass = bypass, c_pac = pac\<rparr>)))"

definition uses_manual :: "conn \<Rightarrow> bool" where "uses_manual c = bit (c_flags c) 1"
definition uses_pac :: "conn \<Rightarrow> bool" where "uses_pac c = bit (c_flags c) 2"
definition auto_detects :: "conn \<Rightarrow> bool" where "auto_detects c = bit (c_flags c) 3"

text \<open>What is in effect: the manual proxy, if it is used, and the PAC address, if it is used.\<close>

definition effective :: "conn \<Rightarrow> string option \<times> string option" where
  "effective c = (if uses_manual c then nonempty (Some (c_server c)) else None,
                  if uses_pac c then nonempty (Some (c_pac c)) else None)"

section \<open>Facts on the blob\<close>

lemma read_le32_to_le32 [simp]: "read_le32 (to_le32 w @ rest) = w"
proof -
  have "to_le32 w = [word_of_nat (unat w mod 256), word_of_nat (unat w div 256 mod 256),
    word_of_nat (unat w div 65536 mod 256), word_of_nat (unat w div 16777216)]"
    by (simp add: to_le32_def to_be32_def)
  then show ?thesis by (simp add: read_le32_def from_le32_def from_be32_to_be32)
qed

lemma field_bytes_alt: "field_bytes v = to_le32 (word_of_nat (length (case v of Some s \<Rightarrow> s | None \<Rightarrow> []))) @
    bytes_of (case v of Some s \<Rightarrow> s | None \<Rightarrow> [])"
  by (auto simp: field_bytes_def nonempty_def split: option.splits)

lemma read_field_bytes:
  "length (case v of Some s \<Rightarrow> s | None \<Rightarrow> []) < 4294967296 \<Longrightarrow>
     read_field (field_bytes v @ rest) = Some (case v of Some s \<Rightarrow> s | None \<Rightarrow> [], rest)"
  unfolding read_field_def field_bytes_alt append_assoc by (simp add: Let_def)

lemma length_field_bytes: "4 \<le> length (field_bytes v)"
  by (simp add: field_bytes_alt)

lemma length_flag_bytes [simp]: "length (flag_bytes m a) = 4"
  by (simp add: flag_bytes_def)

lemma length_skeleton: "length skeleton = 88"
  by (simp add: skeleton_def)

lemma the_blob_length: "24 \<le> length (the_blob g)"
  by (simp add: the_blob_def length_skeleton split: option.split)

lemma no_proxy_list_length: "length no_proxy_list = 195"
  by code_simp

lemma conn_flags_values:
  "conn_flags False False = 1" "conn_flags True False = 3" "conn_flags False True = 5" "conn_flags True True = 7"
  by (simp_all add: conn_flags_def flag_direct_def flag_manual_proxy_def flag_auto_proxy_url_def flag_auto_detect_def)

lemma conn_flags_code [code]: "conn_flags m a = (if m then if a then 7 else 3 else if a then 5 else 1)"
  by (simp add: conn_flags_values)

lemma flag_bits:
  "bit (ucast (conn_flags m a) :: u32) 1 = m" "bit (ucast (conn_flags m a) :: u32) 2 = a"
  "\<not> bit (ucast (conn_flags m a) :: u32) 3" "bit (ucast (conn_flags m a) :: u32) 0"
  by (cases m; cases a; simp add: conn_flags_values bit_simps; fail)+

abbreviation text_of :: "string option \<Rightarrow> string" where
  "text_of v \<equiv> (case v of Some s \<Rightarrow> s | None \<Rightarrow> [])"

definition short :: "string option \<Rightarrow> bool" where
  "short v = (length (text_of v) < 4294967296)"

lemma decode_blob_with:
  assumes "24 \<le> length old" "short endpoint" "short auto_url"
  shows "decode_conn (blob_with endpoint auto_url old) = Some \<lparr>c_version = take 4 old, c_counter = next_counter old,
    c_flags = ucast (conn_flags (endpoint \<noteq> None) (auto_url \<noteq> None)), c_server = text_of endpoint,
    c_bypass = no_proxy_list, c_pac = text_of auto_url\<rparr>"
proof -
  let ?F = "flag_bytes (endpoint \<noteq> None) (auto_url \<noteq> None)"
  let ?fs = "field_bytes endpoint @ field_bytes (Some no_proxy_list) @ field_bytes auto_url"
  have b: "blob_with endpoint auto_url old = take 4 old @ to_le32 (next_counter old) @ ?F @ ?fs"
    using assms(1) by (simp add: blob_with_def)
  have l: "length (take 4 old) = 4" using assms(1) by simp
  have d: "drop 12 (take 4 old @ to_le32 (next_counter old) @ ?F @ ?fs) = ?fs"
    "drop 4 (take 4 old @ to_le32 (next_counter old) @ ?F @ ?fs) = to_le32 (next_counter old) @ ?F @ ?fs"
    "drop 8 (take 4 old @ to_le32 (next_counter old) @ ?F @ ?fs) = ?F @ ?fs"
    using l by simp_all
  have r: "read_field ?fs = Some (text_of endpoint, field_bytes (Some no_proxy_list) @ field_bytes auto_url)"
    "read_field (field_bytes (Some no_proxy_list) @ field_bytes auto_url) = Some (no_proxy_list, field_bytes auto_url)"
    "read_field (field_bytes auto_url) = Some (text_of auto_url, [])"
    using assms(2,3) read_field_bytes [of endpoint] read_field_bytes [of "Some no_proxy_list" "field_bytes auto_url"]
      read_field_bytes [of auto_url "[]"] by (simp_all add: short_def no_proxy_list_length)
  show ?thesis unfolding b decode_conn_def d r option.case prod.case using l by (simp add: flag_bytes_def)
qed

lemma with_flags_alt:
  "12 \<le> length b \<Longrightarrow> with_flags m a b = take 4 b @ to_le32 (next_counter b) @ flag_bytes m a @ drop 12 b"
  by (simp add: with_flags_def put_slice_def)

lemma length_with_flags [simp]: "12 \<le> length b \<Longrightarrow> length (with_flags m a b) = length b"
  by (simp add: with_flags_def)

lemma decode_with_flags:
  assumes "12 \<le> length b"
  shows "decode_conn (with_flags m a b) =
    map_option (\<lambda>c. c\<lparr>c_counter := next_counter b, c_flags := ucast (conn_flags m a)\<rparr>) (decode_conn b)"
proof -
  have d: "drop 12 (with_flags m a b) = drop 12 b" "drop 4 (with_flags m a b) = to_le32 (next_counter b) @ flag_bytes m a @ drop 12 b"
    "drop 8 (with_flags m a b) = flag_bytes m a @ drop 12 b" "take 4 (with_flags m a b) = take 4 b"
    "\<not> length (with_flags m a b) < 12"
    using assms by (simp_all add: with_flags_alt)
  show ?thesis unfolding decode_conn_def d using assms by (simp add: flag_bytes_def split: option.split prod.split)
qed

lemma length_blob_with:
  assumes "24 \<le> length old"
  shows "24 \<le> length (blob_with endpoint auto_url old)"
  using assms length_field_bytes [of endpoint] length_field_bytes [of "Some no_proxy_list"] length_field_bytes [of auto_url]
  by (simp add: blob_with_def)

section \<open>Registry and blob in agreement\<close>

text \<open>The values of the settings key and the blob say the same. Windows keeps them so, and so does every operation.\<close>

definition in_sync :: "registry \<Rightarrow> bool" where
  "in_sync g \<longleftrightarrow> (\<exists>c. decode_conn (the_blob g) = Some c \<and> uses_manual c = enabled g \<and>
     (enabled g \<longrightarrow> proxy_server g = Some (c_server c) \<and> c_server c \<noteq> []) \<and>
     uses_pac c = (nonempty (auto_config_url g) \<noteq> None) \<and>
     (uses_pac c \<longrightarrow> nonempty (auto_config_url g) = Some (c_pac c)))"

definition browser_view :: "registry \<Rightarrow> (string option \<times> string option) option" where
  "browser_view g = map_option effective (decode_conn (the_blob g))"

text \<open>What the settings key asks for.\<close>

definition registry_view :: "registry \<Rightarrow> string option \<times> string option" where
  "registry_view g = (if enabled g then nonempty (proxy_server g) else None, nonempty (auto_config_url g))"

lemma nonempty_simps [simp]: "nonempty None = None" "nonempty (Some []) = None" "s \<noteq> [] \<Longrightarrow> nonempty (Some s) = Some s"
  by (simp_all add: nonempty_def)

lemma nonempty_Some_iff: "nonempty v = Some s \<longleftrightarrow> v = Some s \<and> s \<noteq> []"
  by (auto simp: nonempty_def split: option.splits)

lemma in_sync_view: "in_sync g \<Longrightarrow> browser_view g = Some (registry_view g)"
proof -
  assume "in_sync g"
  then obtain c where c: "decode_conn (the_blob g) = Some c" "uses_manual c = enabled g"
    "enabled g \<Longrightarrow> proxy_server g = Some (c_server c)" "uses_pac c = (nonempty (auto_config_url g) \<noteq> None)"
    "uses_pac c \<Longrightarrow> nonempty (auto_config_url g) = Some (c_pac c)"
    unfolding in_sync_def by blast
  have "(if uses_pac c then nonempty (Some (c_pac c)) else None) = nonempty (auto_config_url g)"
    using c(4,5) nonempty_Some_iff [of "auto_config_url g" "c_pac c"] by (cases "uses_pac c") simp_all
  then show ?thesis using c(1-3) by (simp add: browser_view_def registry_view_def effective_def)
qed

lemma the_blob_stored: "24 \<le> length b \<Longrightarrow> the_blob (g\<lparr>connections := Some b\<rparr>) = b"
  by (simp add: the_blob_def)

lemma uses_flags [simp]:
  "uses_manual (c\<lparr>c_flags := ucast (conn_flags m a)\<rparr>) = m" "uses_pac (c\<lparr>c_flags := ucast (conn_flags m a)\<rparr>) = a"
  "\<not> auto_detects (c\<lparr>c_flags := ucast (conn_flags m a)\<rparr>)"
  by (simp_all add: uses_manual_def uses_pac_def auto_detects_def flag_bits del: One_nat_def)

section \<open>What the operations leave behind\<close>

lemma the_blob_other [simp]:
  "the_blob (g\<lparr>proxy_enable := a\<rparr>) = the_blob g" "the_blob (g\<lparr>proxy_server := s\<rparr>) = the_blob g"
  "the_blob (g\<lparr>proxy_override := s\<rparr>) = the_blob g" "the_blob (g\<lparr>auto_config_url := s\<rparr>) = the_blob g"
  by (simp_all add: the_blob_def)

lemmas reg_op_defs = set_system_proxy_def set_pac_proxy_def update_blob_def set_blob_flags_def write_connection_blob_def
  read_connection_blob_def set_value_def read_auto_config_url_def read_proxy_server_def Let_def

lemma set_system_proxy_on:
  "set_system_proxy acc True ip port g = (Inr u, g') \<Longrightarrow> g' = g\<lparr>proxy_enable := Some 1,
     proxy_server := Some (format_host_port ip port), proxy_override := Some no_proxy_list, connections := Some
       (blob_with (Some (format_host_port ip port)) (nonempty (auto_config_url g)) (the_blob g))\<rparr>"
  by (auto simp: reg_op_defs split: if_splits)

lemma set_system_proxy_off:
  "set_system_proxy acc False ip port g = (Inr u, g') \<Longrightarrow> g' = g\<lparr>proxy_enable := Some 0, connections := Some
     (with_flags False (nonempty (auto_config_url g) \<noteq> None) (the_blob g))\<rparr>"
  by (auto simp: reg_op_defs split: if_splits)

lemma set_pac_proxy_on:
  "set_pac_proxy acc True url g = (Inr u, g') \<Longrightarrow> url \<noteq> [] \<Longrightarrow> g' = g\<lparr>auto_config_url := Some url, connections := Some
     (blob_with (if enabled g then nonempty (proxy_server g) else None) (Some url) (the_blob g))\<rparr>"
  by (auto simp: reg_op_defs split: if_splits)

lemma set_pac_proxy_off:
  "set_pac_proxy acc enable url g = (Inr u, g') \<Longrightarrow> \<not> enable \<or> url = [] \<Longrightarrow> g' = g\<lparr>auto_config_url := Some [],
     connections := Some (with_flags (enabled g) False (the_blob g))\<rparr>"
  by (auto simp: reg_op_defs split: if_splits)

lemma format_host_port_nonempty [simp]: "format_host_port ip port \<noteq> []"
  by (simp add: format_host_port_def Let_def)

text \<open>The four ways the program switches the proxy, with the access the registry grants at the time.\<close>

datatype switch = SystemOn string u16 | SystemOff | PacOn string | PacOff

fun run_switch :: "reg_access \<Rightarrow> switch \<Rightarrow> registry \<Rightarrow> reg_result" where
  "run_switch acc (SystemOn ip port) g = set_system_proxy acc True ip port g"
| "run_switch acc SystemOff g = set_system_proxy acc False [] 0 g"
| "run_switch acc (PacOn url) g = set_pac_proxy acc True url g"
| "run_switch acc PacOff g = set_pac_proxy acc False [] g"

fun run_switches :: "(reg_access \<times> switch) list \<Rightarrow> registry \<Rightarrow> reg_result" where
  "run_switches [] g = (Inr (), g)"
| "run_switches ((acc, sw) # sws) g = try_then (run_switch acc sw g) (run_switches sws)"

text \<open>The intended effect on the pair of the manual proxy and the PAC address in use.\<close>

fun spec_switch :: "switch \<Rightarrow> string option \<times> string option \<Rightarrow> string option \<times> string option" where
  "spec_switch (SystemOn ip port) (m, p) = (Some (format_host_port ip port), p)"
| "spec_switch SystemOff (m, p) = (None, p)"
| "spec_switch (PacOn url) (m, p) = (m, nonempty (Some url))"
| "spec_switch PacOff (m, p) = (m, None)"

fun switch_short :: "switch \<Rightarrow> bool" where
  "switch_short (SystemOn ip port) = short (Some (format_host_port ip port))"
| "switch_short (PacOn url) = short (Some url)"
| "switch_short _ = True"

definition reg_ok :: "registry \<Rightarrow> bool" where
  "reg_ok g \<longleftrightarrow> in_sync g \<and> short (proxy_server g) \<and> short (auto_config_url g)"

lemma short_nonempty [simp]: "short (nonempty v) = short v" "short None"
  by (auto simp: short_def nonempty_def split: option.split)

lemma text_of_nonempty [simp]: "text_of (nonempty v) = text_of v"
  by (auto simp: nonempty_def split: option.split)

lemma in_syncI:
  assumes "decode_conn (the_blob g) = Some c" "uses_manual c = enabled g"
    "enabled g \<Longrightarrow> proxy_server g = Some (c_server c) \<and> c_server c \<noteq> []"
    "uses_pac c = (nonempty (auto_config_url g) \<noteq> None)" "uses_pac c \<Longrightarrow> nonempty (auto_config_url g) = Some (c_pac c)"
  shows "in_sync g"
  using assms unfolding in_sync_def by blast

lemma uses_record [simp]:
  "uses_manual \<lparr>c_version = v, c_counter = n, c_flags = ucast (conn_flags m a), c_server = s, c_bypass = b, c_pac = p\<rparr> = m"
  "uses_pac \<lparr>c_version = v, c_counter = n, c_flags = ucast (conn_flags m a), c_server = s, c_bypass = b, c_pac = p\<rparr> = a"
  "\<not> auto_detects \<lparr>c_version = v, c_counter = n, c_flags = ucast (conn_flags m a), c_server = s, c_bypass = b, c_pac = p\<rparr>"
  by (simp_all add: uses_manual_def uses_pac_def auto_detects_def flag_bits del: One_nat_def)

text \<open>One step for a switch that rewrites the blob, and one for a switch that only sets its flags.\<close>

lemma rewritten_in_sync:
  assumes "connections g' = Some (blob_with e (nonempty (auto_config_url g')) old)" "24 \<le> length old"
    and "short e" "short (auto_config_url g')" "enabled g' = (e \<noteq> None)" "e \<noteq> None \<Longrightarrow> proxy_server g' = e \<and> e \<noteq> Some []"
  shows "in_sync g'"
proof -
  have b: "the_blob g' = blob_with e (nonempty (auto_config_url g')) old"
    using assms(1,2) by (simp add: the_blob_def length_blob_with)
  have d: "decode_conn (the_blob g') = Some \<lparr>c_version = take 4 old, c_counter = next_counter old,
      c_flags = ucast (conn_flags (e \<noteq> None) (nonempty (auto_config_url g') \<noteq> None)), c_server = text_of e,
      c_bypass = no_proxy_list, c_pac = text_of (auto_config_url g')\<rparr>"
    unfolding b using decode_blob_with [of old e "nonempty (auto_config_url g')"] assms(2-4) by simp
  have p: "nonempty (auto_config_url g') \<noteq> None \<Longrightarrow> nonempty (auto_config_url g') = Some (text_of (auto_config_url g'))"
    by (auto simp: nonempty_def split: option.splits if_splits)
  show ?thesis by (rule in_syncI [OF d]) (use assms(5,6) p in auto)
qed

lemma flagged_in_sync:
  assumes "in_sync g" "connections g' = Some (with_flags (enabled g') (nonempty (auto_config_url g') \<noteq> None) (the_blob g))"
    and "enabled g' \<Longrightarrow> enabled g \<and> proxy_server g' = proxy_server g"
    and "nonempty (auto_config_url g') \<noteq> None \<Longrightarrow> auto_config_url g' = auto_config_url g"
  shows "in_sync g'"
proof -
  obtain c where c: "decode_conn (the_blob g) = Some c" "enabled g \<longrightarrow> proxy_server g = Some (c_server c) \<and> c_server c \<noteq> []"
    "uses_pac c = (nonempty (auto_config_url g) \<noteq> None)" "uses_pac c \<longrightarrow> nonempty (auto_config_url g) = Some (c_pac c)"
    using assms(1) unfolding in_sync_def by blast
  have b: "the_blob g' = with_flags (enabled g') (nonempty (auto_config_url g') \<noteq> None) (the_blob g)"
    using assms(2) the_blob_length [of g] by (simp add: the_blob_def)
  have d: "decode_conn (the_blob g') = Some (c\<lparr>c_counter := next_counter (the_blob g),
      c_flags := ucast (conn_flags (enabled g') (nonempty (auto_config_url g') \<noteq> None))\<rparr>)"
    unfolding b using decode_with_flags [of "the_blob g"] the_blob_length [of g] c(1) by simp
  show ?thesis
    by (rule in_syncI [OF d]) (use assms(3,4) c(2-4) in auto)
qed

lemma run_switch_step:
  assumes "run_switch acc sw g = (Inr u, g')" "reg_ok g" "switch_short sw"
  shows "reg_ok g' \<and> registry_view g' = spec_switch sw (registry_view g)"
proof (cases sw)
  case (SystemOn ip port)
  then have g': "g' = g\<lparr>proxy_enable := Some 1, proxy_server := Some (format_host_port ip port), proxy_override := Some no_proxy_list,
      connections := Some (blob_with (Some (format_host_port ip port)) (nonempty (auto_config_url g)) (the_blob g))\<rparr>"
    using assms(1) set_system_proxy_on by simp
  have "in_sync g'"
    by (rule rewritten_in_sync [where e = "Some (format_host_port ip port)" and old = "the_blob g"])
      (use assms(2,3) SystemOn the_blob_length in \<open>simp_all add: g' reg_ok_def enabled_def\<close>)
  then show ?thesis using SystemOn assms(2,3) by (simp add: reg_ok_def registry_view_def g' enabled_def)
next
  case SystemOff
  then have g': "g' = g\<lparr>proxy_enable := Some 0, connections := Some
      (with_flags False (nonempty (auto_config_url g) \<noteq> None) (the_blob g))\<rparr>"
    using assms(1) set_system_proxy_off by simp
  have "in_sync g'"
    by (rule flagged_in_sync [of g]) (use assms(2) in \<open>simp_all add: g' reg_ok_def enabled_def\<close>)
  then show ?thesis using SystemOff assms(2) by (simp add: reg_ok_def registry_view_def g' enabled_def)
next
  case (PacOn url)
  show ?thesis
  proof (cases "url = []")
    case True
    then have g': "g' = g\<lparr>auto_config_url := Some [], connections := Some (with_flags (enabled g) False (the_blob g))\<rparr>"
      using assms(1) PacOn set_pac_proxy_off [of acc True url] by simp
    have "in_sync g'"
      by (rule flagged_in_sync [of g]) (use assms(2) in \<open>simp_all add: g' reg_ok_def enabled_def\<close>)
    then show ?thesis using PacOn True assms(2) by (simp add: reg_ok_def registry_view_def g' enabled_def short_def)
  next
    case False
    let ?e = "if enabled g then nonempty (proxy_server g) else None"
    have g': "g' = g\<lparr>auto_config_url := Some url, connections := Some (blob_with ?e (Some url) (the_blob g))\<rparr>"
      using assms(1) PacOn False set_pac_proxy_on by simp
    have server: "enabled g \<Longrightarrow> nonempty (proxy_server g) = proxy_server g \<and> proxy_server g \<noteq> None \<and> proxy_server g \<noteq> Some []"
      using assms(2) by (auto simp: reg_ok_def in_sync_def)
    have "in_sync g'"
      by (rule rewritten_in_sync [where e = ?e and old = "the_blob g"])
        (use assms(2,3) PacOn False the_blob_length server in \<open>auto simp: g' reg_ok_def enabled_def\<close>)
    then show ?thesis using PacOn False assms(2,3) by (simp add: reg_ok_def registry_view_def g' enabled_def)
  qed
next
  case PacOff
  then have g': "g' = g\<lparr>auto_config_url := Some [], connections := Some (with_flags (enabled g) False (the_blob g))\<rparr>"
    using assms(1) set_pac_proxy_off [of acc False "[]"] by simp
  have "in_sync g'"
    by (rule flagged_in_sync [of g]) (use assms(2) in \<open>simp_all add: g' reg_ok_def enabled_def\<close>)
  then show ?thesis using PacOff assms(2) by (simp add: reg_ok_def registry_view_def g' enabled_def short_def)
qed

lemma run_switches_steps:
  "run_switches sws g = (Inr u, g') \<Longrightarrow> reg_ok g \<Longrightarrow> list_all (\<lambda>(_, sw). switch_short sw) sws \<Longrightarrow>
     reg_ok g' \<and> registry_view g' = fold (\<lambda>(_, sw). spec_switch sw) sws (registry_view g)"
proof (induction sws g rule: run_switches.induct)
  case (2 acc sw sws g)
  obtain r g1 where r: "run_switch acc sw g = (r, g1)" by fastforce
  then obtain v where v: "r = Inr v" using "2.prems"(1) by (cases r) simp_all
  have "reg_ok g1 \<and> registry_view g1 = spec_switch sw (registry_view g)"
    using run_switch_step [OF r [unfolded v]] "2.prems"(2,3) by simp
  then show ?case using "2.IH" [of g1] "2.prems" r v by simp
qed simp

lemma run_switch_error: "run_switch acc sw g = (Inl e, g') \<Longrightarrow> connections g' = connections g"
  by (cases sw) (auto simp: reg_op_defs split: if_splits)

text \<open>What every successful switch tells the browsers: the counter moved by one (so that they notice), direct
  connections stay allowed and WPAD is off.\<close>

definition announced :: "conn \<Rightarrow> conn \<Rightarrow> bool" where
  "announced c c' \<longleftrightarrow> c_version c' = c_version c \<and> c_counter c' = c_counter c + 1 \<and> \<not> auto_detects c' \<and> bit (c_flags c') 0"

definition same_texts :: "conn \<Rightarrow> conn \<Rightarrow> bool" where
  "same_texts c c' \<longleftrightarrow> c_server c' = c_server c \<and> c_bypass c' = c_bypass c \<and> c_pac c' = c_pac c"

lemma decode_conn_header:
  "decode_conn b = Some c \<Longrightarrow> c_version c = take 4 b \<and> c_counter c + 1 = next_counter b"
  by (auto simp: decode_conn_def next_counter_def read_le32_def nth_drop add.commute
      split: if_splits option.splits prod.splits)

lemma blob_with_announced:
  "24 \<le> length b \<Longrightarrow> short e \<Longrightarrow> short p \<Longrightarrow> decode_conn b = Some c \<Longrightarrow>
     \<exists>c'. decode_conn (blob_with e p b) = Some c' \<and> announced c c'"
  using decode_conn_header [of b c] by (simp add: decode_blob_with announced_def flag_bits)

lemma with_flags_announced:
  "12 \<le> length b \<Longrightarrow> decode_conn b = Some c \<Longrightarrow>
     \<exists>c'. decode_conn (with_flags m a b) = Some c' \<and> announced c c' \<and> same_texts c c'"
  using decode_conn_header [of b c] by (auto simp: decode_with_flags announced_def same_texts_def flag_bits)

section \<open>Properties\<close>

text \<open>C5. The registry and the blob that browsers read stay in agreement: after any sequence of switches that
  succeed, under whatever access, a browser finds exactly the manual proxy and the PAC address that the
  sequence asked for, starting from those in effect before.\<close>

theorem switches_refine:
  assumes "run_switches sws g = (Inr u, g')" "reg_ok g" "list_all (\<lambda>(_, sw). switch_short sw) sws"
  shows "reg_ok g' \<and> browser_view g' = Some (fold (\<lambda>(_, sw). spec_switch sw) sws (registry_view g))"
  using run_switches_steps [OF assms] in_sync_view [of g'] by (auto simp: reg_ok_def)

text \<open>C33. A switch that fails changes nothing for a browser: the blob is written last, so whatever write is
  refused, the connection in effect is the one before.\<close>

theorem failed_switch_unseen:
  assumes "run_switch acc sw g = (Inl e, g')"
  shows "browser_view g' = browser_view g"
  using run_switch_error [OF assms] by (simp add: browser_view_def the_blob_def)

text \<open>Every successful switch is announced to the browsers: the counter of the blob moves by one, direct connections
  stay allowed and WPAD is switched off; switching off the system proxy or the PAC keeps every text that is stored.\<close>

theorem switch_announced:
  assumes "run_switch acc sw g = (Inr u, g')" "reg_ok g" "switch_short sw" "decode_conn (the_blob g) = Some c"
  shows "\<exists>c'. decode_conn (the_blob g') = Some c' \<and> announced c c' \<and> (sw \<in> {SystemOff, PacOff} \<longrightarrow> same_texts c c')"
proof -
  let ?b = "the_blob g"
  have l: "24 \<le> length ?b" "12 \<le> length ?b" using the_blob_length [of g] by simp_all
  note w = with_flags_announced [OF l(2) assms(4)] and r = blob_with_announced [OF l(1) _ _ assms(4)]
  have s: "short (nonempty (auto_config_url g))" "short (if enabled g then nonempty (proxy_server g) else None)"
    using assms(2) by (simp_all add: reg_ok_def)
  show ?thesis
  proof (cases sw)
    case (SystemOn ip port)
    then have "the_blob g' = blob_with (Some (format_host_port ip port)) (nonempty (auto_config_url g)) ?b"
      using set_system_proxy_on [of acc ip port g u g'] assms(1) l(1) by (simp add: the_blob_stored length_blob_with)
    then show ?thesis using r [OF _ s(1), of "Some (format_host_port ip port)"] assms(3) SystemOn by auto
  next
    case SystemOff
    then have "the_blob g' = with_flags False (nonempty (auto_config_url g) \<noteq> None) ?b"
      using set_system_proxy_off [of acc "[]" 0 g u g'] assms(1) l by (simp add: the_blob_stored)
    then show ?thesis using w by metis
  next
    case (PacOn url)
    show ?thesis
    proof (cases "url = []")
      case True
      then have "the_blob g' = with_flags (enabled g) False ?b"
        using set_pac_proxy_off [of acc True url g u g'] assms(1) l PacOn by (simp add: the_blob_stored)
      then show ?thesis using w by metis
    next
      case False
      then have "the_blob g' = blob_with (if enabled g then nonempty (proxy_server g) else None) (Some url) ?b"
        using set_pac_proxy_on [of acc url g u g'] assms(1) l PacOn by (simp add: the_blob_stored length_blob_with)
      then show ?thesis using r [OF s(2), of "Some url"] assms(3) PacOn by auto
    qed
  next
    case PacOff
    then have "the_blob g' = with_flags (enabled g) False ?b"
      using set_pac_proxy_off [of acc False "[]" g u g'] assms(1) l by (simp add: the_blob_stored)
    then show ?thesis using w by metis
  qed
qed

section \<open>Examples\<close>

text \<open>A machine with no proxy, and a system that refuses one value.\<close>

definition fresh :: registry where
  "fresh = \<lparr>proxy_enable = Some 0, proxy_server = None, proxy_override = None, auto_config_url = None, connections = None\<rparr>"

definition full_access :: reg_access where
  "full_access = \<lparr>settings_open = True, connections_open = True, writable = (\<lambda>_. True)\<rparr>"

definition refusing :: "string \<Rightarrow> reg_access" where
  "refusing v = full_access\<lparr>writable := (\<lambda>n. n \<noteq> v)\<rparr>"

definition sample_switches :: "(reg_access \<times> switch) list" where
  "sample_switches = [(full_access, PacOn ''http://127.0.0.1:26561/pac''), (full_access, SystemOn ''::1'' 8080), (full_access, PacOff)]"

lemma fresh_ok: "reg_ok fresh"
proof -
  have d: "decode_conn (the_blob fresh) = Some \<lparr>c_version = [70, 0, 0, 0], c_counter = 3, c_flags = 1, c_server = [], c_bypass = [], c_pac = []\<rparr>"
    by code_simp
  have "in_sync fresh"
    by (rule in_syncI [OF d]) (simp_all add: uses_manual_def uses_pac_def fresh_def enabled_def)
  then show ?thesis by (simp add: reg_ok_def fresh_def short_def)
qed

lemma switches_refine_witness:
  "browser_view (snd (run_switches sample_switches fresh)) = Some (Some ''[::1]:8080'', None)"
proof -
  have "fst (run_switches sample_switches fresh) = Inr ()" by (simp add: sample_switches_def reg_op_defs full_access_def fresh_def)
  then have "run_switches sample_switches fresh = (Inr (), snd (run_switches sample_switches fresh))" by (metis prod.collapse)
  moreover have "list_all (\<lambda>(_, sw). switch_short sw) sample_switches" by code_simp
  moreover have "fold (\<lambda>(_, sw). spec_switch sw) sample_switches (registry_view fresh) = (Some ''[::1]:8080'', None)"
    by code_simp
  ultimately show ?thesis using switches_refine [of sample_switches fresh] fresh_ok by metis
qed

lemma failed_switch_unseen_witness:
  "browser_view (snd (run_switch (refusing ''ProxyServer'') (SystemOn ''127.0.0.1'' 26561) fresh)) = browser_view fresh"
proof -
  let ?r = "run_switch (refusing ''ProxyServer'') (SystemOn ''127.0.0.1'' 26561) fresh"
  have "fst ?r = Inl (WriteFailed ''ProxyServer'')" by (simp add: reg_op_defs full_access_def refusing_def)
  then have "?r = (Inl (WriteFailed ''ProxyServer''), snd ?r)" by (metis prod.collapse)
  from failed_switch_unseen [OF this] show ?thesis .
qed

text \<open>The settings key is not rolled back: the failed switch leaves \<open>ProxyEnable\<close> set.\<close>

lemma failed_switch_leaves_enable:
  "proxy_enable (snd (run_switch (refusing ''ProxyServer'') (SystemOn ''127.0.0.1'' 26561) fresh)) = Some 1"
  by (simp add: reg_op_defs full_access_def refusing_def)

text \<open>A manual proxy of the user does not survive a start and a stop in System mode: it is off, and its address is gone.\<close>

lemma user_proxy_overwritten:
  "let g = snd (run_switches [(full_access, SystemOn ''127.0.0.1'' 26561), (full_access, SystemOff)]
       (g0\<lparr>proxy_enable := Some 1, proxy_server := Some ''10.0.0.1:3128''\<rparr>))
   in proxy_enable g = Some 0 \<and> proxy_server g = Some (format_host_port ''127.0.0.1'' 26561)"
  by (simp add: reg_op_defs full_access_def)

lemma switch_announced_witness:
  "\<exists>c'. decode_conn (the_blob (snd (run_switch full_access SystemOff fresh))) = Some c' \<and> c_counter c' = 4 \<and> \<not> auto_detects c'"
proof -
  have "fst (run_switch full_access SystemOff fresh) = Inr ()" by (simp add: reg_op_defs full_access_def)
  then have r: "run_switch full_access SystemOff fresh = (Inr (), snd (run_switch full_access SystemOff fresh))"
    by (metis prod.collapse)
  have d: "decode_conn (the_blob fresh) = Some \<lparr>c_version = [70, 0, 0, 0], c_counter = 3, c_flags = 1, c_server = [], c_bypass = [], c_pac = []\<rparr>"
    by code_simp
  from switch_announced [OF r fresh_ok _ d] show ?thesis by (auto simp: announced_def)
qed

end
