(* ===== verification/Cert.thy ===== *)
theory Cert
  imports Prelude
begin

text \<open>
  The certificate manager (\<open>crates/core/src/cert.rs\<close>): the root certificate in memory and on disk, the cached
  verdict of the trust store, and the cache of leaf certificates. Key generation, X.509 encoding and parsing,
  the clock, the disk and the certificate stores of Windows are parameters (\<open>cert_env\<close>); the install and
  remove commands run other programs.
\<close>

section \<open>State\<close>

record root_cert =
  rc_der :: bytes
  rc_key :: bytes
  rc_not_after :: nat

text \<open>\<open>root_mem\<close> is the certificate in memory, \<open>verdict\<close> the cached answer of \<open>is_installed\<close>, the rest the two files.\<close>

record cert_state =
  root_mem :: "root_cert option"
  verdict :: "bool option"
  cer_file :: "bytes option"
  key_file :: "bytes option"

text \<open>A write fails with the content it leaves; \<open>x509\<close> reads the end of validity of a certificate; \<open>fresh_pair\<close> is
  the certificate and key a generation gives; the stores are those that could be opened.\<close>

record cert_env =
  now :: nat
  x509 :: "bytes \<Rightarrow> int option"
  fresh_pair :: "(bytes \<times> bytes) option"
  cer_fails :: "bytes option option"
  key_fails :: "bytes option option"
  machine_store :: "bytes list option"
  user_store :: "bytes list option"
  sign_leaf :: "string \<Rightarrow> root_cert \<Rightarrow> (bytes \<times> bytes) option"

datatype cert_error = GenerateFailed | CerWriteFailed | KeyWriteFailed

definition cert_valid_days :: nat where "cert_valid_days = 300"

definition valid :: "cert_env \<Rightarrow> root_cert \<Rightarrow> bool" where
  "valid e rc = (now e < rc_not_after rc)"

definition new_manager :: "bytes option \<Rightarrow> bytes option \<Rightarrow> cert_state" where
  "new_manager cer key = \<lparr>root_mem = None, verdict = None, cer_file = cer, key_file = key\<rparr>"

section \<open>The root certificate\<close>

definition load_file :: "cert_env \<Rightarrow> cert_state \<Rightarrow> root_cert option" where
  "load_file e c = (case (cer_file c, key_file c) of
     (Some cer, Some key) \<Rightarrow> (case x509 e cer of
         Some t \<Rightarrow> (let rc = \<lparr>rc_der = cer, rc_key = key, rc_not_after = nat (max t 0)\<rparr> in if valid e rc then Some rc else None)
       | None \<Rightarrow> None)
   | _ \<Rightarrow> None)"

definition load :: "cert_env \<Rightarrow> cert_state \<Rightarrow> root_cert option \<times> cert_state" where
  "load e c =
     (let from_file = (case load_file e c of Some rc \<Rightarrow> (Some rc, c\<lparr>root_mem := Some rc\<rparr>) | None \<Rightarrow> (None, c)) in
      case root_mem c of
        Some rc \<Rightarrow> if valid e rc then (Some rc, c) else from_file
      | None \<Rightarrow> from_file)"

definition generate :: "cert_env \<Rightarrow> cert_state \<Rightarrow> (cert_error + root_cert) \<times> cert_state" where
  "generate e c = (case fresh_pair e of
     None \<Rightarrow> (Inl GenerateFailed, c)
   | Some (der, key) \<Rightarrow> (case cer_fails e of
       Some left \<Rightarrow> (Inl CerWriteFailed, c\<lparr>cer_file := left\<rparr>)
     | None \<Rightarrow> (let c1 = c\<lparr>cer_file := Some der\<rparr> in case key_fails e of
         Some left \<Rightarrow> (Inl KeyWriteFailed, c1\<lparr>key_file := left\<rparr>)
       | None \<Rightarrow> (let rc = \<lparr>rc_der = der, rc_key = key, rc_not_after = now e + cert_valid_days * 86400\<rparr> in
           (Inr rc, c1\<lparr>key_file := Some key, root_mem := Some rc\<rparr>)))))"

definition root :: "cert_env \<Rightarrow> cert_state \<Rightarrow> (cert_error + root_cert) \<times> cert_state" where
  "root e c = (case load e c of (Some rc, c) \<Rightarrow> (Inr rc, c) | (None, c) \<Rightarrow> generate e c)"

section \<open>Trust\<close>

text \<open>The walk over a store, certificate by certificate.\<close>

fun contains :: "bytes list \<Rightarrow> bytes \<Rightarrow> bool" where
  "contains [] der = False"
| "contains (x # xs) der = (x = der \<or> contains xs der)"

definition store_has_cert :: "cert_env \<Rightarrow> bytes \<Rightarrow> bool" where
  "store_has_cert e der = (der \<noteq> [] \<and> list_ex (\<lambda>s. case s of Some certs \<Rightarrow> contains certs der | None \<Rightarrow> False)
     [machine_store e, user_store e])"

definition is_installed :: "cert_env \<Rightarrow> cert_state \<Rightarrow> bool \<times> cert_state" where
  "is_installed e c = (case verdict c of
     Some v \<Rightarrow> (v, c)
   | None \<Rightarrow> (case load e c of (r, c) \<Rightarrow>
       let v = (case r of Some rc \<Rightarrow> store_has_cert e (rc_der rc) | None \<Rightarrow> False) in (v, c\<lparr>verdict := Some v\<rparr>)))"

section \<open>Leaf certificates\<close>

type_synonym leaf_cache = "string \<rightharpoonup> bytes \<times> bytes"

definition get_or_create :: "cert_env \<Rightarrow> string \<Rightarrow> root_cert \<Rightarrow> leaf_cache \<Rightarrow> (bytes \<times> bytes) option \<times> leaf_cache" where
  "get_or_create e sni rc cache = (case cache sni of
     Some v \<Rightarrow> (Some v, cache)
   | None \<Rightarrow> (case sign_leaf e sni rc of
       Some v \<Rightarrow> (Some v, cache(sni \<mapsto> v))
     | None \<Rightarrow> (None, cache)))"

section \<open>The commands of the certificate page\<close>

text \<open>The programs the commands run, \<open>certutil\<close> on the certificate file and PowerShell: not started, or ended well or not.\<close>

datatype tool = NotRun | Exited bool

datatype install_error = NoRoot cert_error | ToolMissing | ToolFailed

definition tool_result :: "tool \<Rightarrow> install_error + unit" where
  "tool_result t = (case t of NotRun \<Rightarrow> Inl ToolMissing | Exited ok \<Rightarrow> if ok then Inr () else Inl ToolFailed)"

definition install :: "cert_env \<Rightarrow> (bytes option \<Rightarrow> tool) \<Rightarrow> cert_state \<Rightarrow> (install_error + unit) \<times> cert_state" where
  "install e run c = (case root e c of
     (Inl er, c) \<Rightarrow> (Inl (NoRoot er), c)
   | (Inr _, c) \<Rightarrow> (tool_result (run (cer_file c)), c))"

definition remove :: "tool \<Rightarrow> install_error + unit" where
  "remove t = tool_result t"

text \<open>The details shown are those of the certificate, here its bytes.\<close>

datatype cert_info = Details bytes | Unparsable | NotGenerated

definition info :: "cert_env \<Rightarrow> cert_state \<Rightarrow> cert_info \<times> cert_state" where
  "info e c = (case load e c of
     (Some rc, c) \<Rightarrow> (if x509 e (rc_der rc) \<noteq> None then Details (rc_der rc) else Unparsable, c)
   | (None, c) \<Rightarrow> (NotGenerated, c))"

section \<open>Facts\<close>

lemma contains_iff [simp]: "contains xs der \<longleftrightarrow> der \<in> set xs"
  by (induction xs) auto

lemma load_file_valid: "load_file e c = Some rc \<Longrightarrow> valid e rc"
  by (auto simp: load_file_def Let_def split: option.splits if_splits)

lemma load_spec: "load e c = (Some rc, c') \<Longrightarrow> valid e rc \<and> root_mem c' = Some rc"
  using load_file_valid [of e c]
  by (cases "root_mem c"; cases "load_file e c") (auto simp: load_def split: if_splits)

lemma root_spec:
  "root e c = (Inr rc, c') \<Longrightarrow> valid e rc \<and> root_mem c' = Some rc"
  using load_spec [of e c] by (cases "load e c")
    (auto simp: root_def generate_def valid_def Let_def cert_valid_days_def split: option.splits prod.splits)

text \<open>A certificate and a key that belong together, in memory and on disk.\<close>

definition paired :: "(bytes \<Rightarrow> bytes \<Rightarrow> bool) \<Rightarrow> cert_state \<Rightarrow> bool" where
  "paired P c \<longleftrightarrow> (case root_mem c of Some rc \<Rightarrow> P (rc_der rc) (rc_key rc) | None \<Rightarrow> True) \<and>
     (case (cer_file c, key_file c) of (Some d, Some k) \<Rightarrow> P d k | _ \<Rightarrow> True)"

lemma load_paired: "load e c = (r, c') \<Longrightarrow> paired P c \<Longrightarrow> paired P c'"
  by (auto simp: load_def load_file_def paired_def Let_def split: option.splits if_splits)

lemma root_paired:
  assumes "root e c = (r, c')" "paired P c" "case fresh_pair e of Some (d, k) \<Rightarrow> P d k | None \<Rightarrow> True"
    and "cer_fails e = None" "key_fails e = None"
  shows "paired P c'"
proof -
  obtain q c1 where l: "load e c = (q, c1)" by fastforce
  have "paired P c1" using load_paired [OF l assms(2)] .
  then show ?thesis using assms(1,3-5) l
    by (auto simp: root_def generate_def paired_def Let_def split: option.splits prod.splits)
qed

text \<open>The file holds the certificate in memory for as long as that is valid.\<close>

definition disk_matches :: "nat \<Rightarrow> cert_state \<Rightarrow> bool" where
  "disk_matches t c \<longleftrightarrow> (\<forall>rc. root_mem c = Some rc \<and> t < rc_not_after rc \<longrightarrow> cer_file c = Some (rc_der rc))"

lemma disk_matches_later: "disk_matches t c \<Longrightarrow> t \<le> t' \<Longrightarrow> disk_matches t' c"
  by (auto simp: disk_matches_def)

lemma load_disk: "load e c = (r, c') \<Longrightarrow> disk_matches (now e) c \<Longrightarrow> disk_matches (now e) c'"
  by (auto simp: load_def load_file_def valid_def disk_matches_def Let_def split: option.splits if_splits)

lemma load_none: "load e c = (None, c') \<Longrightarrow> c' = c \<and> (\<forall>rc. root_mem c = Some rc \<longrightarrow> rc_not_after rc \<le> now e)"
  by (auto simp: load_def valid_def Let_def split: option.splits if_splits)

lemma root_disk:
  assumes "root e c = (r, c')" "disk_matches (now e) c"
  shows "disk_matches (now e) c'"
proof -
  obtain q c1 where l: "load e c = (q, c1)" by fastforce
  show ?thesis
  proof (cases q)
    case None
    then have "\<forall>rc. root_mem c = Some rc \<longrightarrow> rc_not_after rc \<le> now e" "c1 = c" using load_none [of e c c1] l by auto
    then show ?thesis using assms(1) l None
      by (auto simp: root_def generate_def disk_matches_def Let_def split: option.splits prod.splits)
  next
    case (Some rc)
    then show ?thesis using assms l load_disk [OF l assms(2)] by (simp add: root_def)
  qed
qed

text \<open>The calls of a run of the program on its certificates, each in its own circumstances.\<close>

datatype cert_call = CallRoot | CallInstalled | CallInstall "bytes option \<Rightarrow> tool" | CallInfo

fun do_call :: "cert_env \<times> cert_call \<Rightarrow> cert_state \<Rightarrow> cert_state" where
  "do_call (e, CallRoot) c = snd (root e c)"
| "do_call (e, CallInstalled) c = snd (is_installed e c)"
| "do_call (e, CallInstall run) c = snd (install e run c)"
| "do_call (e, CallInfo) c = snd (info e c)"

lemma cert_call_disk:
  assumes "disk_matches (now e) c"
  shows "disk_matches (now e) (do_call (e, k) c)"
proof -
  obtain r c1 where r: "root e c = (r, c1)" by fastforce
  obtain q c2 where l: "load e c = (q, c2)" by fastforce
  note d = root_disk [OF r assms] load_disk [OF l assms]
  have "disk_matches (now e) (c2\<lparr>verdict := v\<rparr>)" for v using d(2) by (simp add: disk_matches_def)
  then show ?thesis using assms r l d
    by (cases k) (auto simp: is_installed_def install_def info_def Let_def split: option.splits sum.splits)
qed

lemma cert_calls_disk:
  "sorted (map (\<lambda>(e, k). now e) calls @ [t]) \<Longrightarrow> disk_matches 0 c \<Longrightarrow> disk_matches t (fold do_call calls c)"
proof (induction calls arbitrary: t rule: rev_induct)
  case Nil
  then show ?case using disk_matches_later [of 0 c t] by simp
next
  case (snoc x calls)
  obtain e k where x: "x = (e, k)" by fastforce
  have s: "sorted (map (\<lambda>(e, k). now e) calls @ [now e])" "now e \<le> t" using snoc.prems(1) x by (auto simp: sorted_append)
  have "disk_matches (now e) (do_call (e, k) (fold do_call calls c))"
    by (rule cert_call_disk [OF snoc.IH [OF s(1) snoc.prems(2)]])
  then show ?case using disk_matches_later [OF _ s(2)] x by simp
qed

section \<open>Properties\<close>

text \<open>C29. What is installed is what signs: when the install command reports success, the file given to \<open>certutil\<close> held exactly
  the root certificate that later calls return and sign with, whatever was called before and failed, for a clock that does not go back.\<close>

theorem installed_root_signs:
  assumes "sorted (map (\<lambda>(e, k). now e) calls @ [now e])"
    and "install e run (fold do_call calls (new_manager cer key)) = (Inr (), c)"
  shows "\<exists>rc. run (Some (rc_der rc)) = Exited True \<and> cer_file c = Some (rc_der rc) \<and> root e c = (Inr rc, c) \<and> now e < rc_not_after rc"
proof -
  let ?c = "fold do_call calls (new_manager cer key)"
  have "disk_matches 0 (new_manager cer key)" by (simp add: disk_matches_def new_manager_def)
  note d = cert_calls_disk [OF assms(1) this]
  obtain r c1 where r: "root e ?c = (r, c1)" by fastforce
  then obtain rc where rc: "r = Inr rc" "c1 = c" "tool_result (run (cer_file c)) = Inr ()"
    using assms(2) by (cases r) (auto simp: install_def)
  note s = root_spec [OF r [unfolded rc(1)]]
  have "cer_file c = Some (rc_der rc)" using root_disk [OF r d] s rc(2) by (simp add: disk_matches_def valid_def)
  moreover have "root e c = (Inr rc, c)" using s rc(2) by (simp add: root_def load_def)
  ultimately show ?thesis using s rc(3) by (auto simp: tool_result_def valid_def split: tool.splits if_splits)
qed

text \<open>The root certificate is stable: what \<open>root\<close> returns is valid now, belongs to its key when generation and
  files kept their pairs, and every later call before its end of validity returns the same certificate without
  touching the disk.\<close>

theorem root_stable:
  assumes "root e c = (Inr rc, c')" "paired P c" "case fresh_pair e of Some (d, k) \<Rightarrow> P d k | None \<Rightarrow> True"
    and "cer_fails e = None" "key_fails e = None"
  shows "now e < rc_not_after rc \<and> P (rc_der rc) (rc_key rc) \<and> (now e' < rc_not_after rc \<longrightarrow> root e' c' = (Inr rc, c'))"
proof -
  have "valid e rc" "root_mem c' = Some rc" using root_spec [OF assms(1)] by simp_all
  moreover have "paired P c'" using root_paired [OF assms] .
  ultimately show ?thesis by (simp add: paired_def valid_def root_def load_def)
qed

section \<open>Examples\<close>

definition sample_cert_env :: cert_env where
  "sample_cert_env = \<lparr>now = 1000, x509 = (\<lambda>_. Some 500), fresh_pair = Some ([1], [2]), cer_fails = None, key_fails = None,
     machine_store = Some [[9], [1]], user_store = None, sign_leaf = (\<lambda>_ _. Some ([7], [8]))\<rparr>"

lemma installed_root_signs_witness:
  "let run = (\<lambda>f. Exited (f = Some [1])); c = snd (install sample_cert_env run (new_manager (Some [3]) (Some [4]))) in
   \<exists>rc. root sample_cert_env c = (Inr rc, c) \<and> rc_der rc = [1]"
proof -
  let ?run = "\<lambda>f. Exited (f = Some [1])" and ?m = "new_manager (Some [3]) (Some [4])"
  have "fst (install sample_cert_env ?run ?m) = Inr ()"
    by (simp add: sample_cert_env_def install_def tool_result_def new_manager_def root_def load_def load_file_def generate_def valid_def Let_def)
  then have "install sample_cert_env ?run (fold do_call [] ?m) = (Inr (), snd (install sample_cert_env ?run ?m))"
    by (metis fold_simps(1) prod.collapse)
  from installed_root_signs [OF _ this] show ?thesis by (auto simp: Let_def)
qed

lemma root_stable_witness:
  "fst (root (sample_cert_env\<lparr>now := 5000\<rparr>) (snd (root sample_cert_env (new_manager (Some [3]) (Some [4]))))) =
     Inr \<lparr>rc_der = [1], rc_key = [2], rc_not_after = 25921000\<rparr>"
proof -
  let ?c = "snd (root sample_cert_env (new_manager (Some [3]) (Some [4])))"
  have r: "root sample_cert_env (new_manager (Some [3]) (Some [4])) = (Inr \<lparr>rc_der = [1], rc_key = [2], rc_not_after = 25921000\<rparr>, ?c)"
    by (simp add: sample_cert_env_def new_manager_def root_def load_def load_file_def generate_def valid_def Let_def cert_valid_days_def)
  have "paired (\<lambda>d k. d = [1] \<and> k = [2] \<or> d = [3] \<and> k = [4]) (new_manager (Some [3]) (Some [4]))"
    by (simp add: paired_def new_manager_def)
  from root_stable [OF r this, of "sample_cert_env\<lparr>now := 5000\<rparr>"] show ?thesis by (simp add: sample_cert_env_def)
qed

text \<open>A key that could not be written leaves the new certificate beside the old key, and the next load takes the two as a pair.\<close>

lemma half_written_pair_is_loaded:
  "let e = sample_cert_env\<lparr>key_fails := Some (Some [4])\<rparr>; c = snd (root e (new_manager (Some [3]) (Some [4]))) in
   fst (load (e\<lparr>x509 := (\<lambda>_. Some 9000)\<rparr>) c) = Some \<lparr>rc_der = [1], rc_key = [4], rc_not_after = 9000\<rparr>"
  by (simp add: sample_cert_env_def new_manager_def root_def load_def load_file_def generate_def valid_def Let_def)

text \<open>The verdict is not renewed with the certificate: after the trusted one expired, the new one counts as installed too.\<close>

lemma verdict_outlives_certificate:
  "is_installed e c = (True, c1) \<Longrightarrow> root e' c1 = (r, c2) \<Longrightarrow> fst (is_installed e' c2) = True"
proof -
  assume i: "is_installed e c = (True, c1)" and r: "root e' c1 = (r, c2)"
  have "verdict c1 = Some True" using i by (auto simp: is_installed_def Let_def split: option.splits prod.splits)
  then have "verdict c2 = Some True" using r
    by (auto simp: root_def load_def generate_def Let_def split: option.splits prod.splits if_splits)
  then show ?thesis by (simp add: is_installed_def)
qed

text \<open>A leaf certificate is served for as long as the cache lives, whatever its own validity.\<close>

lemma leaf_served_forever:
  "get_or_create e sni rc cache = (Some v, cache') \<Longrightarrow> get_or_create e' sni rc' cache' = (Some v, cache')"
  by (auto simp: get_or_create_def split: option.splits)

end
