(* ===== verification/Tls.thy ===== *)
theory Tls
  imports Http2 Cert
begin

text \<open>
  TLS termination (\<open>crates/core/src/mitm.rs\<close>, with \<open>leaf_for\<close> of \<open>cert.rs\<close>): the certificate a client is shown, the handshake and what is
  served behind it, and a whole HTTP/1.1 connection from its first request to its last. The cryptography and the TLS and HTTP/2 libraries
  are parameters (\<open>crypto\<close>, \<open>tls_server\<close>). Connections have tasks of their own and share the cache of leaf certificates and the pool; the
  lookups of the cache are taken in the order in which they happen.
\<close>

section \<open>Leaf certificates\<close>

datatype key_usage = DigitalSignature | KeyEncipherment | ServerAuth

text \<open>What the certificate of a server says: its common name, its alternative names, its validity in seconds and its usages.\<close>

record leaf_params =
  lp_common_name :: string
  lp_names :: "string list"
  lp_from :: nat
  lp_until :: nat
  lp_usages :: "key_usage list"

text \<open>The certificate library: reading the key and the certificate of the root, a fresh key at a time, the names it accepts, signing, and
  whether a certificate and a key can be used by the TLS library.\<close>

record crypto =
  root_key_ok :: "bytes \<Rightarrow> bool"
  issuer_ok :: "bytes \<Rightarrow> bool"
  fresh_key :: "nat \<Rightarrow> bytes option"
  name_ok :: "string \<Rightarrow> bool"
  sign_cert :: "leaf_params \<Rightarrow> bytes \<Rightarrow> root_cert \<Rightarrow> bytes option"
  certified :: "bytes \<Rightarrow> bytes \<Rightarrow> bool"

definition server_leaf :: "string \<Rightarrow> nat \<Rightarrow> leaf_params" where
  "server_leaf sni t = \<lparr>lp_common_name = sni, lp_names = [sni], lp_from = t, lp_until = t + 30 * 86400,
     lp_usages = [ServerAuth, DigitalSignature, KeyEncipherment]\<rparr>"

definition leaf_for :: "crypto \<Rightarrow> nat \<Rightarrow> string \<Rightarrow> root_cert \<Rightarrow> (bytes \<times> bytes) option" where
  "leaf_for k t sni rc = (if \<not> root_key_ok k (rc_key rc) \<or> \<not> issuer_ok k (rc_der rc) then None
     else (case fresh_key k t of
       None \<Rightarrow> None
     | Some key \<Rightarrow> if \<not> name_ok k sni then None
         else (case sign_cert k (server_leaf sni t) key rc of None \<Rightarrow> None | Some der \<Rightarrow> Some (der, key))))"

section \<open>The certificate a client is shown\<close>

text \<open>The environment of the certificate manager with the program's own way to sign a leaf.\<close>

definition signing :: "crypto \<Rightarrow> cert_env \<Rightarrow> cert_env" where
  "signing k e = e\<lparr>sign_leaf := leaf_for k (now e)\<rparr>"

definition resolve_cert :: "crypto \<Rightarrow> cert_env \<Rightarrow> root_cert \<Rightarrow> string option \<Rightarrow> leaf_cache \<Rightarrow> (bytes \<times> bytes) option \<times> leaf_cache" where
  "resolve_cert k e rc server lc = (case server of
     None \<Rightarrow> (None, lc)
   | Some sni \<Rightarrow> (case get_or_create (signing k e) sni rc lc of
       (None, lc) \<Rightarrow> (None, lc)
     | (Some (der, key), lc) \<Rightarrow> (if certified k der key then Some (der, key) else None, lc)))"

section \<open>Connections\<close>

text \<open>The TLS library: the server name of a hello, and what a handshake under a certificate gives, the plaintext stream of an HTTP/1.1 client
  or the results of accepting the streams of an HTTP/2 client. A handshake without certificate fails.\<close>

datatype tls_session = Plain io | H2Refused | H2Streams "h2_request option list"

record tls_server =
  hello_name :: "io \<Rightarrow> string option"
  shake :: "io \<Rightarrow> bytes \<times> bytes \<Rightarrow> tls_session option"

text \<open>Each accepted HTTP/2 request gets a task of its own, in theory \<open>Http2\<close>; the first failure ends the connection.\<close>

fun accept_streams :: "h2_request option list \<Rightarrow> h2_request list \<times> bool" where
  "accept_streams [] = ([], True)"
| "accept_streams (None # rs) = ([], False)"
| "accept_streams (Some r # rs) = (case accept_streams rs of (qs, ok) \<Rightarrow> (r # qs, ok))"

datatype conn_end = NoTls | H1Done io | H2Failed | H2Tasks "h2_request list" bool

definition handle_h2_conn :: "h2_request option list option \<Rightarrow> conn_end" where
  "handle_h2_conn rs = (case rs of None \<Rightarrow> H2Failed | Some rs \<Rightarrow> (case accept_streams rs of (qs, ok) \<Rightarrow> H2Tasks qs ok))"

record tls_runtime =
  tr_crypto :: crypto
  tr_root :: root_cert
  tr_server :: tls_server
  tr_mitm :: mitm_runtime

definition handle_conn :: "tls_runtime \<Rightarrow> cert_env \<Rightarrow> (nat \<Rightarrow> bool) \<Rightarrow> 'n tls_env \<Rightarrow> u16 \<Rightarrow> io \<Rightarrow> leaf_cache \<Rightarrow> mitm_state \<Rightarrow>
    conn_end \<times> leaf_cache \<times> mitm_state" where
  "handle_conn tr e alloc te port conn lc st =
     (case resolve_cert (tr_crypto tr) e (tr_root tr) (hello_name (tr_server tr) conn) lc of
       (None, lc) \<Rightarrow> (NoTls, lc, st)
     | (Some ck, lc) \<Rightarrow> (case shake (tr_server tr) conn ck of
         None \<Rightarrow> (NoTls, lc, st)
       | Some (Plain s) \<Rightarrow> (case serve_requests alloc te (tr_mitm tr) port s st of (c, st) \<Rightarrow> (H1Done c, lc, st))
       | Some H2Refused \<Rightarrow> (handle_h2_conn None, lc, st)
       | Some (H2Streams rs) \<Rightarrow> (handle_h2_conn (Some rs), lc, st)))"

text \<open>A CONNECT tunnel is terminated on the port it asked for; the listeners of the hosts and the intercepting mode are on the HTTPS port.\<close>

definition handle_tunnel :: "tls_runtime \<Rightarrow> cert_env \<Rightarrow> (nat \<Rightarrow> bool) \<Rightarrow> 'n tls_env \<Rightarrow> io \<Rightarrow> u16 \<Rightarrow> leaf_cache \<Rightarrow> mitm_state \<Rightarrow>
    conn_end \<times> leaf_cache \<times> mitm_state" where
  "handle_tunnel tr e alloc te conn port lc st = handle_conn tr e alloc te port conn lc st"

definition accepted_on_443 :: "tls_runtime \<Rightarrow> cert_env \<Rightarrow> (nat \<Rightarrow> bool) \<Rightarrow> 'n tls_env \<Rightarrow> io \<Rightarrow> leaf_cache \<Rightarrow> mitm_state \<Rightarrow>
    conn_end \<times> leaf_cache \<times> mitm_state" where
  "accepted_on_443 tr e alloc te conn lc st = handle_conn tr e alloc te 443 conn lc st"

section \<open>Facts on one HTTP/1.1 client\<close>

lemma stream_exact_n_room: "stream_exact_n n s = (ok, s') \<Longrightarrow> room s = None \<Longrightarrow> room s' = None"
proof (induction n s arbitrary: ok s' rule: stream_exact_n.induct)
  case (1 n s)
  obtain x s1 where x: "read_some (min n 65536) s = (x, s1)" by fastforce
  then have r: "room s1 = None" using read_some_spec [OF x] 1(3) by (simp add: quiet_def)
  show ?case
  proof (cases "n = 0 \<or> x = None \<or> x = Some []")
    case False
    then obtain bs where bs: "x = Some bs" "bs \<noteq> []" "n \<noteq> 0" by auto
    then show ?thesis using 1(1) [OF _ x [symmetric] bs(1,2) write_free [OF r, symmetric]] 1(2) x r
      by (simp add: stream_exact_n.simps [of n s] write_free)
  qed (use 1(2,3) x r in \<open>auto simp: stream_exact_n.simps [of n s] split: if_splits\<close>)
qed

lemma relay_trailers_room: "relay_trailers s = (ok, s') \<Longrightarrow> room s = None \<Longrightarrow> room s' = None"
proof (induction s arbitrary: ok s' rule: relay_trailers.induct)
  case (1 s)
  obtain x s1 where x: "read_line 8192 s = (x, s1)" by fastforce
  then have r: "room s1 = None" using read_line_spec [OF x] 1(3) by (simp add: quiet_def)
  show ?case
  proof (cases x)
    case (Some l)
    then show ?thesis using 1(1) [OF x [symmetric] Some write_free [OF r, symmetric]] 1(2) x r
      by (cases "l = crlf") (auto simp: relay_trailers.simps [of s] write_free)
  qed (use 1(2) x r in \<open>simp add: relay_trailers.simps [of s]\<close>)
qed

lemma relay_chunked_room: "relay_chunked s = (ok, s') \<Longrightarrow> room s = None \<Longrightarrow> room s' = None"
proof (induction s arbitrary: ok s' rule: relay_chunked.induct)
  case (1 s)
  obtain x s1 where x: "read_line 4096 s = (x, s1)" by fastforce
  then have r: "room s1 = None" using read_line_spec [OF x] 1(3) by (simp add: quiet_def)
  show ?case
  proof (cases "x = None \<or> parse_chunk_size (the x) = None")
    case False
    then obtain l n where l: "x = Some l" "parse_chunk_size l = Some n" by auto
    note w = write_free [OF r, of l]
    let ?s2 = "s1\<lparr>outp := outp s1 @ l\<rparr>"
    have r2: "room ?s2 = None" using r by simp
    show ?thesis
    proof (cases "n = 0")
      case True
      then show ?thesis using 1(2) x l w relay_trailers_room [of ?s2] r2 by (simp add: relay_chunked.simps [of s])
    next
      case n: False
      obtain k s3 where k: "stream_exact_n n ?s2 = (k, s3)" by fastforce
      have r3: "room s3 = None" by (rule stream_exact_n_room [OF k r2])
      obtain e s4 where e: "read_full 2 s3 = (e, s4)" by fastforce
      have r4: "room s4 = None" using read_full_spec [OF e] r3 by (simp add: quiet_def)
      show ?thesis
      proof (cases "\<not> k \<or> e = None")
        case True
        then show ?thesis using 1(2) x l w n k e r3 r4 by (auto simp: relay_chunked.simps [of s] split: if_splits)
      next
        case False
        then obtain y where y: "e = Some y" "k" by auto
        then show ?thesis
          using 1(1) [OF x [symmetric] l w [symmetric] _ n k [symmetric] _ e [symmetric] y(1) write_free [OF r4, symmetric]] 1(2) x l w n k e r4
          by (simp add: relay_chunked.simps [of s] write_free)
      qed
    qed
  qed (use 1(2) x r in \<open>auto simp: relay_chunked.simps [of s] split: option.splits\<close>)
qed

lemma relay_to_close_room: "relay_to_close s = (ok, s') \<Longrightarrow> room s = None \<Longrightarrow> room s' = None"
proof (induction s arbitrary: ok s' rule: relay_to_close.induct)
  case (1 s)
  obtain x s1 where x: "read_some 65536 s = (x, s1)" by fastforce
  then have r: "room s1 = None" using read_some_spec [OF x] 1(3) by (simp add: quiet_def)
  show ?case
  proof (cases "x = None \<or> x = Some []")
    case False
    then obtain bs where bs: "x = Some bs" "bs \<noteq> []" by auto
    then show ?thesis using 1(1) [OF x [symmetric] bs write_free [OF r, symmetric]] 1(2) x r
      by (simp add: relay_to_close.simps [of s] write_free)
  qed (use 1(2) x r in \<open>auto simp: relay_to_close.simps [of s]\<close>)
qed

lemma response_room: "stream_response_body head meth s = (r, s') \<Longrightarrow> room s = None \<Longrightarrow> room s' = None"
  by (auto simp: stream_response_body_def stream_response_body_inner_def write_free
      split: if_splits prod.splits option.splits dest: relay_chunked_room stream_exact_n_room relay_to_close_room)

text \<open>The client stream after an answer: what it had still to say is untouched, the writer still takes everything.\<close>

definition spoken_to :: "io \<Rightarrow> io \<Rightarrow> bool" where
  "spoken_to s s' \<longleftrightarrow> inp s' = inp s \<and> segs s' = segs s \<and> ending_of s' = ending_of s \<and> room s' = None"

lemma refused_spoken: "room s = None \<Longrightarrow> spoken_to s (snd (write_all bs s))"
  by (simp add: write_free spoken_to_def)

lemma finish_spoken:
  assumes "finish_response req host ch port ag outcome client st = (k, c, st')" "room client = None"
  shows "spoken_to client c"
proof (cases outcome)
  case (Inl f)
  then show ?thesis using assms refused_spoken [of client bad_gateway] by (simp add: finish_response_def)
next
  case (Inr ans)
  obtain up head got winner sni ns where a: "ans = (up, head, got, winner, sni, ns)" by (metis prod_cases6)
  obtain r s where s: "stream_response_body head (r_method req) (across client (with_prefix got up)) = (r, s)" by fastforce
  have "room s = None" using response_room [OF s] assms(2) by (simp add: across_def)
  moreover have "c = written_to client s" using assms(1) Inr a s by (auto simp: finish_response_def Let_def split: option.splits)
  ultimately show ?thesis by (simp add: spoken_to_def written_to_def)
qed

lemma forward_spoken:
  assumes "forward_one te rt req host ch port client st = (k, c, st')" "room client = None"
  shows "spoken_to client c"
  using assms refused_spoken [of client bad_gateway] unfolding forward_one_def
  by (auto simp: Let_def finish_spoken split: prod.splits option.splits reuse.splits)

lemma skip_trailers_quiet: "skip_trailers s = (ok, s') \<Longrightarrow> quiet s s'"
proof (induction s arbitrary: ok s' rule: skip_trailers.induct)
  case (1 s)
  obtain x s1 where x: "read_line 8192 s = (x, s1)" by fastforce
  have q: "quiet s s1" using read_line_spec [OF x] by simp
  show ?case
  proof (cases x)
    case (Some l)
    then show ?thesis using 1(1) [OF x [symmetric] Some] 1(2) x q
      by (cases "l = crlf") (auto simp: skip_trailers.simps [of s] intro: quiet_trans [OF q])
  qed (use 1(2) x q in \<open>simp add: skip_trailers.simps [of s]\<close>)
qed

lemma read_n_quiet: "read_n alloc n s = (r, s') \<Longrightarrow> quiet s s'"
  using read_full_spec [of n s r s'] by (auto simp: read_n_def split: if_splits)

lemma read_chunks_quiet: "read_chunks alloc body s = (r, s') \<Longrightarrow> quiet s s'"
proof (induction alloc body s arbitrary: r s' rule: read_chunks.induct)
  case (1 alloc body s)
  obtain x s1 where x: "read_line 4096 s = (x, s1)" by fastforce
  have q1: "quiet s s1" using read_line_spec [OF x] by simp
  show ?case
  proof (cases "x = None \<or> parse_chunk_size (the x) = None")
    case False
    then obtain l n where l: "x = Some l" "parse_chunk_size l = Some n" by auto
    show ?thesis
    proof (cases "n = 0")
      case True
      then show ?thesis using 1(2) x l skip_trailers_quiet [of s1] quiet_trans [OF q1]
        by (auto simp: read_chunks.simps [of alloc body s] split: prod.splits)
    next
      case n: False
      obtain c s2 where c: "read_n alloc n s1 = (c, s2)" by fastforce
      obtain e s3 where e: "read_full 2 s2 = (e, s3)" by fastforce
      have q2: "quiet s s2" using quiet_trans [OF q1 read_n_quiet [OF c]] .
      have q3: "quiet s s3" using quiet_trans [OF q2] read_full_spec [OF e] by blast
      consider "s' = s2" | "s' = s3" | ch where "c = Some ch" "e = Some crlf" "read_chunks alloc (body @ ch) s3 = (r, s')"
        using 1(2) x l n c e by (auto simp: read_chunks.simps [of alloc body s] split: option.splits if_splits)
      then show ?thesis
      proof cases
        case 3
        from 1(1) [OF x [symmetric] l n c [symmetric] 3(1) e [symmetric] 3(2) _ 3(3)] show ?thesis using quiet_trans [OF q3] by simp
      qed (use q2 q3 in auto)
    qed
  qed (use 1(2) x q1 in \<open>auto simp: read_chunks.simps [of alloc body s] split: option.splits\<close>)
qed

text \<open>Reading a request writes nothing, or the interim line a client waits for.\<close>

definition prompt :: "string \<Rightarrow> bool" where
  "prompt pre \<longleftrightarrow> pre = [] \<or> pre = continue_line"

lemma read_request_prompts:
  assumes "read_request alloc s = (r, s')" "room s = None"
  shows "\<exists>pre. outp s' = outp s @ pre \<and> prompt pre \<and> room s' = None"
proof -
  obtain x s1 where h: "read_head s = (x, s1)" by fastforce
  then have q: "quiet s s1" using read_until_spec [of head_end] unfolding read_head_def by blast
  then have r1: "room s1 = None" "outp s1 = outp s" using assms(2) by (simp_all add: quiet_def)
  have b: "quiet v v'" if "read_body_of alloc hs v = (y, v')" for hs v y v'
    using that read_chunks_quiet [of alloc "[]" v] read_n_quiet [of alloc _ v] by (auto simp: read_body_of_def Let_def split: if_splits)
  consider "s' = s1" | hs where "quiet (s1\<lparr>outp := outp s1 @ continue_line\<rparr>) s'" | "quiet s1 s'"
    using assms(1) h b write_free [OF r1(1), of continue_line]
    by (auto simp: read_request_def Let_def split: option.splits list.splits if_splits prod.splits)
  then show ?thesis
    by cases (use r1 in \<open>auto simp: quiet_def prompt_def\<close>)
qed


text \<open>The requests of a connection that were answered and left it usable, with the stream and the state after them.\<close>

inductive kept :: "(nat \<Rightarrow> bool) \<Rightarrow> 'n tls_env \<Rightarrow> mitm_runtime \<Rightarrow> u16 \<Rightarrow> io \<Rightarrow> mitm_state \<Rightarrow> http_request list \<Rightarrow> io \<Rightarrow> mitm_state \<Rightarrow> bool"
  for alloc te rt port where
  nothing: "kept alloc te rt port s st [] s st"
| request: "read_request alloc s = (Some r, s1) \<Longrightarrow> request_host r = Some host \<Longrightarrow>
    forward_one te rt r host (connect_host_of rt host) port s1 st = (True, s2, st1) \<Longrightarrow>
    kept alloc te rt port s2 st1 rs s3 st2 \<Longrightarrow> kept alloc te rt port s st (r # rs) s3 st2"

inductive_cases kept_request: "kept alloc te rt port s st (r # rs) s' st'"

text \<open>How a connection ends: no further request, one without host, or one whose answer does not keep the connection.\<close>

definition ends_with_answer :: "(nat \<Rightarrow> bool) \<Rightarrow> 'n tls_env \<Rightarrow> mitm_runtime \<Rightarrow> u16 \<Rightarrow> io \<Rightarrow> mitm_state \<Rightarrow> io \<Rightarrow> bool" where
  "ends_with_answer alloc te rt port s st c \<longleftrightarrow> (\<exists>pre. prompt pre \<and> (case read_request alloc s of
     (None, _) \<Rightarrow> outp c = outp s @ pre
   | (Some r, s1) \<Rightarrow> (case request_host r of
       None \<Rightarrow> outp c = outp s @ pre @ bad_request
     | Some host \<Rightarrow> \<not> fst (forward_one te rt r host (connect_host_of rt host) port s1 st) \<and>
         (outp c = outp s @ pre @ bad_gateway \<or> (\<exists>head body. outp c = outp s @ pre @ client_head head @ body)))))"

definition answered :: "http_request \<Rightarrow> string \<Rightarrow> bool" where
  "answered r a \<longleftrightarrow> (\<exists>pre head body. a = pre @ client_head head @ body \<and> prompt pre \<and> whole (r_method r) head body)"

lemma kept_answers:
  "kept alloc te rt port s st rs s' st' \<Longrightarrow> room s = None \<Longrightarrow>
     \<exists>as. list_all2 answered rs as \<and> outp s' = outp s @ concat as \<and> room s' = None"
proof (induction rule: kept.induct)
  case (request s r s1 host st s2 st1 rs s3 st2)
  obtain pre where pre: "outp s1 = outp s @ pre" "prompt pre" "room s1 = None"
    using read_request_prompts [OF request.hyps(1) request.prems] by blast
  have r2: "room s2 = None" using forward_spoken [OF request.hyps(3) pre(3)] by (simp add: spoken_to_def)
  obtain head body where hb: "outp s2 = outp s1 @ client_head head @ body" "whole (r_method r) head body"
    using forward_one_answer [OF request.hyps(3) pre(3)] by (auto simp: one_answer_def)
  obtain as where as: "list_all2 answered rs as" "outp s3 = outp s2 @ concat as" "room s3 = None" using request.IH [OF r2] by blast
  have "answered r (pre @ client_head head @ body)" using pre(2) hb(2) by (auto simp: answered_def)
  then show ?case using as pre(1) hb(1) by (intro exI [of _ "(pre @ client_head head @ body) # as"]) simp
qed simp

lemma serve_requests_kept:
  "serve_requests alloc te rt port client st = (c, st') \<Longrightarrow> room client = None \<Longrightarrow>
     \<exists>rs s st1. kept alloc te rt port client st rs s st1 \<and> ends_with_answer alloc te rt port s st1 c"
proof (induction alloc te rt port client st arbitrary: c st' rule: serve_requests.induct)
  case (1 alloc te rt port client st)
  obtain x c1 where r: "read_request alloc client = (x, c1)" by fastforce
  obtain pre where pre: "outp c1 = outp client @ pre" "prompt pre" "room c1 = None"
    using read_request_prompts [OF r 1(3)] by blast
  have over: "ends_with_answer alloc te rt port client st c \<Longrightarrow> ?case" by (blast intro: kept.nothing)
  show ?case
  proof (cases "x = None \<or> request_host (the x) = None")
    case True
    then have "ends_with_answer alloc te rt port client st c" using 1(2) r pre
      by (cases x) (auto simp: serve_requests.simps [of alloc te rt port client st] ends_with_answer_def write_free)
    then show ?thesis by (rule over)
  next
    case False
    then obtain req host where x: "x = Some req" "request_host req = Some host" by auto
    obtain k c2 st2 where f: "forward_one te rt req host (connect_host_of rt host) port c1 st = (k, c2, st2)" by (metis prod_cases3)
    show ?thesis
    proof (cases k)
      case False
      then have "c = c2" using 1(2) r x f by (simp add: serve_requests.simps [of alloc te rt port client st])
      then show ?thesis using forward_one_answer [OF f pre(3)] r x f pre(1,2) False
        by (intro over) (auto simp: ends_with_answer_def one_answer_def)
    next
      case True
      have "serve_requests alloc te rt port c2 st2 = (c, st')" "room c2 = None"
        using 1(2) r x f True forward_spoken [OF f pre(3)] by (simp_all add: serve_requests.simps [of alloc te rt port client st] spoken_to_def)
      from 1(1) [OF r [symmetric] x f [symmetric] refl True this] obtain rs s st1
        where i: "kept alloc te rt port c2 st2 rs s st1" "ends_with_answer alloc te rt port s st1 c" by blast
      have "kept alloc te rt port client st (req # rs) s st1"
        using kept.request [OF _ x(2) _ i(1)] r x(1) f True by simp
      then show ?thesis using i(2) by blast
    qed
  qed
qed

section \<open>Facts on the cache\<close>

text \<open>A pair made for a name at one of some times.\<close>

definition issued :: "crypto \<Rightarrow> root_cert \<Rightarrow> nat set \<Rightarrow> string \<Rightarrow> bytes \<times> bytes \<Rightarrow> bool" where
  "issued k rc ts sni v \<longleftrightarrow> (\<exists>t\<in>ts. fresh_key k t = Some (snd v) \<and> sign_cert k (server_leaf sni t) (snd v) rc = Some (fst v))"

lemma leaf_for_issued: "leaf_for k t sni rc = Some v \<Longrightarrow> t \<in> ts \<Longrightarrow> issued k rc ts sni v"
  by (auto simp: leaf_for_def issued_def split: if_splits option.splits)

lemma issued_later: "issued k rc ts sni v \<Longrightarrow> ts \<subseteq> ts' \<Longrightarrow> issued k rc ts' sni v"
  by (auto simp: issued_def)

definition cache_issued :: "crypto \<Rightarrow> root_cert \<Rightarrow> nat set \<Rightarrow> leaf_cache \<Rightarrow> bool" where
  "cache_issued k rc ts lc \<longleftrightarrow> (\<forall>sni v. lc sni = Some v \<longrightarrow> issued k rc ts sni v)"

lemma resolve_issued:
  assumes "resolve_cert k e rc server lc = (r, lc')" "cache_issued k rc ts lc" "now e \<in> ts"
  shows "cache_issued k rc ts lc' \<and> (\<forall>v. r = Some v \<longrightarrow> (\<exists>sni. server = Some sni \<and> issued k rc ts sni v))"
proof (cases server)
  case (Some sni)
  show ?thesis
  proof (cases "lc sni")
    case None
    then show ?thesis using assms Some leaf_for_issued [of k "now e" sni rc _ ts]
      by (auto simp: resolve_cert_def get_or_create_def signing_def cache_issued_def split: option.splits if_splits prod.splits)
  qed (use assms Some in \<open>auto simp: resolve_cert_def get_or_create_def cache_issued_def split: if_splits prod.splits\<close>)
qed (use assms in \<open>simp add: resolve_cert_def\<close>)

text \<open>The names clients asked for, one after the other, each at its time.\<close>

definition cache_after :: "crypto \<Rightarrow> root_cert \<Rightarrow> (cert_env \<times> string option) list \<Rightarrow> leaf_cache" where
  "cache_after k rc visits = fold (\<lambda>(e, server) lc. snd (resolve_cert k e rc server lc)) visits Map.empty"

lemma cache_after_issued: "cache_issued k rc (now ` fst ` set visits) (cache_after k rc visits)"
proof (induction visits rule: rev_induct)
  case (snoc x visits)
  obtain e server where x: "x = (e, server)" by fastforce
  let ?ts = "now ` fst ` set (visits @ [x])"
  have "cache_issued k rc ?ts (cache_after k rc visits)"
    using snoc.IH issued_later [of k rc "now ` fst ` set visits" _ _ ?ts] unfolding cache_issued_def by (auto simp: subset_eq)
  moreover obtain r c where "resolve_cert k e rc server (cache_after k rc visits) = (r, c)" by fastforce
  ultimately show ?case using resolve_issued [of k e rc server "cache_after k rc visits" r c ?ts] x
    by (simp add: cache_after_def)
qed (simp add: cache_issued_def cache_after_def)

section \<open>Properties\<close>





section \<open>Examples\<close>

definition sample_wire :: string where
  "sample_wire = ''POST /order HTTP/1.1'' @ crlf @ ''Host: plain.example'' @ crlf @ ''Content-Length: 1'' @ crlf @ crlf @ ''x''"

definition sample_crypto :: crypto where
  "sample_crypto = \<lparr>root_key_ok = (\<lambda>_. True), issuer_ok = (\<lambda>_. True), fresh_key = (\<lambda>_. Some [7]), name_ok = (\<lambda>n. n \<noteq> []),
     sign_cert = (\<lambda>p key rc. Some (map (\<lambda>c. of_char c) (lp_common_name p))), certified = (\<lambda>_ _. True)\<rparr>"

definition sample_terminator :: tls_runtime where
  "sample_terminator = \<lparr>tr_crypto = sample_crypto, tr_root = \<lparr>rc_der = [1], rc_key = [2], rc_not_after = 9000\<rparr>,
     tr_server = \<lparr>hello_name = (\<lambda>_. Some ''a''), shake = (\<lambda>_ _. Some (H2Streams []))\<rparr>, tr_mitm = sample_mitm\<rparr>"



end
