(* ===== verification/Tables.thy ===== *)
theory Tables
  imports Domains "HOL-Library.AList"
begin

text \<open>
  What a start of the proxy takes from the manifest (\<open>crates/core/src/proxy.rs\<close>, the loops of \<open>start\<close> and
  the functions they use): the intercepted patterns, the lines of the hosts file, the pinned addresses,
  the substitute server names and the substitute upstream names. Sets and maps of the code are lists
  in insertion order here, one of the orders they may be iterated in.
\<close>

section \<open>One leaf\<close>

text \<open>The leaves of the groups that count: a group that is not explicitly on is skipped as a whole.\<close>

definition enabled_leaves :: "group list \<Rightarrow> attrs list" where
  "enabled_leaves groups = concat (map (\<lambda>g. if g_state g = Some True
     then concat (map (\<lambda>p. map attrs (filter (\<lambda>l. is_on (attrs l)) (all_leaves p))) (g_items g)) else []) groups)"

definition patterns :: "string \<Rightarrow> string list" where
  "patterns s = filter (\<lambda>d. d \<noteq> []) (map (\<lambda>d. to_lower (trim d)) (split_on CHR '';'' s))"

definition leaf_local_ips :: "attrs \<Rightarrow> ipaddr list" where
  "leaf_local_ips a = (if p_type a \<noteq> Normal then []
     else case Option.bind (forward_domain_names a) (\<lambda>v. parse_ip (trim v)) of
       Some ip \<Rightarrow> if ip \<in> set (ip_address a) then ip_address a else ip_address a @ [ip]
     | None \<Rightarrow> ip_address a)"

definition leaf_local_alias :: "attrs \<Rightarrow> string option" where
  "leaf_local_alias a = (if p_type a \<noteq> Normal then None
     else case forward_domain_names a of
       None \<Rightarrow> None
     | Some v \<Rightarrow> (let alias = trim v in if alias = [] \<or> parse_ip alias \<noteq> None then None else Some (to_lower alias)))"

definition manifest_asks_to_ignore_cert :: "group list \<Rightarrow> bool" where
  "manifest_asks_to_ignore_cert groups = list_ex ignore_ssl_cert_verification (enabled_leaves groups)"

section \<open>The tables\<close>

definition collect_fake_names :: "group list \<Rightarrow> (string \<times> string) list" where
  "collect_fake_names groups = concat (map (\<lambda>a. case fake_server_name a of
       None \<Rightarrow> []
     | Some n \<Rightarrow> (let n = to_lower (trim n) in if n = [] then [] else map (\<lambda>d. (d, n)) (patterns (match_domain_names a))))
     (enabled_leaves groups))"

definition collect_ips :: "group list \<Rightarrow> (string \<times> ipaddr list) list" where
  "collect_ips groups = concat (map (\<lambda>a. let ips = leaf_local_ips a in
     if ips = [] then [] else map (\<lambda>d. (d, ips)) (patterns (match_domain_names a))) (enabled_leaves groups))"

definition collect_domains :: "group list \<Rightarrow> string list" where
  "collect_domains groups = push_new [] (concat (map (\<lambda>a. patterns (match_domain_names a)) (enabled_leaves groups)))"

text \<open>An entry of \<open>ListenDomainNames\<close>: a host, or an address and a host; a leading \<open>*.\<close> is dropped.\<close>

definition listen_entry :: "string \<Rightarrow> string \<Rightarrow> string \<times> string" where
  "listen_entry default_ip h =
     (let (host, ip) = (case split_once CHR '' '' h of Some (ip, host) \<Rightarrow> (trim host, trim ip) | None \<Rightarrow> (h, default_ip)) in
      (case strip_prefix ''*.'' host of Some r \<Rightarrow> r | None \<Rightarrow> host, ip))"

definition listen_entries :: "string \<Rightarrow> group list \<Rightarrow> (string \<times> string) list" where
  "listen_entries default_ip groups = concat (map (\<lambda>a. map (listen_entry default_ip) (patterns (listen_domain_names a))) (enabled_leaves groups))"

text \<open>\<open>seen\<close> is the set the loop keeps beside its result.\<close>

fun push_entries :: "string list \<Rightarrow> (string \<times> string) list \<Rightarrow> (string \<times> string) list \<Rightarrow> (string \<times> string) list" where
  "push_entries seen out [] = out"
| "push_entries seen out ((host, ip) # es) =
     (if host \<noteq> [] \<and> host \<notin> set seen then push_entries (host # seen) (out @ [(host, ip)]) es else push_entries seen out es)"

definition collect_hosts :: "string \<Rightarrow> group list \<Rightarrow> (string \<times> string) list" where
  "collect_hosts default_ip groups = push_entries [] [] (listen_entries default_ip groups)"

definition alias_entries :: "group list \<Rightarrow> (string \<times> string) list" where
  "alias_entries groups = concat (map (\<lambda>a. case leaf_local_alias a of
       None \<Rightarrow> []
     | Some f \<Rightarrow> map (\<lambda>d. (d, f)) (patterns (match_domain_names a))) (enabled_leaves groups))"

definition collect_forward :: "group list \<Rightarrow> (string \<times> string) list" where
  "collect_forward groups = fold (\<lambda>(d, f). AList.update d f) (alias_entries groups) []"

text \<open>The targets of the aliases are taken out again, with their wildcard and their bare form.\<close>

definition bare_of :: "string \<Rightarrow> string" where
  "bare_of target = (case strip_prefix ''*.'' target of Some r \<Rightarrow> r | None \<Rightarrow> target)"

fun remove_targets :: "string list \<Rightarrow> string list \<times> (string \<times> string) list \<Rightarrow> string list \<times> (string \<times> string) list" where
  "remove_targets [] r = r"
| "remove_targets (target # ts) (ds, es) = remove_targets ts
     (removeAll (''*.'' @ target) (removeAll target ds), filter (\<lambda>(h, _). h \<noteq> target \<and> h \<noteq> bare_of target) es)"

record tables =
  t_domains :: "string list"
  t_hosts :: "(string \<times> string) list"
  t_ips :: "(string \<times> ipaddr list) list"
  t_fakes :: "(string \<times> string) list"
  t_forward :: "(string \<times> string) list"

definition collect_tables :: "string \<Rightarrow> group list \<Rightarrow> tables" where
  "collect_tables default_ip groups =
     (let fwd = collect_forward groups;
          (ds, es) = remove_targets (map snd fwd) (collect_domains groups, collect_hosts default_ip groups) in
      \<lparr>t_domains = ds, t_hosts = es, t_ips = collect_ips groups, t_fakes = collect_fake_names groups, t_forward = fwd\<rparr>)"

section \<open>Facts\<close>

lemma remove_targets_filter:
  "remove_targets ts (ds, es) = (filter (\<lambda>d. \<forall>t\<in>set ts. d \<noteq> t \<and> d \<noteq> ''*.'' @ t) ds,
     filter (\<lambda>(h, _). \<forall>t\<in>set ts. h \<noteq> t \<and> h \<noteq> bare_of t) es)"
proof (induction ts arbitrary: ds es)
  case (Cons t ts)
  then show ?case by (auto simp: removeAll_filter_not_eq case_prod_unfold conj_ac intro!: filter_cong)
qed simp

lemma push_entries_spec:
  "push_entries seen out es = out @ push_entries seen [] es"
proof (induction es arbitrary: seen out)
  case (Cons e es)
  obtain h i where "e = (h, i)" by (cases e)
  then show ?case using Cons.IH [of "h # seen" "out @ [(h, i)]"] Cons.IH [of "h # seen" "[(h, i)]"] Cons.IH [of seen out]
    by simp
qed simp

text \<open>The set beside the list makes the loop a plain first-match lookup.\<close>

lemma push_entries_lookup:
  "map_of (push_entries seen [] es) h = (if h = [] \<or> h \<in> set seen then None else map_of es h)"
proof (induction es arbitrary: seen)
  case (Cons e es)
  obtain k i where e: "e = (k, i)" by (cases e)
  show ?case
    unfolding e push_entries.simps push_entries_spec [of "k # seen" "[] @ [(k, i)]"] using Cons.IH [of "k # seen"] Cons.IH [of seen] by auto
qed simp

lemma push_entries_keys:
  "distinct (map fst (push_entries seen [] es)) \<and> set (map fst (push_entries seen [] es)) \<inter> set seen = {} \<and>
   [] \<notin> fst ` set (push_entries seen [] es)"
proof (induction es arbitrary: seen)
  case (Cons e es)
  obtain k i where e: "e = (k, i)" by (cases e)
  show ?case
    unfolding e push_entries.simps push_entries_spec [of "k # seen" "[] @ [(k, i)]"]
    using Cons.IH [of "k # seen"] Cons.IH [of seen] by auto
qed simp

lemma map_of_filter_key: "map_of (filter (\<lambda>(k, _). P k) xs) k = (if P k then map_of xs k else None)"
  by (induction xs) auto

lemma map_of_updates: "map_of (fold (\<lambda>(d, f). AList.update d f) es al) = map_of (rev es @ al)"
  by (induction es arbitrary: al) (auto simp: update_conv' map_add_def fun_eq_iff split: option.splits)

lemma distinct_updates: "distinct (map fst al) \<Longrightarrow> distinct (map fst (fold (\<lambda>(d, f). AList.update d f) es al))"
  by (induction es arbitrary: al) (auto simp: distinct_update)

lemma set_patterns: "d \<in> set (patterns s) \<Longrightarrow> d \<noteq> [] \<and> to_lower d = d \<and> trim d = d"
  by (auto simp: patterns_def)

text \<open>What every start of the proxy can rely on.\<close>

definition tables_ok :: "tables \<Rightarrow> bool" where
  "tables_ok T \<longleftrightarrow> distinct (t_domains T) \<and> list_all (\<lambda>d. d \<noteq> [] \<and> to_lower d = d \<and> trim d = d) (t_domains T) \<and>
     distinct (map fst (t_hosts T)) \<and> [] \<notin> fst ` set (t_hosts T) \<and> distinct (map fst (t_forward T)) \<and>
     list_all (\<lambda>(p, ips). p \<noteq> [] \<and> ips \<noteq> []) (t_ips T) \<and> list_all (\<lambda>(p, n). p \<noteq> [] \<and> n \<noteq> []) (t_fakes T) \<and>
     list_all (\<lambda>(_, t). t \<noteq> [] \<and> t \<notin> set (t_domains T) \<and> ''*.'' @ t \<notin> set (t_domains T) \<and>
        t \<notin> fst ` set (t_hosts T)) (t_forward T)"

lemma collect_tables_parts:
  "collect_tables d gs = \<lparr>t_domains = filter (\<lambda>x. \<forall>t\<in>set (map snd (collect_forward gs)). x \<noteq> t \<and> x \<noteq> ''*.'' @ t) (collect_domains gs),
     t_hosts = filter (\<lambda>(h, _). \<forall>t\<in>set (map snd (collect_forward gs)). h \<noteq> t \<and> h \<noteq> bare_of t) (collect_hosts d gs),
     t_ips = collect_ips gs, t_fakes = collect_fake_names gs, t_forward = collect_forward gs\<rparr>"
  by (simp add: collect_tables_def Let_def remove_targets_filter)

lemma snd_update: "snd ` set (AList.update d f al) \<subseteq> insert f (snd ` set al)"
  by (induction al) auto

lemma snd_updates: "snd ` set (fold (\<lambda>(d, f). AList.update d f) es al) \<subseteq> snd ` set es \<union> snd ` set al"
proof (induction es arbitrary: al)
  case (Cons e es)
  obtain d f where e: "e = (d, f)" by (cases e)
  let ?S = "snd ` set (fold (\<lambda>(d, f). AList.update d f) es (AList.update d f al))"
  have "?S \<subseteq> snd ` set es \<union> insert f (snd ` set al)"
    using Cons.IH [of "AList.update d f al"] snd_update [of d f al] by blast
  then show ?case by (simp add: e)
qed simp

lemma collect_forward_targets:
  assumes "t \<in> snd ` set (collect_forward gs)"
  shows "t \<noteq> []"
proof -
  have "t \<in> snd ` set (alias_entries gs)"
    using assms snd_updates [of "alias_entries gs" "[]"] unfolding collect_forward_def by auto
  then show ?thesis
    by (auto simp: alias_entries_def leaf_local_alias_def Let_def to_lower_def split: option.splits if_splits)
qed

section \<open>Properties\<close>

text \<open>C32. The tables of a start are well formed whatever the manifest holds: patterns are non-empty, lower case, trimmed and
  unique, hosts entries name each host once, pinned address lists and substitute names are never empty, each
  host has one alias, and no alias is itself intercepted by an entry of its own, as a host or as a wildcard.\<close>

theorem collect_tables_ok: "tables_ok (collect_tables default_ip groups)"
proof -
  let ?T = "collect_tables default_ip groups"
  have "distinct (t_domains ?T)"
    by (simp add: collect_tables_parts collect_domains_def distinct_push_new)
  moreover have "list_all (\<lambda>d. d \<noteq> [] \<and> to_lower d = d \<and> trim d = d) (t_domains ?T)"
    using set_patterns by (fastforce simp: collect_tables_parts collect_domains_def list_all_iff)
  moreover have "distinct (map fst (t_hosts ?T)) \<and> [] \<notin> fst ` set (t_hosts ?T)"
    using push_entries_keys [of "[]" "listen_entries default_ip groups"]
    by (auto simp: collect_tables_parts collect_hosts_def intro: distinct_map_filter)
  moreover have "distinct (map fst (t_forward ?T))"
    by (simp add: collect_tables_parts collect_forward_def distinct_updates)
  moreover have "list_all (\<lambda>(p, ips). p \<noteq> [] \<and> ips \<noteq> []) (t_ips ?T)"
    using set_patterns by (fastforce simp: collect_tables_parts collect_ips_def Let_def list_all_iff split: if_splits)
  moreover have "list_all (\<lambda>(p, n). p \<noteq> [] \<and> n \<noteq> []) (t_fakes ?T)"
    using set_patterns by (fastforce simp: collect_tables_parts collect_fake_names_def Let_def list_all_iff split: if_splits option.splits)
  moreover have "list_all (\<lambda>(_, t). t \<noteq> [] \<and> t \<notin> set (t_domains ?T) \<and> ''*.'' @ t \<notin> set (t_domains ?T) \<and>
      t \<notin> fst ` set (t_hosts ?T)) (t_forward ?T)"
    using collect_forward_targets [of _ groups] by (fastforce simp: collect_tables_parts list_all_iff)
  ultimately show ?thesis by (simp add: tables_ok_def)
qed

text \<open>C13. The loops with their sets and maps agree with plain lookups in the manifest: a pattern is intercepted when some
  enabled leaf lists it and no alias removes it, a host gets the first address listed for it, and an alias
  is the last one listed.\<close>

theorem collect_tables_reference:
  "set (t_domains (collect_tables default_ip groups)) =
     (\<Union>a\<in>set (enabled_leaves groups). set (patterns (match_domain_names a))) -
       (snd ` set (collect_forward groups) \<union> (\<lambda>t. ''*.'' @ t) ` snd ` set (collect_forward groups)) \<and>
   map_of (t_hosts (collect_tables default_ip groups)) h =
     (if h \<in> {[]} \<union> snd ` set (collect_forward groups) \<union> bare_of ` snd ` set (collect_forward groups) then None
      else map_of (listen_entries default_ip groups) h) \<and>
   map_of (t_forward (collect_tables default_ip groups)) = map_of (rev (alias_entries groups))"
  (is "?ds \<and> ?hs \<and> ?fs")
proof (intro conjI)
  show ?ds by (auto simp: collect_tables_parts collect_domains_def)
  show ?hs by (auto simp add: collect_tables_parts map_of_filter_key collect_hosts_def push_entries_lookup)
  show ?fs by (simp add: collect_tables_parts collect_forward_def map_of_updates)
qed

end
