(* ===== verification/Data.thy ===== *)
theory Data
  imports UiState Tables
begin

text \<open>
  The built-in manifest (\<open>crates/core/src/data.rs\<close>) and the service that holds the groups
  (\<open>crates/core/src/service.rs\<close>), with the facts that connect the choices made in the user interface with
  what the proxy takes from the manifest. Texts are the UTF-8 bytes of the source.
\<close>

section \<open>The built-in manifest\<close>

definition leaf :: "string \<Rightarrow> string \<Rightarrow> u32 \<Rightarrow> string \<Rightarrow> project" where
  "leaf i name order ds = Project (default_attrs\<lparr>p_id := i, p_name := name, p_order := order, match_domain_names := ds,
     listen_domain_names := ds, three_state := Some True\<rparr>) []"

definition leaf_fwd :: "string \<Rightarrow> string \<Rightarrow> u32 \<Rightarrow> string \<Rightarrow> string \<Rightarrow> project" where
  "leaf_fwd i name order ds fwd =
     (case leaf i name order ds of Project a cs \<Rightarrow> Project (a\<lparr>forward_domain_names := Some fwd\<rparr>) cs)"

definition grp :: "string \<Rightarrow> u32 \<Rightarrow> project list \<Rightarrow> group" where
  "grp name order ps = \<lparr>g_name = name, icon_url = None, g_order = order, g_state = Some True, g_items = ps\<rparr>"

definition steam_leaves :: "project list" where
  "steam_leaves = [
     leaf_fwd ''steam-community'' (''Steam '' @ str_of [0xE7, 0xA4, 0xBE, 0xE5, 0x8C, 0xBA]) 4 ''steamcommunity.com'' ''steamcommunity-a.akamaihd.net'',
     leaf ''steam-image'' (''Steam '' @ str_of [0xE5, 0x9B, 0xBE, 0xE7, 0x89, 0x87]) 1 ''steamcdn-a.akamaihd.net'',
     leaf ''steam-static'' (''Steam '' @ str_of [0xE9, 0x9D, 0x99, 0xE6, 0x80, 0x81, 0xE8, 0xB5, 0x84, 0xE6, 0xBA, 0x90]) 2 ''community.steamstatic.com'',
     leaf ''steam-update'' (''Steam '' @ str_of [0xE6, 0x9B, 0xB4, 0xE6, 0x96, 0xB0]) 3 ''media.steampowered.com'',
     leaf ''steam-store'' (''Steam '' @ str_of [0xE5, 0x95, 0x86, 0xE5, 0xBA, 0x97]) 5 ''store.steampowered.com'',
     leaf ''steam-community-video'' (''Steam '' @ str_of [0xE7, 0xA4, 0xBE, 0xE5, 0x8C, 0xBA, 0xE8, 0xA7, 0x86, 0xE9, 0xA2, 0x91, 0xE5, 0xB0, 0x81, 0xE9, 0x9D, 0xA2, 0xE5, 0x8A, 0xA0, 0xE8, 0xBD, 0xBD] @ '' Beta'') 6 ''img.youtube.com'',
     leaf ''steam-baiyun-cdn'' (''Steam '' @ str_of [0xE7, 0x99, 0xBD, 0xE5, 0xB1, 0xB1, 0xE4, 0xBA, 0x91] @ ''CDN '' @ str_of [0xE4, 0xBF, 0xAE, 0xE5, 0xA4, 0x8D]) 7 ''*.st.dl.eccdnx.com'',
     leaf ''steam-discussion'' (''Steam '' @ str_of [0xE8, 0xAE, 0xA8, 0xE8, 0xAE, 0xBA] @ ''/'' @ str_of [0xE7, 0x95, 0x99, 0xE8, 0xA8, 0x80] @ '' '' @ str_of [0xE4, 0xBF, 0xAE, 0xE5, 0xA4, 0x8D, 0xE9, 0xA1, 0xB9] @ '' Beta'') 8 [],
     leaf ''steam-discussion-ipv4'' (''Steam '' @ str_of [0xE8, 0xAE, 0xA8, 0xE8, 0xAE, 0xBA] @ ''/'' @ str_of [0xE7, 0x95, 0x99, 0xE8, 0xA8, 0x80] @ '' (IPv4)'') 9 ''*.steamcommunity.com'']"

definition github_leaves :: "project list" where
  "github_leaves = [
     leaf ''gh-huggingface'' ''huggingface.co Beta'' 1 ''huggingface.co'',
     leaf ''gh-dev'' ''Github Dev'' 2 ''github.dev'',
     leaf ''gh-api'' ''Github Api'' 3 ''api.github.com'',
     leaf ''gh-assets'' ''Github Assets'' 4 ''github.githubassets.com'',
     leaf ''gh-education'' ''Github Education'' 5 ''education.github.com'',
     leaf ''gh-resources'' ''Github Resources'' 6 ''resources.github.com'',
     leaf ''gh-uploads'' ''Github Uploads'' 7 ''uploads.github.com'',
     leaf ''gh-archiveprogram'' ''Github Archiveprogram'' 8 ''archiveprogram.github.com'',
     leaf ''gh-usercontent'' ''Github UserContent'' 9 ''githubusercontent.com'',
     leaf ''gh-website'' (''Github '' @ str_of [0xE7, 0xBD, 0x91, 0xE7, 0xAB, 0x99] @ '' (Git Push)'') 10 ''github.com'',
     leaf ''gh-app'' ''Github App'' 11 ''githubapp.com'',
     leaf ''gh-docker'' ''Docker Hub'' 12 ''hub.docker.com'',
     leaf ''gh-greasyfork'' ''greasyfork Beta'' 13 ''greasyfork.org'',
     leaf ''gh-io'' ''Github.io'' 14 ''github.io'']"

definition built_in_groups :: "group list" where
  "built_in_groups = [grp (''Steam '' @ str_of [0xE6, 0x9C, 0x8D, 0xE5, 0x8A, 0xA1]) 1 steam_leaves, grp ''Github'' 2 github_leaves]"

section \<open>The service\<close>

text \<open>The cache file: missing, not readable, or its bytes; \<open>parse\<close> is the JSON reader.\<close>

datatype cache_file = Missing | Unreadable | Contents bytes

datatype manifest_source = NoSource | LocalCache | BuiltIn

record service =
  s_groups :: "group list"
  s_source :: manifest_source
  s_ids :: "string list"

definition new_service :: service where
  "new_service = \<lparr>s_groups = [], s_source = NoSource, s_ids = []\<rparr>"

definition store :: "group list \<Rightarrow> manifest_source \<Rightarrow> service \<Rightarrow> service" where
  "store gs src s = s\<lparr>s_groups := gs, s_source := src\<rparr>"

definition load :: "(bytes \<Rightarrow> group list option) \<Rightarrow> cache_file \<Rightarrow> service \<Rightarrow> group list \<times> service" where
  "load parse f s = (case f of
     Contents b \<Rightarrow> (case parse b of
       Some gs \<Rightarrow> if gs \<noteq> [] then (gs, store gs LocalCache s) else (built_in_groups, store built_in_groups BuiltIn s)
     | None \<Rightarrow> (built_in_groups, store built_in_groups BuiltIn s))
   | _ \<Rightarrow> (built_in_groups, store built_in_groups BuiltIn s))"

definition apply_enabled :: "string list \<Rightarrow> service \<Rightarrow> service" where
  "apply_enabled ids s = s\<lparr>s_groups := map (\<lambda>g. g\<lparr>g_items := map (restore_enable (set ids)) (g_items g)\<rparr>) (s_groups s), s_ids := ids\<rparr>"

section \<open>What the proxy takes from a selection\<close>

definition group_leaves :: "group \<Rightarrow> attrs list" where
  "group_leaves g = map attrs (concat (map all_leaves (g_items g)))"

definition taken_of :: "group \<Rightarrow> attrs list" where
  "taken_of g = (if g_state g = Some True then filter is_on (group_leaves g) else [])"

lemma enabled_leaves_taken: "enabled_leaves gs = concat (map taken_of gs)"
proof -
  have "concat (map (\<lambda>p. map attrs (filter (\<lambda>l. is_on (attrs l)) (all_leaves p))) (g_items g)) = filter is_on (group_leaves g)" for g
    by (simp add: group_leaves_def filter_concat map_concat filter_map comp_def)
  then show ?thesis by (auto simp: enabled_leaves_def taken_of_def intro!: arg_cong [of _ _ concat])
qed

lemma on_count_all: "on_count ls = length ls \<longleftrightarrow> list_all (\<lambda>l. is_on (attrs l)) ls"
proof -
  have "length (filter P xs) = length xs \<longleftrightarrow> list_all P xs" for P :: "project \<Rightarrow> bool" and xs
    by (metis filter_True length_filter_less list_all_iff less_irrefl)
  then show ?thesis by (simp add: on_count_def)
qed

lemma taken_consistent:
  assumes "group_consistent g"
  shows "taken_of g = (if list_all is_on (group_leaves g) then group_leaves g else [])"
proof -
  let ?ls = "concat (map all_leaves (g_items g))"
  have s: "g_state g = group_state_of (on_count ?ls) (length ?ls)" using assms by (simp add: group_consistent_def)
  have a: "list_all is_on (group_leaves g) \<longleftrightarrow> on_count ?ls = length ?ls"
    by (simp add: group_leaves_def on_count_all list.pred_map comp_def)
  show ?thesis
  proof (cases "length ?ls = 0")
    case True
    then show ?thesis by (simp add: taken_of_def group_leaves_def)
  next
    case False
    then have "g_state g = Some True \<longleftrightarrow> list_all is_on (group_leaves g)"
      unfolding a s group_state_of_def by simp
    then show ?thesis by (auto simp: taken_of_def list_all_iff intro!: filter_True)
  qed
qed

lemma set_leaf_consistent: "set_leaf gs i on = (gs', True) \<Longrightarrow> list_all group_consistent gs'"
  by (auto simp: set_leaf_def list_all_iff recompute_def recompute_group_consistent split: prod.splits if_splits)

section \<open>Properties\<close>


section \<open>Examples\<close>

definition without_dev :: "group list" where
  "without_dev = fst (set_leaf built_in_groups ''gh-dev'' False)"

lemma without_dev_found: "set_leaf built_in_groups ''gh-dev'' False = (without_dev, True)"
proof -
  have "snd (set_leaf built_in_groups ''gh-dev'' False) = True" by code_simp
  then show ?thesis unfolding without_dev_def by (metis prod.collapse)
qed


text \<open>The user interface still shows the other leaves of the group as enabled.\<close>

lemma one_leaf_off_drops_the_group:
  "''gh-website'' \<in> set (groups_enabled_ids without_dev) \<and> \<not> is_accelerated ''github.com'' (t_domains (collect_tables ''127.0.0.1'' without_dev))"
  by code_simp

text \<open>After a restart the same selection is accelerated: restoring it sets the leaves and leaves the state of the group as the manifest has it.\<close>

lemma restart_brings_group_back:
  "let gs = s_groups (apply_enabled (groups_enabled_ids without_dev) (store built_in_groups BuiltIn new_service));
       ds = t_domains (collect_tables ''127.0.0.1'' gs) in
   groups_enabled_ids gs = groups_enabled_ids without_dev \<and> is_accelerated ''github.com'' ds \<and> \<not> is_accelerated ''github.dev'' ds"
  by code_simp

text \<open>The tables of the built-in manifest: every pattern is intercepted, and the one alias is not.\<close>

lemma built_in_tables:
  "t_forward (collect_tables ''127.0.0.1'' built_in_groups) = [(''steamcommunity.com'', ''steamcommunity-a.akamaihd.net'')]"
  "is_accelerated ''steamcommunity-a.akamaihd.net'' (t_domains (collect_tables ''127.0.0.1'' built_in_groups)) = False"
  "length (t_domains (collect_tables ''127.0.0.1'' built_in_groups)) = 22"
  by code_simp+

text \<open>Only the alias itself and its own wildcard are taken out of the interception; a wider pattern of another leaf still
  covers it.\<close>

lemma wildcard_still_covers_alias:
  "is_accelerated ''edge.cdn.com'' (t_domains (collect_tables ''127.0.0.1''
     [grp ''G'' 1 [leaf_fwd ''a'' ''A'' 1 ''a.com'' ''edge.cdn.com'', leaf ''b'' ''B'' 2 ''*.cdn.com'']]))"
  by code_simp

end
