(* ===== verification/Manager.thy ===== *)
theory Manager
  imports Mitm Hosts Tables SysProxy Cert
begin

text \<open>
  The proxy manager (\<open>crates/core/src/proxy.rs\<close>): starting and stopping the acceleration in each of the four modes.
  The state is the manager's \<open>Inner\<close>, the listeners and interceptors that run, and what a start changes in the
  system: the hosts file, the proxy settings of the registry and the certificates. A listener lives as long as
  its task is not aborted and its runtime is held. What the system answers during one call (ports, registry,
  certificates) is the parameter \<open>start_env\<close>. The phases of a start, between which the code gives up its lock,
  are separate definitions, so that they can be interleaved with other calls.
\<close>

section \<open>Judgements\<close>

definition proxy_bind_ip :: "string \<Rightarrow> ipaddr" where
  "proxy_bind_ip configured = (case parse_ip (trim configured) of
     Some ip \<Rightarrow> if is_unspecified ip then loopback4 else ip
   | None \<Rightarrow> loopback4)"

definition hosts_default_ip :: "proxy_settings \<Rightarrow> string" where
  "hosts_default_ip s = (case parse_ip (trim (system_proxy_ip s)) of
     Some ip \<Rightarrow> if is_unspecified ip then ''127.0.0.1'' else show_ip ip
   | None \<Rightarrow> ''127.0.0.1'')"

definition hosts_bind_ip :: "proxy_settings \<Rightarrow> ipaddr" where
  "hosts_bind_ip s = (case parse_ip (trim (system_proxy_ip s)) of Some ip \<Rightarrow> ip | None \<Rightarrow> unspecified4)"

definition is_decrypting_mode :: "proxy_mode \<Rightarrow> bool" where
  "is_decrypting_mode mode = (mode = System \<or> mode = Pac \<or> mode = DnsIntercept)"

definition should_decrypt_locally :: "proxy_mode \<Rightarrow> bool \<Rightarrow> bool \<Rightarrow> bool" where
  "should_decrypt_locally mode decrypt_enabled cert_installed = (is_decrypting_mode mode \<and> decrypt_enabled \<and> cert_installed)"

datatype decryption_site = SystemOrPacForward | DnsInterceptForward | DnsIntercept443

text \<open>The messages a start logs: the ignored request of the manifest, and a bare tunnel with its reason
  (the switch is on, so the certificate is not trusted; or the switch is off).\<close>

datatype message = IgnoreCertUnsupported | BareTunnel decryption_site bool

section \<open>State\<close>

datatype role = ServeMitm mitm_runtime | ServeProxy fwd_runtime "mitm_runtime option" | ServeTunnel fwd_runtime

record listener =
  l_task :: nat
  l_rt :: nat
  l_addr :: sockaddr
  l_role :: role

record manager =
  running :: bool
  cur_mode :: "proxy_mode option"
  runtime :: "nat option"
  tasks :: "nat list"
  hook_stop :: "nat option"
  logging :: bool
  started :: bool
  g_settings :: proxy_settings
  g_tables :: tables

record machine =
  mgr :: manager
  listeners :: "listener list"
  hooks :: "nat list"
  next_id :: nat
  messages :: "message list"
  certs :: cert_state
  hostsf :: hosts_file
  reg :: registry

record start_env =
  can_runtime :: bool
  bindable :: "sockaddr list \<Rightarrow> sockaddr \<Rightarrow> bool"
  cert_env_of :: cert_env
  access :: reg_access

datatype start_error = RuntimeFailed | AlreadyRunning | CertFailed | HostsFailed | PortTaken u16 | SystemProxyFailed | PacFailed

definition empty_tables :: tables where
  "empty_tables = \<lparr>t_domains = [], t_hosts = [], t_ips = [], t_fakes = [], t_forward = []\<rparr>"

definition new_proxy :: manager where
  "new_proxy = \<lparr>running = False, cur_mode = None, runtime = None, tasks = [], hook_stop = None, logging = False, started = False,
     g_settings = default_settings, g_tables = empty_tables\<rparr>"

text \<open>The listeners that accept connections, while starts in progress hold the runtimes \<open>held\<close>.\<close>

definition listening :: "nat list \<Rightarrow> machine \<Rightarrow> listener list" where
  "listening held m = filter (\<lambda>l. l_rt l \<in> set held \<or> runtime (mgr m) = Some (l_rt l)) (listeners m)"

section \<open>Stopping\<close>

definition stop_inner :: "machine \<Rightarrow> machine" where
  "stop_inner m = m\<lparr>
     mgr := (mgr m)\<lparr>running := False, cur_mode := None, runtime := None, tasks := [], hook_stop := None, logging := False, started := False\<rparr>,
     listeners := filter (\<lambda>l. l_task l \<notin> set (tasks (mgr m))) (listeners m),
     hooks := (case hook_stop (mgr m) of Some h \<Rightarrow> removeAll h (hooks m) | None \<Rightarrow> hooks m)\<rparr>"

definition stop :: "start_env \<Rightarrow> machine \<Rightarrow> machine" where
  "stop env m = (let mode = cur_mode (mgr m); m = stop_inner m in
     case mode of
       Some Hosts \<Rightarrow> m\<lparr>hostsf := snd (remove_hosts_at (hostsf m))\<rparr>
     | Some System \<Rightarrow> m\<lparr>reg := snd (set_system_proxy (access env) False [] 0 (reg m))\<rparr>
     | Some Pac \<Rightarrow> m\<lparr>reg := snd (set_pac_proxy (access env) False [] (reg m))\<rparr>
     | _ \<Rightarrow> m)"

section \<open>The phases of a start\<close>

text \<open>\<open>start_blocking\<close> first hands the manager a runtime of its own; one it held before is dropped with it.\<close>

definition acquire :: "machine \<Rightarrow> nat \<times> machine" where
  "acquire m = (next_id m, m\<lparr>mgr := (mgr m)\<lparr>runtime := Some (next_id m)\<rparr>, next_id := Suc (next_id m)\<rparr>)"

text \<open>Under the lock: refuse a second start, otherwise publish the tables and mark the manager as running.\<close>

definition begin_start :: "start_env \<Rightarrow> proxy_mode \<Rightarrow> proxy_settings \<Rightarrow> group list \<Rightarrow> machine \<Rightarrow> (start_error + root_cert option) \<times> machine" where
  "begin_start env mode s groups m =
     (if running (mgr m) then (Inl AlreadyRunning, m)
      else (case Cert.root (cert_env_of env) (certs m) of (r, c) \<Rightarrow>
        (Inr (case r of Inr rc \<Rightarrow> Some rc | Inl _ \<Rightarrow> None),
         m\<lparr>mgr := (mgr m)\<lparr>g_tables := collect_tables (hosts_default_ip s) groups, g_settings := s, logging := True,
             running := True, cur_mode := Some mode, started := True\<rparr>,
           messages := messages m @ (if manifest_asks_to_ignore_cert groups then [IgnoreCertUnsupported] else []),
           certs := c\<rparr>)))"

definition mitm_rt_of :: "proxy_settings \<Rightarrow> machine \<Rightarrow> mitm_runtime" where
  "mitm_rt_of s m = (let T = g_tables (mgr m) in \<lparr>m_config = s, m_domains = t_domains T, m_forward = t_forward T,
     m_configured_ips = t_ips T, m_fake_names = t_fakes T\<rparr>)"

definition fwd_rt_of :: "proxy_settings \<Rightarrow> bool \<Rightarrow> machine \<Rightarrow> fwd_runtime" where
  "fwd_rt_of s on m = (let T = g_tables (mgr m) in \<lparr>config = s, domains = t_domains T, forward = t_forward T,
     configured_ips = t_ips T, mitm_on = on\<rparr>)"

definition spawn :: "nat \<Rightarrow> sockaddr \<Rightarrow> role \<Rightarrow> machine \<Rightarrow> nat \<times> machine" where
  "spawn rt addr r m = (next_id m, m\<lparr>listeners := listeners m @ [\<lparr>l_task = next_id m, l_rt = rt, l_addr = addr, l_role = r\<rparr>],
     next_id := Suc (next_id m)\<rparr>)"

definition push_tasks :: "nat list \<Rightarrow> machine \<Rightarrow> machine" where
  "push_tasks ids m = m\<lparr>mgr := (mgr m)\<lparr>tasks := tasks (mgr m) @ ids\<rparr>\<rparr>"

text \<open>Binding fails when the address is taken, by another program or by a listener of ours; \<open>extra\<close> are the sockets the
  start itself holds.\<close>

definition can_bind :: "start_env \<Rightarrow> nat list \<Rightarrow> sockaddr list \<Rightarrow> sockaddr \<Rightarrow> machine \<Rightarrow> bool" where
  "can_bind env held extra addr m = bindable env (extra @ map l_addr (listening held m)) addr"

definition root_of :: "start_env \<Rightarrow> machine \<Rightarrow> root_cert option \<times> machine" where
  "root_of env m = (case Cert.root (cert_env_of env) (certs m) of (r, c) \<Rightarrow>
     (case r of Inr rc \<Rightarrow> Some rc | Inl _ \<Rightarrow> None, m\<lparr>certs := c\<rparr>))"

definition installed :: "start_env \<Rightarrow> machine \<Rightarrow> bool \<times> machine" where
  "installed env m = (case is_installed (cert_env_of env) (certs m) of (v, c) \<Rightarrow> (v, m\<lparr>certs := c\<rparr>))"

definition say :: "message list \<Rightarrow> machine \<Rightarrow> machine" where
  "say ms m = m\<lparr>messages := messages m @ ms\<rparr>"

text \<open>The gate: whether this start decrypts, the message when it does not, and the runtime of the decryption.\<close>

definition gate :: "start_env \<Rightarrow> proxy_mode \<Rightarrow> proxy_settings \<Rightarrow> machine \<Rightarrow> mitm_runtime option \<times> machine" where
  "gate env mode s m = (case installed env m of (inst, m) \<Rightarrow>
     (let armed = should_decrypt_locally mode (enable_tls_decryption s) inst;
          site = (if mode = System \<or> mode = Pac then SystemOrPacForward else DnsInterceptForward);
          m = say (if is_decrypting_mode mode \<and> \<not> armed then [BareTunnel site (enable_tls_decryption s)] else []) m in
      if armed then (case root_of env m of (r, m) \<Rightarrow> (map_option (\<lambda>_. mitm_rt_of s m) r, m)) else (None, m)))"

text \<open>The four branches of the mode.\<close>

definition serve_hosts :: "start_env \<Rightarrow> nat list \<Rightarrow> nat \<Rightarrow> proxy_settings \<Rightarrow> machine \<Rightarrow> (start_error + unit) \<times> machine" where
  "serve_hosts env held rt s m = (case root_of env m of
     (None, m) \<Rightarrow> (Inl CertFailed, stop_inner m)
   | (Some rc, m) \<Rightarrow>
       (let entries = t_hosts (g_tables (mgr m));
            (written, m) = (if entries = [] then (Inr (), m)
              else case update_hosts_at entries (hostsf m) of (r, f) \<Rightarrow> (r, m\<lparr>hostsf := f\<rparr>)) in
        case written of
          Inl e \<Rightarrow> (Inl HostsFailed, stop_inner m)
        | Inr _ \<Rightarrow>
            (let addr = (hosts_bind_ip s, 443) in
             if \<not> can_bind env held [] addr m
             then (Inl (PortTaken 443), let m = stop_inner m in m\<lparr>hostsf := snd (remove_hosts_at (hostsf m))\<rparr>)
             else (case spawn rt addr (ServeMitm (mitm_rt_of s m)) m of (i, m) \<Rightarrow> (Inr (), push_tasks [i] m)))))"

text \<open>System and PAC mode differ in what they write to the registry; a failed write stops the listener again.\<close>

definition serve_forward :: "start_env \<Rightarrow> nat list \<Rightarrow> nat \<Rightarrow> proxy_settings \<Rightarrow> mitm_runtime option \<Rightarrow> start_error \<Rightarrow>
    (ipaddr \<Rightarrow> registry \<Rightarrow> reg_result) \<Rightarrow> machine \<Rightarrow> (start_error + unit) \<times> machine" where
  "serve_forward env held rt s mitm failure announce m =
     (let ip = proxy_bind_ip (system_proxy_ip s); addr = (ip, system_proxy_port s) in
      if \<not> can_bind env held [] addr m then (Inl (PortTaken (system_proxy_port s)), stop_inner m)
      else (case spawn rt addr (ServeProxy (fwd_rt_of s (mitm \<noteq> None) m) mitm) m of
        (i, m) \<Rightarrow> (case announce ip (reg m) of
          (Inl e, g) \<Rightarrow> (Inl failure, stop_inner (push_tasks [i] (m\<lparr>reg := g\<rparr>)))
        | (Inr _, g) \<Rightarrow> (Inr (), push_tasks [i] (m\<lparr>reg := g\<rparr>)))))"

definition pac_url :: "ipaddr \<Rightarrow> u16 \<Rightarrow> string" where
  "pac_url ip port = ''http://'' @ format_host_port (show_ip ip) port @ ''/pac''"

definition serve_system :: "start_env \<Rightarrow> nat list \<Rightarrow> nat \<Rightarrow> proxy_settings \<Rightarrow> mitm_runtime option \<Rightarrow> machine \<Rightarrow> (start_error + unit) \<times> machine" where
  "serve_system env held rt s mitm = serve_forward env held rt s mitm SystemProxyFailed
     (\<lambda>ip. set_system_proxy (access env) True (show_ip ip) (system_proxy_port s))"

definition serve_pac_mode :: "start_env \<Rightarrow> nat list \<Rightarrow> nat \<Rightarrow> proxy_settings \<Rightarrow> mitm_runtime option \<Rightarrow> machine \<Rightarrow> (start_error + unit) \<times> machine" where
  "serve_pac_mode env held rt s mitm = serve_forward env held rt s mitm PacFailed
     (\<lambda>ip. set_pac_proxy (access env) True (pac_url ip (system_proxy_port s)))"

abbreviation loopback6 :: ipaddr where "loopback6 \<equiv> V6 (replicate 15 0 @ [1])"

text \<open>The 443 listeners of the interception: decrypting, or relaying end to end.\<close>

fun spawn_all :: "nat \<Rightarrow> sockaddr list \<Rightarrow> role \<Rightarrow> machine \<Rightarrow> nat list \<times> machine" where
  "spawn_all rt [] r m = ([], m)"
| "spawn_all rt (a # as) r m = (case spawn rt a r m of (i, m) \<Rightarrow> (case spawn_all rt as r m of (is, m) \<Rightarrow> (i # is, m)))"

definition serve_intercept :: "start_env \<Rightarrow> nat list \<Rightarrow> nat \<Rightarrow> proxy_settings \<Rightarrow> mitm_runtime option \<Rightarrow> machine \<Rightarrow> (start_error + unit) \<times> machine" where
  "serve_intercept env held rt s mitm m =
     (let a443 = (loopback4, 443); fwd = (proxy_bind_ip (system_proxy_ip s), system_proxy_port s) in
      if \<not> can_bind env held [] a443 m then (Inl (PortTaken 443), stop_inner m)
      else if \<not> can_bind env held [a443] fwd m then (Inl (PortTaken (system_proxy_port s)), stop_inner m)
      else
       (let cfg = s\<lparr>use_doh := True\<rparr>; b443 = (loopback6, 443);
            all443 = a443 # (if can_bind env held [a443, fwd] b443 m then [b443] else []) in
        case installed env m of (inst, m) \<Rightarrow>
         (let decrypt = should_decrypt_locally DnsIntercept (enable_tls_decryption s) inst;
              m = say (if decrypt then [] else [BareTunnel DnsIntercept443 (enable_tls_decryption s)]) m in
          case spawn_all rt all443 (if decrypt then ServeMitm (mitm_rt_of cfg m) else ServeTunnel (fwd_rt_of cfg False m)) m of (is, m) \<Rightarrow>
         (case spawn rt fwd (ServeProxy (fwd_rt_of cfg (mitm \<noteq> None) m) mitm) m of (i, m) \<Rightarrow>
            (Inr (), let h = next_id m; m = push_tasks (is @ [i]) m in
              m\<lparr>mgr := (mgr m)\<lparr>hook_stop := Some h\<rparr>, hooks := hooks m @ [h], next_id := Suc h\<rparr>)))))"

definition serve :: "start_env \<Rightarrow> nat list \<Rightarrow> nat \<Rightarrow> proxy_mode \<Rightarrow> proxy_settings \<Rightarrow> machine \<Rightarrow> (start_error + unit) \<times> machine" where
  "serve env held rt mode s m = (case gate env mode s m of (mitm, m) \<Rightarrow> (case mode of
     Hosts \<Rightarrow> serve_hosts env held rt s m
   | System \<Rightarrow> serve_system env held rt s mitm m
   | Pac \<Rightarrow> serve_pac_mode env held rt s mitm m
   | DnsIntercept \<Rightarrow> serve_intercept env held rt s mitm m))"

text \<open>Afterwards the runtime is given up again when the start failed.\<close>

definition finish :: "(start_error + unit) \<Rightarrow> machine \<Rightarrow> machine" where
  "finish r m = (case r of Inl _ \<Rightarrow> m\<lparr>mgr := (mgr m)\<lparr>runtime := None\<rparr>\<rparr> | Inr _ \<Rightarrow> m)"

definition start_blocking :: "start_env \<Rightarrow> proxy_mode \<Rightarrow> proxy_settings \<Rightarrow> group list \<Rightarrow> machine \<Rightarrow> (start_error + unit) \<times> machine" where
  "start_blocking env mode s groups m =
     (if \<not> can_runtime env then (Inl RuntimeFailed, m)
      else (case acquire m of (rt, m) \<Rightarrow>
        (case begin_start env mode s groups m of
          (Inl e, m) \<Rightarrow> (Inl e, finish (Inl e) m)
        | (Inr _, m) \<Rightarrow> (case serve env [rt] rt mode s m of (r, m) \<Rightarrow> (r, finish r m)))))"

section \<open>What the steps leave alone\<close>

lemma root_verdict: "Cert.root e c = (r, c') \<Longrightarrow> verdict c' = verdict c"
  by (auto simp: Cert.root_def Cert.load_def generate_def Let_def split: option.splits prod.splits if_splits)

lemma is_installed_verdict:
  "is_installed e c = (v, c') \<Longrightarrow> verdict c' = Some v \<and> (verdict c = None \<or> verdict c = Some v)"
  by (auto simp: is_installed_def Let_def split: option.splits prod.splits)

text \<open>The steps on the certificates touch nothing but these and the messages, and a verdict once given stays.\<close>

definition cert_step :: "machine \<Rightarrow> machine \<Rightarrow> bool" where
  "cert_step m m' \<longleftrightarrow> (\<exists>c ms. m' = m\<lparr>certs := c, messages := ms\<rparr> \<and> (verdict (certs m) \<noteq> None \<longrightarrow> verdict c = verdict (certs m)))"

lemma cert_stepI: "m' = m\<lparr>certs := c, messages := ms\<rparr> \<Longrightarrow> (verdict (certs m) \<noteq> None \<Longrightarrow> verdict c = verdict (certs m)) \<Longrightarrow> cert_step m m'"
  unfolding cert_step_def by blast

lemma cert_step_refl: "cert_step m m"
  by (rule cert_stepI [where c = "certs m" and ms = "messages m"]) simp_all

lemma cert_step_trans: "cert_step m m1 \<Longrightarrow> cert_step m1 m2 \<Longrightarrow> cert_step m m2"
proof -
  assume "cert_step m m1" "cert_step m1 m2"
  then obtain c ms c' ms' where "m1 = m\<lparr>certs := c, messages := ms\<rparr>" "verdict (certs m) \<noteq> None \<Longrightarrow> verdict c = verdict (certs m)"
    "m2 = m1\<lparr>certs := c', messages := ms'\<rparr>" "verdict (certs m1) \<noteq> None \<Longrightarrow> verdict c' = verdict (certs m1)"
    unfolding cert_step_def by blast
  then show ?thesis by (intro cert_stepI [where c = c' and ms = ms']) simp_all
qed

lemma cert_step_frame [simp]:
  assumes "cert_step m m'"
  shows "mgr m' = mgr m" "listeners m' = listeners m" "hooks m' = hooks m" "next_id m' = next_id m"
    "hostsf m' = hostsf m" "reg m' = reg m" "listening held m' = listening held m"
proof -
  obtain c ms where "m' = m\<lparr>certs := c, messages := ms\<rparr>" using assms unfolding cert_step_def by blast
  then show "mgr m' = mgr m" "listeners m' = listeners m" "hooks m' = hooks m" "next_id m' = next_id m"
    "hostsf m' = hostsf m" "reg m' = reg m" "listening held m' = listening held m"
    by (simp_all add: listening_def)
qed

lemma cert_step_verdict: "cert_step m m' \<Longrightarrow> verdict (certs m) \<noteq> None \<Longrightarrow> verdict (certs m') = verdict (certs m)"
proof -
  assume "cert_step m m'" and v: "verdict (certs m) \<noteq> None"
  then obtain c ms where "m' = m\<lparr>certs := c, messages := ms\<rparr>" "verdict c = verdict (certs m)"
    unfolding cert_step_def by blast
  then show ?thesis by simp
qed

lemma root_of_step: "root_of env m = (r, m') \<Longrightarrow> cert_step m m'"
  using root_verdict [of "cert_env_of env" "certs m"]
  by (auto simp: root_of_def split: prod.splits intro!: cert_stepI [where ms = "messages m"])

lemma installed_step: "installed env m = (v, m') \<Longrightarrow> cert_step m m' \<and> verdict (certs m') = Some v"
  using is_installed_verdict [of "cert_env_of env" "certs m"]
  by (auto simp: installed_def split: prod.splits intro!: cert_stepI [where ms = "messages m"])

lemma say_step: "cert_step m (say ms m)" and say_verdict [simp]: "certs (say ms m) = certs m"
  by (auto simp: say_def intro: cert_stepI [where c = "certs m"])

text \<open>Decryption is armed only with the switch on and a certificate that was found in a store.\<close>

lemma gate_step:
  assumes "gate env mode s m = (x, m')"
  shows "cert_step m m'" "x \<noteq> None \<Longrightarrow> is_decrypting_mode mode \<and> enable_tls_decryption s \<and> verdict (certs m') = Some True"
proof -
  obtain v m1 where i: "installed env m = (v, m1)" by fastforce
  define m2 where "m2 = say (if is_decrypting_mode mode \<and> \<not> should_decrypt_locally mode (enable_tls_decryption s) v
    then [BareTunnel (if mode = System \<or> mode = Pac then SystemOrPacForward else DnsInterceptForward) (enable_tls_decryption s)] else []) m1"
  have m2: "cert_step m m2" "verdict (certs m2) = Some v"
    using cert_step_trans [OF conjunct1 [OF installed_step [OF i]] say_step] installed_step [OF i] by (simp_all add: m2_def)
  obtain r m3 where r: "root_of env m2 = (r, m3)" by fastforce
  have g: "gate env mode s m = (if should_decrypt_locally mode (enable_tls_decryption s) v
      then (map_option (\<lambda>_. mitm_rt_of s m3) r, m3) else (None, m2))"
    unfolding gate_def i prod.case Let_def m2_def [symmetric] r ..
  have m3: "cert_step m m3" "verdict (certs m3) = Some v"
    using cert_step_trans [OF m2(1) root_of_step [OF r]] cert_step_verdict [OF root_of_step [OF r]] m2(2) by simp_all
  show "cert_step m m'" using assms g m2 m3 by (auto split: if_splits)
  show "x \<noteq> None \<Longrightarrow> is_decrypting_mode mode \<and> enable_tls_decryption s \<and> verdict (certs m') = Some True"
    using assms g m3 by (auto simp: should_decrypt_locally_def split: if_splits)
qed

definition begun :: "proxy_mode \<Rightarrow> proxy_settings \<Rightarrow> group list \<Rightarrow> machine \<Rightarrow> machine" where
  "begun mode s groups m = m\<lparr>mgr := (mgr m)\<lparr>g_tables := collect_tables (hosts_default_ip s) groups, g_settings := s,
     logging := True, running := True, cur_mode := Some mode, started := True\<rparr>\<rparr>"

lemma begin_start_refused: "begin_start env mode s groups m = (Inl e, m') \<Longrightarrow> running (mgr m) \<and> m' = m"
  by (auto simp: begin_start_def split: if_splits prod.splits)

lemma begin_start_ok:
  assumes "begin_start env mode s groups m = (Inr x, m')"
  shows "\<not> running (mgr m)" "cert_step (begun mode s groups m) m'"
proof -
  show n: "\<not> running (mgr m)" using assms by (auto simp: begin_start_def split: if_splits)
  obtain r c where r: "Cert.root (cert_env_of env) (certs m) = (r, c)" by fastforce
  have "m' = (begun mode s groups m)\<lparr>certs := c, messages := messages m @
      (if manifest_asks_to_ignore_cert groups then [IgnoreCertUnsupported] else [])\<rparr>"
    using assms n r by (auto simp: begin_start_def begun_def)
  then show "cert_step (begun mode s groups m) m'"
    by (rule cert_stepI) (simp add: root_verdict [OF r] begun_def)
qed

section \<open>One start\<close>

text \<open>A manager at rest, and one in the middle of a start: running, but nothing spawned.\<close>

definition stopped :: "machine \<Rightarrow> bool" where
  "stopped m \<longleftrightarrow> \<not> running (mgr m) \<and> cur_mode (mgr m) = None \<and> runtime (mgr m) = None \<and> tasks (mgr m) = [] \<and>
     hook_stop (mgr m) = None \<and> \<not> logging (mgr m) \<and> \<not> started (mgr m) \<and> listeners m = [] \<and> hooks m = []"

definition starting :: "proxy_mode \<Rightarrow> nat \<Rightarrow> machine \<Rightarrow> bool" where
  "starting mode rt m \<longleftrightarrow> running (mgr m) \<and> cur_mode (mgr m) = Some mode \<and> runtime (mgr m) = Some rt \<and> tasks (mgr m) = [] \<and>
     hook_stop (mgr m) = None \<and> logging (mgr m) \<and> started (mgr m) \<and> listeners m = [] \<and> hooks m = []"

text \<open>The listeners of a mode.\<close>

fun shape :: "proxy_mode \<Rightarrow> listener list \<Rightarrow> bool" where
  "shape Hosts ls = (case ls of [l] \<Rightarrow> sa_port (l_addr l) = 443 \<and> (\<exists>m. l_role l = ServeMitm m) | _ \<Rightarrow> False)"
| "shape System ls = (case ls of [l] \<Rightarrow> (\<exists>f m. l_role l = ServeProxy f m) | _ \<Rightarrow> False)"
| "shape Pac ls = (case ls of [l] \<Rightarrow> (\<exists>f m. l_role l = ServeProxy f m) | _ \<Rightarrow> False)"
| "shape DnsIntercept ls = (\<exists>as l. ls = as @ [l] \<and> map l_addr as \<in> {[(loopback4, 443)], [(loopback4, 443), (loopback6, 443)]} \<and>
     (\<exists>f m. l_role l = ServeProxy f m) \<and> list_all (\<lambda>a. \<forall>f m. l_role a \<noteq> ServeProxy f m) as)"

text \<open>A manager that serves: everything it spawned is alive and recorded, for the mode it reports.\<close>

definition serving :: "proxy_mode \<Rightarrow> machine \<Rightarrow> bool" where
  "serving mode m \<longleftrightarrow> running (mgr m) \<and> cur_mode (mgr m) = Some mode \<and> logging (mgr m) \<and> started (mgr m) \<and>
     (\<exists>rt. runtime (mgr m) = Some rt \<and> list_all (\<lambda>l. l_rt l = rt) (listeners m)) \<and> map l_task (listeners m) = tasks (mgr m) \<and>
     shape mode (listeners m) \<and> (mode = DnsIntercept \<longleftrightarrow> hook_stop (mgr m) \<noteq> None) \<and>
     hooks m = (case hook_stop (mgr m) of Some h \<Rightarrow> [h] | None \<Rightarrow> [])"

lemma stop_inner_stopped:
  assumes "set (map l_task (listeners m)) \<subseteq> set (tasks (mgr m))" "hooks m = (case hook_stop (mgr m) of Some h \<Rightarrow> [h] | None \<Rightarrow> [])"
  shows "stopped (stop_inner m)"
  using assms by (auto simp: stopped_def stop_inner_def filter_empty_conv split: option.splits)

lemma starting_stop: "starting mode rt m \<Longrightarrow> stopped (stop_inner m)"
  by (rule stop_inner_stopped) (simp_all add: starting_def)

lemma serving_stop: "serving mode m \<Longrightarrow> stopped (stop_inner m)"
  by (rule stop_inner_stopped) (auto simp: serving_def)

lemma starting_cert_step: "cert_step m m' \<Longrightarrow> starting mode rt m \<Longrightarrow> starting mode rt m'"
  by (simp add: starting_def)

lemma stopped_simps [simp]:
  "stopped (m\<lparr>hostsf := f\<rparr>) = stopped m" "stopped (m\<lparr>reg := g\<rparr>) = stopped m"
  "starting mode rt (m\<lparr>hostsf := f\<rparr>) = starting mode rt m"
  by (simp_all add: stopped_def starting_def)

lemma stop_inner_system [simp]: "reg (stop_inner m) = reg m" "hostsf (stop_inner m) = hostsf m" "certs (stop_inner m) = certs m"
  by (simp_all add: stop_inner_def)

lemma serve_hosts_spec:
  assumes "serve_hosts env held rt s m = (r, m')" "starting Hosts rt m"
  shows "(case r of Inl _ \<Rightarrow> stopped m' | Inr _ \<Rightarrow> serving Hosts m') \<and> reg m' = reg m"
proof -
  obtain q m1 where q: "root_of env m = (q, m1)" by fastforce
  note c1 = root_of_step [OF q]
  have s1: "starting Hosts rt m1" using starting_cert_step [OF c1 assms(2)] .
  let ?es = "t_hosts (g_tables (mgr m1))"
  obtain w m2 where w: "(if ?es = [] then (Inr (), m1)
      else case update_hosts_at ?es (hostsf m1) of (r, f) \<Rightarrow> (r, m1\<lparr>hostsf := f\<rparr>)) = (w, m2)" by fastforce
  then have m2: "starting Hosts rt m2" "reg m2 = reg m"
    using s1 c1 by (auto split: if_splits prod.splits)
  show ?thesis
  proof (cases q)
    case None
    then show ?thesis using assms(1) q starting_stop [OF s1] c1 by (auto simp: serve_hosts_def)
  next
    case (Some rc)
    have v: "serve_hosts env held rt s m = (case w of Inl e \<Rightarrow> (Inl HostsFailed, stop_inner m2)
      | Inr _ \<Rightarrow> if \<not> can_bind env held [] (hosts_bind_ip s, 443) m2
             then (Inl (PortTaken 443), let m = stop_inner m2 in m\<lparr>hostsf := snd (remove_hosts_at (hostsf m))\<rparr>)
             else (case spawn rt (hosts_bind_ip s, 443) (ServeMitm (mitm_rt_of s m2)) m2 of (i, m) \<Rightarrow> (Inr (), push_tasks [i] m)))"
      unfolding serve_hosts_def q Some prod.case option.case Let_def w ..
    show ?thesis using assms(1) m2 starting_stop [OF m2(1)] unfolding v
      by (auto simp: Let_def spawn_def push_tasks_def starting_def serving_def split: sum.splits if_splits)
  qed
qed

lemma serve_forward_spec:
  assumes "serve_forward env held rt s mitm failure announce m = (r, m')" "starting mode rt m" "mode = System \<or> mode = Pac"
  shows "(case r of Inl _ \<Rightarrow> stopped m' | Inr _ \<Rightarrow> serving mode m' \<and>
      (\<exists>l. listeners m' = [l] \<and> l_addr l = (proxy_bind_ip (system_proxy_ip s), system_proxy_port s)))
    \<and> hostsf m' = hostsf m \<and> (reg m' = reg m \<and> r \<noteq> Inr () \<or> (\<exists>q. announce (proxy_bind_ip (system_proxy_ip s)) (reg m) = (q, reg m') \<and> (q = Inr () \<longleftrightarrow> r = Inr ())))"
proof -
  let ?ip = "proxy_bind_ip (system_proxy_ip s)"
  obtain q g where q: "announce ?ip (reg m) = (q, g)" by fastforce
  have "stopped (stop_inner (push_tasks [i] (m\<lparr>listeners := [\<lparr>l_task = i, l_rt = rt, l_addr = a, l_role = role\<rparr>], next_id := n, reg := g\<rparr>)))" for i a role n
    by (rule stop_inner_stopped) (use assms(2) in \<open>simp_all add: starting_def push_tasks_def\<close>)
  then show ?thesis using assms q starting_stop [OF assms(2)]
    by (cases q) (auto simp: serve_forward_def Let_def spawn_def push_tasks_def starting_def serving_def split: if_splits)
qed

definition same_system :: "machine \<Rightarrow> machine \<Rightarrow> bool" where
  "same_system m m' \<longleftrightarrow> reg m' = reg m \<and> hostsf m' = hostsf m"

lemma spawn_all_spec:
  "spawn_all rt as r m = (is, m') \<Longrightarrow> \<exists>ls n. m' = m\<lparr>listeners := listeners m @ ls, next_id := n\<rparr> \<and> map l_addr ls = as \<and>
     map l_task ls = is \<and> list_all (\<lambda>l. l_rt l = rt \<and> l_role l = r) ls"
proof (induction as arbitrary: m "is" m')
  case Nil
  then show ?case by (intro exI [of _ "[]"] exI [of _ "next_id m"]) simp
next
  case (Cons a as)
  let ?l = "\<lparr>l_task = next_id m, l_rt = rt, l_addr = a, l_role = r\<rparr>"
  obtain js m1 where j: "spawn_all rt as r (m\<lparr>listeners := listeners m @ [?l], next_id := Suc (next_id m)\<rparr>) = (js, m1)" by fastforce
  obtain ls n where "m1 = m\<lparr>listeners := (listeners m @ [?l]) @ ls, next_id := n\<rparr>" "map l_addr ls = as" "map l_task ls = js"
    "list_all (\<lambda>l. l_rt l = rt \<and> l_role l = r) ls" using Cons.IH [OF j] by auto
  moreover have "is = next_id m # js" "m' = m1" using Cons.prems j by (simp_all add: spawn_def)
  ultimately show ?case by (intro exI [of _ "?l # ls"] exI [of _ n]) simp
qed

lemma serve_intercept_spec:
  assumes "serve_intercept env held rt s mitm m = (r, m')" "starting DnsIntercept rt m"
  shows "(case r of Inl _ \<Rightarrow> stopped m' | Inr _ \<Rightarrow> serving DnsIntercept m') \<and> same_system m m'"
proof -
  let ?a = "(loopback4, 443)" and ?f = "(proxy_bind_ip (system_proxy_ip s), system_proxy_port s)" and ?b = "(loopback6, 443)"
  let ?all = "?a # (if can_bind env held [?a, ?f] ?b m then [?b] else [])" and ?cfg = "s\<lparr>use_doh := True\<rparr>"
  obtain inst m1 where i: "installed env m = (inst, m1)" by fastforce
  define dec where "dec = should_decrypt_locally DnsIntercept (enable_tls_decryption s) inst"
  define m2 where "m2 = say (if dec then [] else [BareTunnel DnsIntercept443 (enable_tls_decryption s)]) m1"
  have c2: "cert_step m m2"
    using cert_step_trans [OF conjunct1 [OF installed_step [OF i]] say_step] by (simp add: m2_def)
  obtain js m3 where j: "spawn_all rt ?all (if dec then ServeMitm (mitm_rt_of ?cfg m2) else ServeTunnel (fwd_rt_of ?cfg False m2)) m2 = (js, m3)"
    by fastforce
  obtain ls n where ls: "m3 = m2\<lparr>listeners := listeners m2 @ ls, next_id := n\<rparr>" "map l_addr ls = ?all" "map l_task ls = js"
    "list_all (\<lambda>l. l_rt l = rt \<and> l_role l = (if dec then ServeMitm (mitm_rt_of ?cfg m2) else ServeTunnel (fwd_rt_of ?cfg False m2))) ls"
    using spawn_all_spec [OF j] by (elim exE conjE) (rule that)
  have v: "serve_intercept env held rt s mitm m =
     (if \<not> can_bind env held [] ?a m then (Inl (PortTaken 443), stop_inner m)
      else if \<not> can_bind env held [?a] ?f m then (Inl (PortTaken (system_proxy_port s)), stop_inner m)
      else (case spawn rt ?f (ServeProxy (fwd_rt_of ?cfg (mitm \<noteq> None) m3) mitm) m3 of (i, m) \<Rightarrow>
            (Inr (), let h = next_id m; m = push_tasks (js @ [i]) m in
              m\<lparr>mgr := (mgr m)\<lparr>hook_stop := Some h\<rparr>, hooks := hooks m @ [h], next_id := Suc h\<rparr>)))"
    unfolding serve_intercept_def Let_def i prod.case dec_def [symmetric] m2_def [symmetric] j ..
  have s2: "starting DnsIntercept rt m2" using starting_cert_step [OF c2 assms(2)] .
  have roles: "list_all (\<lambda>a. \<forall>f m. l_role a \<noteq> ServeProxy f m) ls" "list_all (\<lambda>l. l_rt l = rt) ls"
    using ls(4) by (auto simp: list_all_iff split: if_splits)
  show ?thesis using assms(1) starting_stop [OF assms(2)] c2 s2 roles ls(2,3) unfolding v
    by (auto simp: ls(1) spawn_def push_tasks_def Let_def same_system_def starting_def serving_def split: if_splits)
qed

lemma serve_spec:
  assumes "serve env held rt mode s m = (r, m')" "starting mode rt m"
  shows "case r of Inl _ \<Rightarrow> stopped m' | Inr _ \<Rightarrow> serving mode m'"
proof -
  obtain mitm m1 where g: "gate env mode s m = (mitm, m1)" by fastforce
  have s1: "starting mode rt m1" using starting_cert_step [OF gate_step(1) [OF g] assms(2)] .
  show ?thesis
  proof (cases mode)
    case Hosts
    then show ?thesis using serve_hosts_spec [of env held rt s m1 r m'] assms(1) g s1 by (cases r) (auto simp: serve_def)
  next
    case DnsIntercept
    then show ?thesis using serve_intercept_spec [of env held rt s mitm m1 r m'] assms(1) g s1 by (cases r) (auto simp: serve_def)
  next
    case Pac
    then show ?thesis using serve_forward_spec [of env held rt s mitm PacFailed _ m1 r m' mode] assms(1) g s1
      by (cases r) (auto simp: serve_def serve_pac_mode_def)
  next
    case System
    then show ?thesis using serve_forward_spec [of env held rt s mitm SystemProxyFailed _ m1 r m' mode] assms(1) g s1
      by (cases r) (auto simp: serve_def serve_system_def)
  qed
qed

lemma begun_starting: "stopped m \<Longrightarrow> acquire m = (rt, m1) \<Longrightarrow> starting mode rt (begun mode s groups m1)"
  by (auto simp: acquire_def begun_def starting_def stopped_def)

lemma start_blocking_ok:
  assumes "start_blocking env mode s groups m = (r, m')" "stopped m"
  shows "case r of Inl _ \<Rightarrow> stopped m' | Inr _ \<Rightarrow> serving mode m'"
proof (cases "can_runtime env")
  case True
  obtain rt m1 where a: "acquire m = (rt, m1)" by fastforce
  obtain x m2 where b: "begin_start env mode s groups m1 = (x, m2)" by fastforce
  have "\<not> running (mgr m1)" using a assms(2) by (auto simp: acquire_def stopped_def)
  then obtain y where x: "x = Inr y" using b begin_start_refused [of env mode s groups m1] by (cases x) auto
  have s2: "starting mode rt m2"
    using starting_cert_step [OF begin_start_ok(2) [OF b [unfolded x]] begun_starting [OF assms(2) a]] .
  obtain q m3 where q: "serve env [rt] rt mode s m2 = (q, m3)" by fastforce
  have "start_blocking env mode s groups m = (q, finish q m3)" using True a b x q by (simp add: start_blocking_def)
  then have r: "r = q" "m' = finish q m3" using assms(1) by simp_all
  have "stopped m3 \<Longrightarrow> stopped (m3\<lparr>mgr := (mgr m3)\<lparr>runtime := None\<rparr>\<rparr>)" by (simp add: stopped_def)
  then show ?thesis using serve_spec [OF q s2] unfolding r by (cases q) (simp_all add: finish_def)
next
  case False
  then show ?thesis using assms by (auto simp: start_blocking_def)
qed

section \<open>The system proxy over a start and a stop\<close>

fun on_switches :: "proxy_mode \<Rightarrow> proxy_settings \<Rightarrow> switch list" where
  "on_switches System s = [SystemOn (show_ip (proxy_bind_ip (system_proxy_ip s))) (system_proxy_port s)]"
| "on_switches Pac s = [PacOn (pac_url (proxy_bind_ip (system_proxy_ip s)) (system_proxy_port s))]"
| "on_switches _ s = []"

fun off_switches :: "proxy_mode \<Rightarrow> switch list" where
  "off_switches System = [SystemOff]"
| "off_switches Pac = [PacOff]"
| "off_switches _ = []"

text \<open>What a start did to the registry: all of its switches, or nothing that a browser reads.\<close>

definition registry_started :: "reg_access \<Rightarrow> switch list \<Rightarrow> (start_error + unit) \<Rightarrow> registry \<Rightarrow> registry \<Rightarrow> bool" where
  "registry_started acc sws r g g' \<longleftrightarrow> (case r of
     Inr _ \<Rightarrow> run_switches (map (\<lambda>sw. (acc, sw)) sws) g = (Inr (), g')
   | Inl _ \<Rightarrow> connections g' = connections g)"

lemma serve_registry:
  assumes "serve env held rt mode s m = (r, m')" "starting mode rt m"
  shows "registry_started (access env) (on_switches mode s) r (reg m) (reg m')"
proof -
  obtain mitm m1 where g: "gate env mode s m = (mitm, m1)" by fastforce
  note c = gate_step(1) [OF g]
  have s1: "starting mode rt m1" using starting_cert_step [OF c assms(2)] .
  have forward: "registry_started (access env) [sw] r (reg m) (reg m')"
    if sf: "serve_forward env held rt s mitm failure announce m1 = (r, m')" and mode: "mode = System \<or> mode = Pac"
      and an: "\<And>g. announce (proxy_bind_ip (system_proxy_ip s)) g = run_switch (access env) sw g" for failure announce sw
  proof -
    from serve_forward_spec [OF sf s1 mode] consider "reg m' = reg m1" "r \<noteq> Inr ()"
      | q where "run_switch (access env) sw (reg m1) = (q, reg m')" "q = Inr () \<longleftrightarrow> r = Inr ()" unfolding an by blast
    then show ?thesis
    proof cases
      case 1
      then show ?thesis using c by (cases r) (auto simp: registry_started_def)
    next
      case 2
      have m1: "reg m1 = reg m" using c by simp
      show ?thesis
      proof (cases q)
        case (Inl e)
        then have "\<exists>f. r = Inl f" using 2(2) by (cases r) simp_all
        then show ?thesis using run_switch_error [OF 2(1) [unfolded Inl]] m1 by (auto simp: registry_started_def)
      next
        case (Inr u)
        then show ?thesis using 2 m1 by (simp add: registry_started_def)
      qed
    qed
  qed
  show ?thesis
  proof (cases mode)
    case Hosts
    then show ?thesis using serve_hosts_spec [of env held rt s m1 r m'] assms(1) g s1 c
      by (auto simp: serve_def registry_started_def split: sum.splits)
  next
    case DnsIntercept
    then show ?thesis using serve_intercept_spec [of env held rt s mitm m1 r m'] assms(1) g s1 c
      by (auto simp: serve_def registry_started_def same_system_def split: sum.splits)
  next
    case Pac
    then show ?thesis using forward [of PacFailed _ "PacOn (pac_url (proxy_bind_ip (system_proxy_ip s)) (system_proxy_port s))"] assms(1) g
      by (simp add: serve_def serve_pac_mode_def)
  next
    case System
    then show ?thesis using forward [of SystemProxyFailed _ "SystemOn (show_ip (proxy_bind_ip (system_proxy_ip s))) (system_proxy_port s)"] assms(1) g
      by (simp add: serve_def serve_system_def)
  qed
qed

lemma start_blocking_registry:
  assumes "start_blocking env mode s groups m = (r, m')" "stopped m"
  shows "registry_started (access env) (on_switches mode s) r (reg m) (reg m')"
proof (cases "can_runtime env")
  case True
  obtain rt m1 where a: "acquire m = (rt, m1)" by fastforce
  obtain x m2 where b: "begin_start env mode s groups m1 = (x, m2)" by fastforce
  have "\<not> running (mgr m1)" using a assms(2) by (auto simp: acquire_def stopped_def)
  then obtain y where x: "x = Inr y" using b begin_start_refused [of env mode s groups m1] by (cases x) auto
  note c = begin_start_ok(2) [OF b [unfolded x]]
  have s2: "starting mode rt m2"
    using starting_cert_step [OF c begun_starting [OF assms(2) a]] .
  have reg: "reg m2 = reg m" using c a by (auto simp: begun_def acquire_def)
  obtain q m3 where q: "serve env [rt] rt mode s m2 = (q, m3)" by fastforce
  have "start_blocking env mode s groups m = (q, finish q m3)" using True a b x q by (simp add: start_blocking_def)
  then show ?thesis using serve_registry [OF q s2] reg assms(1) by (auto simp: finish_def split: sum.splits)
qed (use assms in \<open>auto simp: start_blocking_def registry_started_def\<close>)

lemma stop_registry:
  "serving mode m \<Longrightarrow> reg (stop env m) = snd (run_switches (map (\<lambda>sw. (access env, sw)) (off_switches mode)) (reg m))"
  by (cases mode; cases "set_system_proxy (access env) False [] 0 (reg m)"; cases "fst (set_system_proxy (access env) False [] 0 (reg m))";
      cases "set_pac_proxy (access env) False [] (reg m)"; cases "fst (set_pac_proxy (access env) False [] (reg m))")
    (auto simp: stop_def serving_def Let_def)

lemma stop_stopped: "serving mode m \<Longrightarrow> stopped (stop env m)"
  using serving_stop [of mode m] by (auto simp: stop_def Let_def split: option.splits proxy_mode.splits)

lemma stopped_stop: "stopped m \<Longrightarrow> stopped (stop env m)"
proof -
  assume s: "stopped m"
  then have "stopped (stop_inner m)" by (intro stop_inner_stopped) (simp_all add: stopped_def)
  then show ?thesis using s by (simp add: stop_def stopped_def [of m] Let_def)
qed

section \<open>Sessions\<close>

text \<open>The calls of the user interface one after the other: it starts the proxy only when it is not running.\<close>

definition booted :: "machine \<Rightarrow> bool" where
  "booted m \<longleftrightarrow> mgr m = new_proxy \<and> listeners m = [] \<and> hooks m = []"

inductive session :: "machine \<Rightarrow> bool" where
  boot: "booted m \<Longrightarrow> session m"
| launch: "session m \<Longrightarrow> \<not> running (mgr m) \<Longrightarrow> start_blocking env mode s groups m = (r, m') \<Longrightarrow> session m'"
| halt: "session m \<Longrightarrow> session (stop env m)"

lemma booted_stopped: "booted m \<Longrightarrow> stopped m"
  by (simp add: booted_def stopped_def new_proxy_def)

lemma session_state: "session m \<Longrightarrow> stopped m \<or> (\<exists>mode. serving mode m)"
proof (induction rule: session.induct)
  case (boot m)
  then show ?case using booted_stopped by simp
next
  case (launch m env mode s groups r m')
  then have "stopped m" by (auto simp: serving_def)
  from start_blocking_ok [OF launch.hyps(3) this] show ?case by (cases r) auto
next
  case (halt m env)
  then show ?case using stop_stopped stopped_stop by blast
qed

lemma serving_listening: "serving mode m \<Longrightarrow> listening [] m = listeners m"
  by (auto simp: serving_def listening_def list_all_iff intro!: filter_True)

lemma shape_nonempty: "shape mode ls \<Longrightarrow> ls \<noteq> []"
  by (cases mode) auto

definition grants :: "reg_access \<Rightarrow> bool" where
  "grants acc \<longleftrightarrow> settings_open acc \<and> connections_open acc \<and> (\<forall>n. writable acc n)"

lemma grants_run: "grants acc \<Longrightarrow> \<exists>g'. run_switch acc sw g = (Inr (), g')"
  by (cases sw) (simp_all add: grants_def reg_op_defs)

lemma grants_runs: "grants acc \<Longrightarrow> \<exists>g'. run_switches (map (\<lambda>sw. (acc, sw)) sws) g = (Inr (), g')"
proof (induction sws arbitrary: g)
  case (Cons sw sws)
  obtain g1 where "run_switch acc sw g = (Inr (), g1)" using grants_run [OF Cons.prems] by blast
  then show ?case using Cons.IH [OF Cons.prems, of g1] by simp
qed simp

section \<open>Interleaved calls\<close>

text \<open>The user interface starts the proxy on a thread of its own and may call again before that thread is done. A thread is
  in one of these phases; the body of a start counts as one step.\<close>

datatype phase = Fresh | Acquired nat | Begun nat | Ran nat "start_error + unit" | Done

record call =
  c_env :: start_env
  c_mode :: proxy_mode
  c_settings :: proxy_settings
  c_groups :: "group list"

fun held_by :: "phase \<Rightarrow> nat list" where
  "held_by (Acquired rt) = [rt]"
| "held_by (Begun rt) = [rt]"
| "held_by (Ran rt r) = [rt]"
| "held_by _ = []"

definition held :: "phase list \<Rightarrow> nat list" where
  "held ps = concat (map held_by ps)"

text \<open>The next phase of a thread.\<close>

fun advance :: "call \<Rightarrow> nat list \<Rightarrow> phase \<Rightarrow> machine \<Rightarrow> phase \<times> machine" where
  "advance c h Fresh m = (if \<not> can_runtime (c_env c) then (Done, m) else case acquire m of (rt, m) \<Rightarrow> (Acquired rt, m))"
| "advance c h (Acquired rt) m = (case begin_start (c_env c) (c_mode c) (c_settings c) (c_groups c) m of
     (Inl e, m) \<Rightarrow> (Ran rt (Inl e), m) | (Inr _, m) \<Rightarrow> (Begun rt, m))"
| "advance c h (Begun rt) m = (case serve (c_env c) h rt (c_mode c) (c_settings c) m of (r, m) \<Rightarrow> (Ran rt r, m))"
| "advance c h (Ran rt r) m = (Done, finish r m)"
| "advance c h Done m = (Done, m)"

inductive interleaved :: "call list \<Rightarrow> phase list \<Rightarrow> machine \<Rightarrow> bool" for cs where
  idle: "booted m \<Longrightarrow> interleaved cs (replicate (length cs) Fresh) m"
| thread: "interleaved cs ps m \<Longrightarrow> i < length cs \<Longrightarrow> advance (cs ! i) (held ps) (ps ! i) m = (p, m') \<Longrightarrow> interleaved cs (ps[i := p]) m'"
| stop_call: "interleaved cs ps m \<Longrightarrow> interleaved cs ps (stop env m)"

text \<open>What no interleaving breaks: a forward proxy never listens on a wildcard address, it decrypts only with the switch on and a
  certificate found in a store, and a tunnel listens on the loopback only and never decrypts.\<close>

definition safe_role :: "bool \<Rightarrow> sockaddr \<Rightarrow> role \<Rightarrow> bool" where
  "safe_role trusted a r = (case r of
     ServeMitm m \<Rightarrow> True
   | ServeProxy f mitm \<Rightarrow> \<not> is_unspecified (sa_ip a) \<and> mitm_on f = (mitm \<noteq> None) \<and>
       (mitm \<noteq> None \<longrightarrow> enable_tls_decryption (config f) \<and> trusted)
   | ServeTunnel f \<Rightarrow> is_loopback (sa_ip a) \<and> \<not> mitm_on f)"

definition safe :: "machine \<Rightarrow> bool" where
  "safe m \<longleftrightarrow> list_all (\<lambda>l. safe_role (verdict (certs m) = Some True) (l_addr l) (l_role l)) (listeners m)"

lemma proxy_bind_ip_specified: "\<not> is_unspecified (proxy_bind_ip s)"
proof -
  have "\<not> is_unspecified loopback4" by code_simp
  then show ?thesis by (simp add: proxy_bind_ip_def split: option.split)
qed

lemma safe_cert_step: "cert_step m m' \<Longrightarrow> safe m \<Longrightarrow> safe m'"
proof -
  assume c: "cert_step m m'" and s: "safe m"
  have "verdict (certs m) = Some True \<Longrightarrow> verdict (certs m') = Some True" using cert_step_verdict [OF c] by simp
  then have "safe_role (verdict (certs m) = Some True) a r \<Longrightarrow> safe_role (verdict (certs m') = Some True) a r" for a r
    by (auto simp: safe_role_def split: role.splits)
  then show ?thesis using s c by (simp add: safe_def list_all_iff)
qed

lemma safe_fewer: "set (listeners m') \<subseteq> set (listeners m) \<Longrightarrow> certs m' = certs m \<Longrightarrow> safe m \<Longrightarrow> safe m'"
  by (auto simp: safe_def list_all_iff)

lemma safe_stop_inner: "safe m \<Longrightarrow> safe (stop_inner m)"
  by (rule safe_fewer) (auto simp: stop_inner_def)

lemma safe_same [simp]:
  "safe (m\<lparr>hostsf := f\<rparr>) = safe m" "safe (m\<lparr>reg := g\<rparr>) = safe m" "safe (m\<lparr>mgr := a\<rparr>) = safe m" "safe (m\<lparr>next_id := n\<rparr>) = safe m"
  "safe (m\<lparr>hooks := hs\<rparr>) = safe m" "safe (push_tasks is m) = safe m"
  by (simp_all add: safe_def push_tasks_def)

lemma safe_stop: "safe m \<Longrightarrow> safe (stop env m)"
  using safe_stop_inner [of m] by (simp add: stop_def Let_def split: option.split proxy_mode.split)

lemma safe_proxy_role:
  "(mitm \<noteq> None \<Longrightarrow> enable_tls_decryption s \<and> b) \<Longrightarrow> safe_role b (proxy_bind_ip x, p) (ServeProxy (fwd_rt_of s (mitm \<noteq> None) m) mitm)"
  by (simp add: safe_role_def fwd_rt_of_def Let_def proxy_bind_ip_specified)

lemma safe_tunnel_role: "is_loopback (sa_ip a) \<Longrightarrow> safe_role b a (ServeTunnel (fwd_rt_of s False m))"
  and safe_mitm_role [simp]: "safe_role b a (ServeMitm r)"
  by (simp_all add: safe_role_def fwd_rt_of_def Let_def)

lemma safe_spawn:
  "spawn rt a r m = (i, m') \<Longrightarrow> safe m \<Longrightarrow> safe_role (verdict (certs m) = Some True) a r \<Longrightarrow> safe m' \<and> reg m' = reg m"
  by (auto simp: spawn_def safe_def)

lemma safe_serve_hosts:
  assumes "serve_hosts env h rt s m = (r, m')" "safe m"
  shows "safe m'"
proof -
  obtain q m1 where q: "root_of env m = (q, m1)" by fastforce
  have s1: "safe m1" using safe_cert_step [OF root_of_step [OF q] assms(2)] .
  let ?es = "t_hosts (g_tables (mgr m1))"
  obtain w m2 where w: "(if ?es = [] then (Inr (), m1)
      else case update_hosts_at ?es (hostsf m1) of (r, f) \<Rightarrow> (r, m1\<lparr>hostsf := f\<rparr>)) = (w, m2)" by fastforce
  then have s2: "safe m2" using s1 by (auto split: if_splits prod.splits)
  obtain k m3 where k: "spawn rt (hosts_bind_ip s, 443) (ServeMitm (mitm_rt_of s m2)) m2 = (k, m3)" by fastforce
  have s3: "safe m3" using safe_spawn [OF k s2] by simp
  show ?thesis
  proof (cases q)
    case None
    then show ?thesis using assms(1) q safe_stop_inner [OF s1] by (simp add: serve_hosts_def)
  next
    case (Some rc)
    have v: "serve_hosts env h rt s m = (case w of Inl e \<Rightarrow> (Inl HostsFailed, stop_inner m2)
      | Inr _ \<Rightarrow> if \<not> can_bind env h [] (hosts_bind_ip s, 443) m2
             then (Inl (PortTaken 443), let m = stop_inner m2 in m\<lparr>hostsf := snd (remove_hosts_at (hostsf m))\<rparr>)
             else (Inr (), push_tasks [k] m3))"
      unfolding serve_hosts_def q Some prod.case option.case Let_def w k ..
    show ?thesis using assms(1) s3 safe_stop_inner [OF s2] unfolding v by (auto simp: Let_def split: sum.splits if_splits)
  qed
qed

lemma safe_serve_forward:
  assumes "serve_forward env h rt s mitm failure announce m = (r, m')" "safe m"
    and "mitm \<noteq> None \<Longrightarrow> enable_tls_decryption s \<and> verdict (certs m) = Some True"
  shows "safe m'"
proof -
  let ?ip = "proxy_bind_ip (system_proxy_ip s)"
  obtain q g where q: "announce ?ip (reg m) = (q, g)" by fastforce
  obtain i m1 where sp: "spawn rt (?ip, system_proxy_port s) (ServeProxy (fwd_rt_of s (mitm \<noteq> None) m) mitm) m = (i, m1)" by fastforce
  have s1: "safe m1" "reg m1 = reg m" using safe_spawn [OF sp assms(2) safe_proxy_role] assms(3) by simp_all
  have v: "serve_forward env h rt s mitm failure announce m =
     (if \<not> can_bind env h [] (?ip, system_proxy_port s) m then (Inl (PortTaken (system_proxy_port s)), stop_inner m)
      else case q of Inl e \<Rightarrow> (Inl failure, stop_inner (push_tasks [i] (m1\<lparr>reg := g\<rparr>))) | Inr _ \<Rightarrow> (Inr (), push_tasks [i] (m1\<lparr>reg := g\<rparr>)))"
    unfolding serve_forward_def Let_def sp prod.case s1(2) q by (cases q) simp_all
  show ?thesis using assms(1) safe_stop_inner [OF assms(2)] safe_stop_inner [of "push_tasks [i] (m1\<lparr>reg := g\<rparr>)"] s1
    unfolding v by (auto split: if_splits sum.splits)
qed

lemma safe_serve_intercept:
  assumes "serve_intercept env h rt s mitm m = (r, m')" "safe m"
    and "mitm \<noteq> None \<Longrightarrow> enable_tls_decryption s \<and> verdict (certs m) = Some True"
  shows "safe m'"
proof -
  let ?a = "(loopback4, 443)" and ?f = "(proxy_bind_ip (system_proxy_ip s), system_proxy_port s)" and ?b = "(loopback6, 443)"
  let ?all = "?a # (if can_bind env h [?a, ?f] ?b m then [?b] else [])" and ?cfg = "s\<lparr>use_doh := True\<rparr>"
  obtain inst m1 where i: "installed env m = (inst, m1)" by fastforce
  define dec where "dec = should_decrypt_locally DnsIntercept (enable_tls_decryption s) inst"
  define m2 where "m2 = say (if dec then [] else [BareTunnel DnsIntercept443 (enable_tls_decryption s)]) m1"
  have c2: "cert_step m m2"
    using cert_step_trans [OF conjunct1 [OF installed_step [OF i]] say_step] by (simp add: m2_def)
  let ?role = "if dec then ServeMitm (mitm_rt_of ?cfg m2) else ServeTunnel (fwd_rt_of ?cfg False m2)"
  obtain js m3 where j: "spawn_all rt ?all ?role m2 = (js, m3)" by fastforce
  obtain ls n where ls: "m3 = m2\<lparr>listeners := listeners m2 @ ls, next_id := n\<rparr>" "map l_addr ls = ?all"
    "list_all (\<lambda>l. l_rt l = rt \<and> l_role l = ?role) ls" using spawn_all_spec [OF j] by (elim exE conjE) (rule that)
  have v: "serve_intercept env h rt s mitm m =
     (if \<not> can_bind env h [] ?a m then (Inl (PortTaken 443), stop_inner m)
      else if \<not> can_bind env h [?a] ?f m then (Inl (PortTaken (system_proxy_port s)), stop_inner m)
      else (case spawn rt ?f (ServeProxy (fwd_rt_of ?cfg (mitm \<noteq> None) m3) mitm) m3 of (i, m) \<Rightarrow>
            (Inr (), let h = next_id m; m = push_tasks (js @ [i]) m in
              m\<lparr>mgr := (mgr m)\<lparr>hook_stop := Some h\<rparr>, hooks := hooks m @ [h], next_id := Suc h\<rparr>)))"
    unfolding serve_intercept_def Let_def i prod.case dec_def [symmetric] m2_def [symmetric] j ..
  have loop: "is_loopback (sa_ip (l_addr l))" if "l \<in> set ls" for l
  proof -
    have "l_addr l \<in> set ?all" using that ls(2) by (metis image_eqI list.set_map)
    moreover have "is_loopback loopback4" "is_loopback loopback6" by code_simp+
    ultimately show ?thesis by (auto split: if_splits)
  qed
  have "list_all (\<lambda>l. safe_role (verdict (certs m2) = Some True) (l_addr l) (l_role l)) ls"
    using ls(3) loop by (auto simp: list_all_iff safe_tunnel_role)
  then have m3: "safe m3" "certs m3 = certs m2"
    using safe_cert_step [OF c2 assms(2)] by (simp_all add: ls(1) safe_def)
  obtain k m4 where k: "spawn rt ?f (ServeProxy (fwd_rt_of ?cfg (mitm \<noteq> None) m3) mitm) m3 = (k, m4)" by fastforce
  have "mitm \<noteq> None \<Longrightarrow> enable_tls_decryption ?cfg \<and> verdict (certs m3) = Some True"
    using assms(3) m3(2) cert_step_verdict [OF c2] by simp
  then have "safe m4" using safe_spawn [OF k m3(1) safe_proxy_role] by simp
  then show ?thesis using assms(1) safe_stop_inner [OF assms(2)] unfolding v k
    by (auto simp: Let_def split: if_splits)
qed

lemma safe_serve:
  assumes "serve env h rt mode s m = (r, m')" "safe m"
  shows "safe m'"
proof -
  obtain mitm m1 where g: "gate env mode s m = (mitm, m1)" by fastforce
  have s1: "safe m1" using safe_cert_step [OF gate_step(1) [OF g] assms(2)] .
  have a: "mitm \<noteq> None \<Longrightarrow> enable_tls_decryption s \<and> verdict (certs m1) = Some True" using gate_step(2) [OF g] by simp
  show ?thesis
    by (cases mode) (use assms(1) g safe_serve_hosts [OF _ s1] safe_serve_intercept [OF _ s1 a] safe_serve_forward [OF _ s1 a]
      in \<open>simp_all add: serve_def serve_system_def serve_pac_mode_def\<close>)
qed

lemma safe_advance: "advance c h p m = (p', m') \<Longrightarrow> safe m \<Longrightarrow> safe m'"
proof (induction c h p m rule: advance.induct)
  case (2 c h rt m)
  obtain x m1 where b: "begin_start (c_env c) (c_mode c) (c_settings c) (c_groups c) m = (x, m1)" by fastforce
  have "safe (begun (c_mode c) (c_settings c) (c_groups c) m)" using 2(2) by (simp add: begun_def)
  then show ?case using 2 b begin_start_refused [of "c_env c"] safe_cert_step [OF begin_start_ok(2) [of "c_env c"]]
    by (cases x) (auto, metis+)
next
  case (3 c h rt m)
  then show ?case using safe_serve by (auto split: prod.splits)
qed (auto simp: acquire_def finish_def split: if_splits sum.splits)

lemma interleaved_safe: "interleaved cs ps m \<Longrightarrow> safe m"
proof (induction rule: interleaved.induct)
  case (idle m)
  then show ?case by (simp add: booted_def safe_def)
next
  case (thread ps m i p m')
  then show ?case using safe_advance by blast
next
  case (stop_call ps m env)
  then show ?case using safe_stop by blast
qed

text \<open>Threads run by a schedule, for concrete interleavings.\<close>

fun run_schedule :: "call list \<Rightarrow> nat list \<Rightarrow> phase list \<times> machine \<Rightarrow> phase list \<times> machine" where
  "run_schedule cs [] s = s"
| "run_schedule cs (i # is) (ps, m) = (case advance (cs ! i) (held ps) (ps ! i) m of (p, m) \<Rightarrow> run_schedule cs is (ps[i := p], m))"

lemma run_schedule_interleaved:
  "run_schedule cs is (ps, m) = (ps', m') \<Longrightarrow> interleaved cs ps m \<Longrightarrow> list_all (\<lambda>i. i < length cs) is \<Longrightarrow> interleaved cs ps' m'"
proof (induction "is" arbitrary: ps m)
  case (Cons i "is")
  obtain p m1 where a: "advance (cs ! i) (held ps) (ps ! i) m = (p, m1)" by fastforce
  have "interleaved cs (ps[i := p]) m1" by (rule interleaved.thread [OF Cons.prems(2) _ a]) (use Cons.prems(3) in simp)
  then show ?case using Cons.IH [of "ps[i := p]" m1] Cons.prems a by simp
qed simp

lemma start_forward_address:
  assumes "start_blocking env mode s groups m = (Inr u, m')" "stopped m" "mode = System \<or> mode = Pac"
  shows "\<exists>l. listeners m' = [l] \<and> l_addr l = (proxy_bind_ip (system_proxy_ip s), system_proxy_port s)"
proof -
  obtain rt m1 where a: "acquire m = (rt, m1)" by fastforce
  obtain x m2 where b: "begin_start env mode s groups m1 = (x, m2)" by fastforce
  have "\<not> running (mgr m1)" using a assms(2) by (auto simp: acquire_def stopped_def)
  then obtain y where x: "x = Inr y" using b begin_start_refused [of env mode s groups m1] by (cases x) auto
  have s2: "starting mode rt m2"
    using starting_cert_step [OF begin_start_ok(2) [OF b [unfolded x]] begun_starting [OF assms(2) a]] .
  obtain mitm m3 where g: "gate env mode s m2 = (mitm, m3)" by fastforce
  have s3: "starting mode rt m3" using starting_cert_step [OF gate_step(1) [OF g] s2] .
  obtain q m4 where q: "serve env [rt] rt mode s m2 = (q, m4)" by fastforce
  have c: "can_runtime env" using assms(1) by (auto simp: start_blocking_def split: if_splits)
  then have "start_blocking env mode s groups m = (q, finish q m4)" using a b x q by (simp add: start_blocking_def)
  then have r: "q = Inr u" "m' = m4" using assms(1) by (auto simp: finish_def)
  have "\<exists>f an. serve_forward env [rt] rt s mitm f an m3 = (Inr u, m')"
    using q g assms(3) unfolding r serve_def serve_system_def serve_pac_mode_def by (elim disjE) (simp_all, blast+)
  then show ?thesis using serve_forward_spec [OF _ s3 assms(3)] by fastforce
qed

section \<open>Properties\<close>




text \<open>C34. Browsers are sent where the proxy is: after a start in System or PAC mode the one listener is bound to a specific address,
  never a wildcard, and what the browsers find is this address, as the manual proxy or inside the address of the PAC file.\<close>

theorem advertised_is_bound:
  assumes "start_blocking env mode s groups m = (Inr u, m')" "session m" "\<not> running (mgr m)" "mode = System \<or> mode = Pac"
    and "reg_ok (reg m)" "list_all switch_short (on_switches mode s)"
  shows "\<exists>l ip port. listening [] m' = [l] \<and> l_addr l = (ip, port) \<and> \<not> is_unspecified ip \<and>
    browser_view (reg m') = Some (if mode = System then (Some (format_host_port (show_ip ip) port), snd (registry_view (reg m)))
      else (fst (registry_view (reg m)), Some (''http://'' @ format_host_port (show_ip ip) port @ ''/pac'')))"
proof -
  let ?on = "map (\<lambda>sw. (access env, sw)) (on_switches mode s)" and ?ip = "proxy_bind_ip (system_proxy_ip s)"
  have st: "stopped m" using session_state [OF assms(2)] assms(3) by (auto simp: serving_def)
  have "run_switches ?on (reg m) = (Inr (), reg m')"
    using start_blocking_registry [OF assms(1) st] by (simp add: registry_started_def)
  moreover have "list_all (\<lambda>(_, sw). switch_short sw) ?on" using assms(6) by (simp add: list.pred_map comp_def)
  ultimately have "reg_ok (reg m')" "registry_view (reg m') = fold (\<lambda>(_, sw). spec_switch sw) ?on (registry_view (reg m))"
    using run_switches_steps assms(5) by blast+
  then have b: "browser_view (reg m') = Some (fold (\<lambda>(_, sw). spec_switch sw) ?on (registry_view (reg m)))"
    using in_sync_view by (simp add: reg_ok_def)
  obtain l where l: "listeners m' = [l]" "l_addr l = (?ip, system_proxy_port s)"
    using start_forward_address [OF assms(1) st assms(4)] by blast
  have "listening [] m' = [l]" using serving_listening [of mode m'] start_blocking_ok [OF assms(1) st] l(1) by simp
  moreover have "fold (\<lambda>(_, sw). spec_switch sw) ?on (registry_view (reg m)) =
      (if mode = System then (Some (format_host_port (show_ip ?ip) (system_proxy_port s)), snd (registry_view (reg m)))
      else (fst (registry_view (reg m)), Some (''http://'' @ format_host_port (show_ip ?ip) (system_proxy_port s) @ ''/pac'')))"
    using assms(4) by (cases "registry_view (reg m)") (auto simp: pac_url_def)
  ultimately show ?thesis using b l(2) proxy_bind_ip_specified [of "system_proxy_ip s"] by auto
qed


section \<open>Examples\<close>

definition granting :: start_env where
  "granting = \<lparr>can_runtime = True, bindable = (\<lambda>used a. a \<notin> set used), cert_env_of = sample_cert_env, access = full_access\<rparr>"

definition sample_machine :: machine where
  "sample_machine = \<lparr>mgr = new_proxy, listeners = [], hooks = [], next_id = 0, messages = [], certs = new_manager None None,
     hostsf = \<lparr>data = None, read_ok = True, readonly = False, set_perm_ok = True, write_fails = None\<rparr>, reg = fresh\<rparr>"

definition system_call :: call where
  "system_call = \<lparr>c_env = granting, c_mode = System, c_settings = default_settings, c_groups = []\<rparr>"

abbreviation run_calls :: "call list \<Rightarrow> nat list \<Rightarrow> machine" where
  "run_calls cs is \<equiv> snd (run_schedule cs is (replicate (length cs) Fresh, sample_machine))"

lemma sample_booted: "booted sample_machine"
  by (simp add: booted_def sample_machine_def)

lemmas run_defs = acquire_def begin_start_def serve_def gate_def installed_def root_of_def say_def Cert.root_def Cert.load_def
  load_file_def generate_def is_installed_def valid_def should_decrypt_locally_def is_decrypting_mode_def finish_def stop_def stop_inner_def
  serve_system_def serve_forward_def can_bind_def spawn_def push_tasks_def listening_def held_def reg_op_defs

lemmas sample_defs = granting_def sample_machine_def system_call_def new_proxy_def new_manager_def sample_cert_env_def full_access_def
  default_settings_def fresh_def store_has_cert_def cert_valid_days_def

text \<open>Two clicks on the start button before the first thread holds the lock: the second thread, which is refused, throws away the
  runtime of the first. The manager reports to be running, nothing listens, and the system proxy points at it.\<close>

lemma double_start_goes_silent:
  "let m = run_calls [system_call, system_call] [0, 1, 0, 1, 0, 1, 0] in
   running (mgr m) \<and> listening [] m = [] \<and> proxy_enable (reg m) = Some 1"
  by (simp add: run_defs sample_defs)

text \<open>A start while the proxy runs is refused and stops every listener of the running one.\<close>

lemma start_while_running_goes_silent:
  assumes "serving mode m" "can_runtime env" "list_all (\<lambda>l. l_rt l < next_id m) (listeners m)"
  shows "fst (start_blocking env mode' s groups m) = Inl AlreadyRunning"
    and "running (mgr (snd (start_blocking env mode' s groups m)))" "listening [] (snd (start_blocking env mode' s groups m)) = []"
  using assms by (auto simp: start_blocking_def acquire_def begin_start_def finish_def serving_def listening_def)

text \<open>A stop between the lock and the body of a start: the body still announces the proxy, and nobody is left to withdraw it.\<close>

lemma stop_during_start_leaves_proxy:
  "let m = stop granting (run_calls [system_call] [0, 0]); m' = snd (run_schedule [system_call] [0, 0] ([Begun 0], m)) in
   \<not> running (mgr m') \<and> listening [] m' = [] \<and> proxy_enable (reg m') = Some 1 \<and> cur_mode (mgr m') = None"
  by (simp add: run_defs sample_defs)

text \<open>A start in System mode, and one that finds its port taken.\<close>

abbreviation started_machine :: machine where
  "started_machine \<equiv> snd (start_blocking granting System default_settings [] sample_machine)"

definition busy :: start_env where
  "busy = granting\<lparr>bindable := (\<lambda>_ _. False)\<rparr>"

lemma sample_start: "start_blocking granting System default_settings [] sample_machine = (Inr (), started_machine)"
proof -
  have "fst (start_blocking granting System default_settings [] sample_machine) = Inr ()"
    by (simp add: start_blocking_def run_defs sample_defs)
  then show ?thesis by (metis prod.collapse)
qed

lemma sample_session: "session sample_machine" "\<not> running (mgr sample_machine)" "session started_machine"
  using session.boot [OF sample_booted] session.launch [OF session.boot [OF sample_booted] _ sample_start]
  by (simp_all add: sample_machine_def new_proxy_def)

lemma sample_registry: "reg_ok (reg sample_machine)" "registry_view (reg sample_machine) = (None, None)"
  using fresh_ok by (simp_all add: sample_machine_def registry_view_def fresh_def enabled_def)

lemma sample_switches_short: "list_all switch_short (on_switches System default_settings)"
  by code_simp

lemma granting_grants: "grants (access granting)"
  by (simp add: grants_def granting_def full_access_def)




lemma advertised_is_bound_witness:
  "\<exists>l ip port. listening [] started_machine = [l] \<and> l_addr l = (ip, port) \<and>
     browser_view (reg started_machine) = Some (Some (format_host_port (show_ip ip) port), None)"
  using advertised_is_bound [OF sample_start sample_session(1,2) _ sample_registry(1) sample_switches_short] sample_registry(2)
  by fastforce


end
