(* ===== verification/EndToEnd.thy ===== *)
theory EndToEnd
  imports Manager Tls
begin

text \<open>
  From the manifest to the wire: what a start publishes in \<open>proxy.rs\<close>, carried by the listeners it spawns into \<open>fwd.rs\<close> and
  \<open>mitm.rs\<close>, where the connections are served. A listener keeps the tables of the start that spawned it, and everything a
  connection logs is decided by these tables.
\<close>

section \<open>What the listeners carry\<close>

definition carries_mitm :: "tables \<Rightarrow> mitm_runtime \<Rightarrow> bool" where
  "carries_mitm T r \<longleftrightarrow> m_domains r = t_domains T \<and> m_forward r = t_forward T \<and> m_configured_ips r = t_ips T \<and> m_fake_names r = t_fakes T"

definition carries_fwd :: "tables \<Rightarrow> fwd_runtime \<Rightarrow> bool" where
  "carries_fwd T f \<longleftrightarrow> domains f = t_domains T \<and> forward f = t_forward T \<and> configured_ips f = t_ips T"

definition carries :: "tables \<Rightarrow> role \<Rightarrow> bool" where
  "carries T r = (case r of
     ServeMitm m \<Rightarrow> carries_mitm T m
   | ServeProxy f mitm \<Rightarrow> carries_fwd T f \<and> (case mitm of Some m \<Rightarrow> carries_mitm T m | None \<Rightarrow> True)
   | ServeTunnel f \<Rightarrow> carries_fwd T f)"

definition published :: "tables \<Rightarrow> machine \<Rightarrow> bool" where
  "published T m \<longleftrightarrow> g_tables (mgr m) = T \<and> list_all (\<lambda>l. carries T (l_role l)) (listeners m)"

lemma carries_of: "g_tables (mgr m) = T \<Longrightarrow> carries_mitm T (mitm_rt_of s m)" "g_tables (mgr m) = T \<Longrightarrow> carries_fwd T (fwd_rt_of s on m)"
  by (simp_all add: carries_mitm_def carries_fwd_def mitm_rt_of_def fwd_rt_of_def Let_def)

lemma published_frame [simp]:
  "published T (m\<lparr>hostsf := f\<rparr>) = published T m" "published T (m\<lparr>reg := g\<rparr>) = published T m" "published T (m\<lparr>next_id := n\<rparr>) = published T m"
  "published T (m\<lparr>hooks := hs\<rparr>) = published T m" "published T (push_tasks is m) = published T m"
  by (simp_all add: published_def push_tasks_def)

lemma published_tables: "published T m \<Longrightarrow> g_tables (mgr m) = T"
  by (simp add: published_def)

lemma published_cert_step: "cert_step m m' \<Longrightarrow> published T m \<Longrightarrow> published T m'"
  by (simp add: published_def)

lemma published_stop_inner: "published T m \<Longrightarrow> published T (stop_inner m)"
  by (auto simp: published_def stop_inner_def list_all_iff)

lemma published_spawn:
  "spawn rt a r m = (i, m') \<Longrightarrow> published T m \<Longrightarrow> carries T r \<Longrightarrow> published T m' \<and> reg m' = reg m"
  by (auto simp: spawn_def published_def)

lemma published_spawn_all: "spawn_all rt as r m = (is, m') \<Longrightarrow> published T m \<Longrightarrow> carries T r \<Longrightarrow> published T m'"
  using spawn_all_spec [of rt as r m "is" m'] by (auto simp: published_def list_all_iff)

text \<open>The decryption of a gate carries the tables of the manager.\<close>

lemma gate_carries:
  assumes "gate env mode s m = (x, m')" "published T m"
  shows "published T m' \<and> (case x of Some r \<Rightarrow> carries_mitm T r | None \<Rightarrow> True)"
proof -
  obtain v m1 where i: "installed env m = (v, m1)" by fastforce
  define m2 where "m2 = say (if is_decrypting_mode mode \<and> \<not> should_decrypt_locally mode (enable_tls_decryption s) v
    then [BareTunnel (if mode = System \<or> mode = Pac then SystemOrPacForward else DnsInterceptForward) (enable_tls_decryption s)] else []) m1"
  have m2: "published T m2"
    using published_cert_step [OF cert_step_trans [OF conjunct1 [OF installed_step [OF i]] say_step] assms(2)] by (simp add: m2_def)
  obtain r m3 where r: "root_of env m2 = (r, m3)" by fastforce
  have m3: "published T m3" using published_cert_step [OF root_of_step [OF r] m2] .
  have g: "gate env mode s m = (if should_decrypt_locally mode (enable_tls_decryption s) v
      then (map_option (\<lambda>_. mitm_rt_of s m3) r, m3) else (None, m2))"
    unfolding gate_def i prod.case Let_def m2_def [symmetric] r ..
  show ?thesis using assms(1) g m2 m3 carries_of(1) [OF published_tables [OF m3]]
    by (auto split: if_splits option.splits)
qed

lemma hosts_carries:
  assumes "serve_hosts env h rt s m = (r, m')" "published T m"
  shows "published T m'"
proof -
  obtain q m1 where q: "root_of env m = (q, m1)" by fastforce
  have s1: "published T m1" using published_cert_step [OF root_of_step [OF q] assms(2)] .
  let ?es = "t_hosts (g_tables (mgr m1))"
  obtain w m2 where w: "(if ?es = [] then (Inr (), m1)
      else case update_hosts_at ?es (hostsf m1) of (r, f) \<Rightarrow> (r, m1\<lparr>hostsf := f\<rparr>)) = (w, m2)" by fastforce
  then have s2: "published T m2" using s1 by (auto split: if_splits prod.splits)
  obtain k m3 where k: "spawn rt (hosts_bind_ip s, 443) (ServeMitm (mitm_rt_of s m2)) m2 = (k, m3)" by fastforce
  have s3: "published T m3"
    using published_spawn [OF k s2] carries_of(1) [OF published_tables [OF s2]] by (simp add: carries_def)
  show ?thesis
  proof (cases q)
    case None
    then show ?thesis using assms(1) q published_stop_inner [OF s1] by (simp add: serve_hosts_def)
  next
    case (Some rc)
    have v: "serve_hosts env h rt s m = (case w of Inl e \<Rightarrow> (Inl HostsFailed, stop_inner m2)
      | Inr _ \<Rightarrow> if \<not> can_bind env h [] (hosts_bind_ip s, 443) m2
             then (Inl (PortTaken 443), let m = stop_inner m2 in m\<lparr>hostsf := snd (remove_hosts_at (hostsf m))\<rparr>)
             else (Inr (), push_tasks [k] m3))"
      unfolding serve_hosts_def q Some prod.case option.case Let_def w k ..
    show ?thesis using assms(1) s3 published_stop_inner [OF s2] unfolding v by (auto simp: Let_def split: sum.splits if_splits)
  qed
qed

lemma forward_carries:
  assumes "serve_forward env h rt s mitm failure announce m = (r, m')" "published T m"
    and "case mitm of Some r \<Rightarrow> carries_mitm T r | None \<Rightarrow> True"
  shows "published T m'"
proof -
  let ?ip = "proxy_bind_ip (system_proxy_ip s)"
  obtain q g where q: "announce ?ip (reg m) = (q, g)" by fastforce
  obtain i m1 where sp: "spawn rt (?ip, system_proxy_port s) (ServeProxy (fwd_rt_of s (mitm \<noteq> None) m) mitm) m = (i, m1)" by fastforce
  have s1: "published T m1" "reg m1 = reg m"
    using published_spawn [OF sp assms(2)] assms(3) carries_of(2) [OF published_tables [OF assms(2)]] by (simp_all add: carries_def)
  have v: "serve_forward env h rt s mitm failure announce m =
     (if \<not> can_bind env h [] (?ip, system_proxy_port s) m then (Inl (PortTaken (system_proxy_port s)), stop_inner m)
      else case q of Inl e \<Rightarrow> (Inl failure, stop_inner (push_tasks [i] (m1\<lparr>reg := g\<rparr>))) | Inr _ \<Rightarrow> (Inr (), push_tasks [i] (m1\<lparr>reg := g\<rparr>)))"
    unfolding serve_forward_def Let_def sp prod.case s1(2) q by (cases q) simp_all
  show ?thesis using assms(1) published_stop_inner [OF assms(2)] published_stop_inner [of T "push_tasks [i] (m1\<lparr>reg := g\<rparr>)"] s1
    unfolding v by (auto split: if_splits sum.splits)
qed

lemma intercept_carries:
  assumes "serve_intercept env h rt s mitm m = (r, m')" "published T m"
    and "case mitm of Some r \<Rightarrow> carries_mitm T r | None \<Rightarrow> True"
  shows "published T m'"
proof -
  let ?a = "(loopback4, 443)" and ?f = "(proxy_bind_ip (system_proxy_ip s), system_proxy_port s)" and ?b = "(loopback6, 443)"
  let ?all = "?a # (if can_bind env h [?a, ?f] ?b m then [?b] else [])" and ?cfg = "s\<lparr>use_doh := True\<rparr>"
  obtain inst m1 where i: "installed env m = (inst, m1)" by fastforce
  define dec where "dec = should_decrypt_locally DnsIntercept (enable_tls_decryption s) inst"
  define m2 where "m2 = say (if dec then [] else [BareTunnel DnsIntercept443 (enable_tls_decryption s)]) m1"
  have p2: "published T m2"
    using published_cert_step [OF cert_step_trans [OF conjunct1 [OF installed_step [OF i]] say_step] assms(2)] by (simp add: m2_def)
  let ?role = "if dec then ServeMitm (mitm_rt_of ?cfg m2) else ServeTunnel (fwd_rt_of ?cfg False m2)"
  obtain js m3 where j: "spawn_all rt ?all ?role m2 = (js, m3)" by fastforce
  have p3: "published T m3"
    using published_spawn_all [OF j p2] carries_of [OF published_tables [OF p2]] by (simp add: carries_def)
  obtain k m4 where k: "spawn rt ?f (ServeProxy (fwd_rt_of ?cfg (mitm \<noteq> None) m3) mitm) m3 = (k, m4)" by fastforce
  have p4: "published T m4"
    using published_spawn [OF k p3] assms(3) carries_of(2) [OF published_tables [OF p3]] by (simp add: carries_def)
  have v: "serve_intercept env h rt s mitm m =
     (if \<not> can_bind env h [] ?a m then (Inl (PortTaken 443), stop_inner m)
      else if \<not> can_bind env h [?a] ?f m then (Inl (PortTaken (system_proxy_port s)), stop_inner m)
      else (Inr (), let h = next_id m4; m = push_tasks (js @ [k]) m4 in
              m\<lparr>mgr := (mgr m)\<lparr>hook_stop := Some h\<rparr>, hooks := hooks m @ [h], next_id := Suc h\<rparr>))"
    unfolding serve_intercept_def Let_def i prod.case dec_def [symmetric] m2_def [symmetric] j k ..
  show ?thesis using assms(1) published_stop_inner [OF assms(2)] p4 unfolding v
    by (auto simp: Let_def published_def push_tasks_def split: if_splits)
qed

lemma serve_carries:
  assumes "serve env h rt mode s m = (r, m')" "published T m"
  shows "published T m'"
proof -
  obtain mitm m1 where g: "gate env mode s m = (mitm, m1)" by fastforce
  have p1: "published T m1" and c: "case mitm of Some r \<Rightarrow> carries_mitm T r | None \<Rightarrow> True"
    using gate_carries [OF g assms(2)] by simp_all
  show ?thesis
    by (cases mode) (use assms(1) g hosts_carries [OF _ p1] intercept_carries [OF _ p1 c] forward_carries [OF _ p1 c]
      in \<open>simp_all add: serve_def serve_system_def serve_pac_mode_def\<close>)
qed

text \<open>After a start every listener carries the tables of the groups it was started with.\<close>

lemma start_publishes:
  assumes "start_blocking env mode s groups m = (Inr u, m')" "stopped m"
  shows "published (collect_tables (hosts_default_ip s) groups) m'"
proof -
  obtain rt m1 where a: "acquire m = (rt, m1)" by fastforce
  obtain x m2 where b: "begin_start env mode s groups m1 = (x, m2)" by fastforce
  have "\<not> running (mgr m1)" using a assms(2) by (auto simp: acquire_def stopped_def)
  then obtain y where x: "x = Inr y" using b begin_start_refused [of env mode s groups m1] by (cases x) auto
  have "listeners m1 = []" using a assms(2) by (auto simp: acquire_def stopped_def)
  then have "published (collect_tables (hosts_default_ip s) groups) (begun mode s groups m1)" by (simp add: published_def begun_def)
  then have p2: "published (collect_tables (hosts_default_ip s) groups) m2"
    using published_cert_step [OF begin_start_ok(2) [OF b [unfolded x]]] by simp
  obtain q m3 where q: "serve env [rt] rt mode s m2 = (q, m3)" by fastforce
  have "can_runtime env" using assms(1) by (auto simp: start_blocking_def split: if_splits)
  then have "start_blocking env mode s groups m = (q, finish q m3)" using a b x q by (simp add: start_blocking_def)
  then show ?thesis using assms(1) serve_carries [OF q p2] by (auto simp: finish_def)
qed

section \<open>What a connection of a listener logs\<close>

text \<open>\<open>served te r h es\<close>: a connection that a listener of role \<open>r\<close> accepts, on behalf of the host \<open>h\<close>, adds \<open>es\<close> to the log. The forward
  proxy serves one request; the tunnel relays for the name in the hello; behind a decrypting listener, or a forward proxy that
  decrypts, a connection serves requests for any host, one after the other or as streams.\<close>

inductive served :: "'n tls_env \<Rightarrow> role \<Rightarrow> string \<Rightarrow> event list \<Rightarrow> bool" for te where
  forwarded: "served te (ServeProxy rt mitm) (served_host req) es"
    if "Fwd.handle_conn alloc e rt polls client w = (r, w')" "fst (read_request alloc client) = Some req" "events w' = events w @ es"
| steered: "served te (ServeTunnel rt) h es"
    if "handle_steered_tunnel e rt polls client w = (r, w')" "peek_client_sni polls = Some h" "events w' = events w @ es"
| decrypted: "served te r h es"
    if "r = ServeMitm rt \<or> (\<exists>f. r = ServeProxy f (Some rt))"
      "serve_requests alloc te rt port client ms = (c, ms')" "events (wld ms') = events (wld ms) @ es"
| streamed: "served te r h es"
    if "r = ServeMitm rt \<or> (\<exists>f. r = ServeProxy f (Some rt))"
      "handle_h2_request ok te rt port q ms = (ans, ms')" "events (wld ms') = events (wld ms) @ es"

definition in_chain :: "world \<Rightarrow> world \<Rightarrow> bool" where
  "in_chain w w' \<longleftrightarrow> logged (\<lambda>x. \<not> leaves_to_system x) w w'"

lemma in_chain_trans: "in_chain w w1 \<Longrightarrow> in_chain w1 w' \<Longrightarrow> in_chain w w'"
  unfolding in_chain_def by (rule logged_trans)

lemma in_chain_events: "in_chain w w' \<Longrightarrow> events w' = events w @ es \<Longrightarrow> list_all (\<lambda>x. \<not> leaves_to_system x) es"
  by (auto simp: in_chain_def logged_def)

lemma forward_one_in_chain: "forward_one te rt req host ch port client ms = (k, c, ms') \<Longrightarrow> in_chain (wld ms) (wld ms')"
  using forward_one_sends [of te rt req host ch port client ms k c ms', THEN conjunct1]
  unfolding sends_def in_chain_def logged_def by blast

text \<open>The decrypting proxy hands no host to the system, whatever host a request is for.\<close>

lemma serve_requests_in_chain: "serve_requests alloc te rt port client ms = (c, ms') \<Longrightarrow> in_chain (wld ms) (wld ms')"
proof (induction alloc te rt port client ms arbitrary: c ms' rule: serve_requests.induct)
  case (1 alloc te rt port client ms)
  obtain r c1 where r: "read_request alloc client = (r, c1)" by fastforce
  show ?case
  proof (cases "r = None \<or> request_host (the r) = None")
    case False
    then obtain req host where q: "r = Some req" "request_host req = Some host" by auto
    obtain k c2 ms2 where f: "forward_one te rt req host (connect_host_of rt host) port c1 ms = (k, c2, ms2)" by (metis prod_cases3)
    note o = forward_one_in_chain [OF f]
    show ?thesis
    proof (cases k)
      case True
      then have "in_chain (wld ms2) (wld ms')"
        using 1(1) [OF r [symmetric] q f [symmetric] refl True] 1(2) r q f by (simp add: serve_requests.simps [of alloc te rt port client ms])
      then show ?thesis by (rule in_chain_trans [OF o])
    qed (use 1(2) r q f o in \<open>simp add: serve_requests.simps [of alloc te rt port client ms]\<close>)
  qed (use 1(2) r in \<open>auto simp: serve_requests.simps [of alloc te rt port client ms] in_chain_def split: option.splits\<close>)
qed

lemma h2_in_chain: "handle_h2_request ok te rt port q ms = (ans, ms') \<Longrightarrow> in_chain (wld ms) (wld ms')"
  by (auto simp: handle_h2_request_def Let_def in_chain_def split: option.splits prod.splits if_splits
      dest!: forward_one_in_chain [unfolded in_chain_def])

lemma steered_in_chain:
  assumes "handle_steered_tunnel e rt polls client w = (r, w')" "peek_client_sni polls = Some h" "is_accelerated h (domains rt)"
  shows "in_chain w w'"
proof -
  have "logged (system_rule rt h) w w'"
    using assms(1,2) by (auto simp: handle_steered_tunnel_def relay_bare_def split: option.splits prod.splits dest: by_resolver.tunnel_ok)
  then show ?thesis using assms(3) by (auto simp: in_chain_def logged_def list_all_iff system_rule_def)
qed

lemma forwarded_in_chain:
  assumes "Fwd.handle_conn alloc e rt polls client w = (r, w')" "fst (read_request alloc client) = Some req"
    and "is_accelerated (served_host req) (domains rt)"
  shows "in_chain w w'"
  using by_resolver.conn_ok [OF assms(1)] assms(2,3) by (auto simp: in_chain_def logged_def list_all_iff system_rule_def)

lemma served_in_chain:
  assumes "served te r h es" "carries T r" "is_accelerated h (t_domains T)"
  shows "list_all (\<lambda>x. \<not> leaves_to_system x) es"
  using assms
proof (induction rule: served.induct)
  case (forwarded alloc e rt polls client w r w' req es mitm)
  then have "domains rt = t_domains T" by (simp add: carries_def carries_fwd_def)
  then show ?case using in_chain_events [OF forwarded_in_chain [OF forwarded(1,2)]] forwarded by simp
next
  case (steered e rt polls client w r w' h es)
  then have "domains rt = t_domains T" by (simp add: carries_def carries_fwd_def)
  then show ?case using in_chain_events [OF steered_in_chain [OF steered(1,2)]] steered by simp
next
  case (decrypted r rt alloc port client ms c ms' es h)
  then show ?case using in_chain_events [OF serve_requests_in_chain] by blast
next
  case (streamed r rt ok port q ms ans ms' es h)
  then show ?case using in_chain_events [OF h2_in_chain] by blast
qed

lemma is_accelerated_mem: "is_accelerated h [d] \<Longrightarrow> d \<in> set ds \<Longrightarrow> is_accelerated h ds"
  by (simp only: is_accelerated_def Let_def list_ex_iff list.set) blast

section \<open>The hosts file over a start and a stop\<close>

text \<open>A file of plain ASCII text that can be read and written.\<close>

definition plain_file :: "string \<Rightarrow> hosts_file \<Rightarrow> bool" where
  "plain_file c f \<longleftrightarrow> data f = Some (bytes_of c) \<and> is_ascii c \<and> read_ok f \<and> set_perm_ok f \<and> write_fails f = None"

lemma ascii_simps [simp]: "is_ascii []" "is_ascii (s @ t) = (is_ascii s \<and> is_ascii t)" "is_ascii (c # s) = (code_of c < 128 \<and> is_ascii s)"
  by (simp_all add: is_ascii_def)

lemma ascii_subset: "set s \<subseteq> set t \<Longrightarrow> is_ascii t \<Longrightarrow> is_ascii s"
  by (auto simp: is_ascii_def list_all_iff)

lemma blank_ascii: "trim l = [] \<Longrightarrow> is_ascii l"
  by (fastforce simp: trim_Nil_iff is_ascii_def list_all_iff is_ws_def)

lemma join_ascii: "list_all is_ascii ls \<Longrightarrow> is_ascii sep \<Longrightarrow> is_ascii (join sep ls)"
  by (induction sep ls rule: join.induct) simp_all

lemma join_hosts_ascii: "list_all is_ascii ls \<Longrightarrow> is_ascii (join_hosts ls)"
proof -
  have "is_ascii crlf" by code_simp
  then show "list_all is_ascii ls \<Longrightarrow> is_ascii (join_hosts ls)" by (simp add: join_hosts_def Let_def join_ascii)
qed

lemma ascii_first: "code_of c < 128 \<Longrightarrow> 128 \<le> unat w \<Longrightarrow> word_of_nat (code_of c) \<noteq> (w :: u8)"
  using unat_word_of_nat_u8 [OF code_of_less [of c]] by auto

lemma decode_written: "is_ascii t \<Longrightarrow> decode_hosts (bytes_of t) = t"
proof -
  assume a: "is_ascii t"
  have "\<not> prefix (w # ws) (bytes_of t)" if "w = 0xEF \<or> w = 0xFF \<or> w = 0xFE" for w ws
  proof (cases t)
    case (Cons c s)
    then have "code_of c < 128" using a by simp
    from ascii_first [OF this, of w] show ?thesis using that Cons by (auto simp: bytes_of_def)
  qed (simp add: bytes_of_def)
  then show ?thesis using utf8_lossy_ascii [OF a] by (simp add: decode_hosts_def)
qed

lemma lines_acc_subset: "l \<in> set (lines_acc acc s) \<Longrightarrow> set l \<subseteq> set acc \<union> set s"
proof (induction acc s rule: lines_acc.induct)
  case (2 acc c s)
  have "set (strip_cr (rev acc)) \<subseteq> set acc" by (auto simp: strip_cr_def dest: in_set_butlastD list.set_sel(2))
  then show ?case using 2 by (auto split: if_splits)
qed (auto split: if_splits)

lemma user_lines_ascii: "is_ascii c \<Longrightarrow> l \<in> set (user_lines c) \<Longrightarrow> is_ascii l"
proof -
  assume c: "is_ascii c" and "l \<in> set (user_lines c)"
  then obtain r where r: "r \<in> set (lines c)" "l = trim_end_matches CR r" by (auto simp: user_lines_def)
  have "set l \<subseteq> set r" unfolding r(2) trim_end_matches_def by (metis set_dropWhileD set_rev subsetI)
  moreover have "set r \<subseteq> set c" using lines_acc_subset [of r "[]" c] r(1) by (simp add: lines_def)
  ultimately show ?thesis using ascii_subset c by blast
qed

text \<open>The restored text is not longer than the one with our block in it.\<close>

lemma join_hosts_length: "length (join_hosts ls) \<le> sum_list (map (\<lambda>l. length l + 2) ls)"
  and join_hosts_length_eq: "l \<in> set ls \<Longrightarrow> l \<noteq> [] \<Longrightarrow> length (join_hosts ls) = sum_list (map (\<lambda>l. length l + 2) ls)"
proof -
  have c: "length (concat (map (\<lambda>l. l @ crlf) ls)) = sum_list (map (\<lambda>l. length l + 2) ls)"
    by (simp add: length_concat comp_def)
  have t: "ls \<noteq> [] \<Longrightarrow> length (join crlf ls @ crlf) = sum_list (map (\<lambda>l. length l + 2) ls)"
    by (subst join_crlf_terminated) (simp_all add: c)
  then show "length (join_hosts ls) \<le> sum_list (map (\<lambda>l. length l + 2) ls)"
    by (cases "ls = []") (auto simp: join_hosts_def Let_def)
  assume "l \<in> set ls" "l \<noteq> []"
  then have "join crlf ls \<noteq> []"
  proof (induction ls rule: induct_list012)
    case (3 x y zs)
    then show ?case by simp
  qed auto
  then show "length (join_hosts ls) = sum_list (map (\<lambda>l. length l + 2) ls)"
    using t \<open>l \<in> set ls\<close> by (cases ls) (auto simp: join_hosts_def Let_def)
qed

lemma restore_shorter: "length (join_hosts (restore main backup)) \<le> length (join_hosts (render main es backup))"
proof -
  have "mark_start \<in> set (render main es backup)" "mark_start \<noteq> []" by (simp_all add: render_def Let_def mark_start_def)
  note r = join_hosts_length_eq [OF this]
  show ?thesis unfolding r by (rule order_trans [OF join_hosts_length]) (simp add: restore_def render_def Let_def)
qed

lemma written_file:
  "write_hosts_at t f = (Inr u, f') \<Longrightarrow> data f' = Some (bytes_of t) \<and> read_ok f' = read_ok f \<and> set_perm_ok f' = set_perm_ok f \<and>
     write_fails f' = write_fails f \<and> length t \<le> max_file_length \<and> (data f \<noteq> None \<longrightarrow> readonly f' = readonly f)"
  by (auto simp: write_hosts_at_def Let_def split: if_splits option.splits prod.splits)

lemma writable: "length t \<le> max_file_length \<Longrightarrow> set_perm_ok f \<Longrightarrow> write_fails f = None \<Longrightarrow> \<exists>f'. write_hosts_at t f = (Inr (), f')"
  by (auto simp: write_hosts_at_def Let_def split: if_splits option.splits prod.splits)

lemma update_then_remove_at:
  assumes "plain_file c f" "list_all unmarked (user_lines c)" "good_entries es" "list_all is_ascii (entry_lines es)"
    and "update_hosts_at es f = (Inr u, f1)"
  shows "\<exists>c' f2. remove_hosts_at f1 = (Inr (), f2) \<and> data f2 = Some (bytes_of c') \<and> readonly f2 = readonly f \<and>
    set (filter nonblank (lines c')) = set (filter nonblank (user_lines c)) \<and> \<not> contains_by_tag (Some c')"
proof -
  obtain m0 b0 where v0: "file_view c m0 b0" "owned m0 b0 = owned (user_lines c) []"
    using fold_view [OF assms(2), of "[]"] by auto
  obtain main backup where v: "file_view (update_text es c) main backup" and o: "owned main backup = owned (user_lines c) []"
    and t: "update_text es c = join_hosts (render main (entry_lines es) backup)"
    using update_view [OF v0(1) assms(3)] v0(2) by metis
  let ?t = "update_text es c"
  have nb: "\<forall>l\<in>set backup. nonblank l" using v line_domains_nonblank by (auto simp: file_view_def)
  have own: "l \<in> set (user_lines c)" if "l \<in> set main \<union> set backup" "nonblank l" for l
    using that o by (auto simp: owned_def)
  then have "is_ascii l" if "l \<in> set main \<union> set backup" for l
    using user_lines_ascii [of c l] blank_ascii [of l] assms(1) that by (cases "trim l = []") (auto simp: plain_file_def)
  moreover have "is_ascii mark_start" "is_ascii mark_end" "is_ascii backup_mark_start" "is_ascii backup_mark_end" by code_simp+
  ultimately have "is_ascii ?t" using assms(4) pop_blank_set [of main] unfolding t
    by (intro join_hosts_ascii) (auto simp: render_def Let_def list_all_iff)
  then have d: "decode_hosts (bytes_of ?t) = ?t" by (rule decode_written)
  have "write_hosts_at ?t f = (Inr u, f1)"
    using assms(1,5) decode_written [of c] by (simp add: update_hosts_at_def read_hosts_at_def plain_file_def)
  note w = written_file [OF this]
  let ?c = "remove_text ?t"
  have "length ?c \<le> max_file_length" using w restore_shorter [of main backup "entry_lines es"] remove_text_view [OF v] t by simp
  then obtain f2 where f2: "write_hosts_at ?c f1 = (Inr (), f2)" using writable [of ?c f1] w assms(1) by (auto simp: plain_file_def)
  then have "remove_hosts_at f1 = (Inr (), f2)"
    using w assms(1) d by (simp add: remove_hosts_at_def read_hosts_at_def plain_file_def)
  moreover have "data f2 = Some (bytes_of ?c) \<and> readonly f2 = readonly f"
    using written_file [OF f2] w assms(1) by (auto simp: plain_file_def)
  moreover have "set (filter nonblank (lines ?c)) = set (filter nonblank (user_lines c))"
  proof -
    have "set (filter nonblank (restore main backup)) = owned main backup"
      using nb pop_blank_nonblank [of main] by (auto simp: restore_def Let_def owned_def)
    then show ?thesis using o by (auto simp: remove_view [OF v] owned_def)
  qed
  moreover have "\<not> contains_by_tag (Some ?c)"
  proof -
    have "\<not> is_mark [] mark_start \<and> \<not> is_mark [] mark_end" by code_simp
    moreover have "\<not> is_mark l mark_start \<and> \<not> is_mark l mark_end" if "l \<in> set main \<union> set backup" for l
      using view_clean [OF v that] by (simp add: unmarked_def)
    ultimately have "\<forall>l\<in>set (restore main backup). \<not> is_mark l mark_start \<and> \<not> is_mark l mark_end"
      using pop_blank_set [of main] by (auto simp: restore_def Let_def)
    then show ?thesis by (auto simp: remove_view [OF v] contains_by_tag_def list_ex_iff)
  qed
  ultimately show ?thesis by blast
qed

lemma serve_hosts_writes:
  assumes "serve_hosts env hd_rts rt s m = (Inr u, m')" "t_hosts (g_tables (mgr m)) \<noteq> []"
  shows "update_hosts_at (t_hosts (g_tables (mgr m))) (hostsf m) = (Inr (), hostsf m')"
proof -
  obtain q m1 where q: "root_of env m = (q, m1)" by fastforce
  note c1 = root_of_step [OF q]
  obtain w f where w: "update_hosts_at (t_hosts (g_tables (mgr m))) (hostsf m) = (w, f)" by fastforce
  show ?thesis using assms q c1 w
    by (cases q; cases w) (auto simp: serve_hosts_def Let_def spawn_def push_tasks_def split: if_splits)
qed

lemma start_hosts_writes:
  assumes "start_blocking env Hosts s groups m = (Inr u, m')" "stopped m"
    and "es = t_hosts (collect_tables (hosts_default_ip s) groups)" "es \<noteq> []"
  shows "update_hosts_at es (hostsf m) = (Inr (), hostsf m')"
proof -
  obtain rt m1 where a: "acquire m = (rt, m1)" by fastforce
  obtain x m2 where b: "begin_start env Hosts s groups m1 = (x, m2)" by fastforce
  have "\<not> running (mgr m1)" using a assms(2) by (auto simp: acquire_def stopped_def)
  then obtain y where x: "x = Inr y" using b begin_start_refused [of env Hosts s groups m1] by (cases x) auto
  note c2 = begin_start_ok(2) [OF b [unfolded x]]
  obtain mitm m3 where g: "gate env Hosts s m2 = (mitm, m3)" by fastforce
  note c3 = gate_step(1) [OF g]
  have m3: "t_hosts (g_tables (mgr m3)) = es" "hostsf m3 = hostsf m"
    using c2 c3 a assms(3) by (auto simp: begun_def acquire_def)
  obtain q m4 where q: "serve_hosts env [rt] rt s m3 = (q, m4)" by fastforce
  have "can_runtime env" using assms(1) by (auto simp: start_blocking_def split: if_splits)
  then have "start_blocking env Hosts s groups m = (q, finish q m4)" using a b x g q by (simp add: start_blocking_def serve_def)
  then have "q = Inr u" "m' = m4" using assms(1) by (auto simp: finish_def)
  then show ?thesis using serve_hosts_writes [of env "[rt]" rt s m3 u m4] q m3 assms(4) by simp
qed

section \<open>Properties\<close>



section \<open>Examples\<close>

definition github_group :: "group list" where
  "github_group = [\<lparr>g_name = ''Github'', icon_url = None, g_order = 1, g_state = Some True,
     g_items = [Project (default_attrs\<lparr>p_id := ''gh-website'', match_domain_names := ''github.com'', three_state := Some True\<rparr>) []]\<rparr>]"

abbreviation github_machine :: machine where
  "github_machine \<equiv> snd (start_blocking granting System default_settings github_group sample_machine)"

lemma github_start: "start_blocking granting System default_settings github_group sample_machine = (Inr (), github_machine)"
proof -
  have "fst (start_blocking granting System default_settings github_group sample_machine) = Inr ()"
    by (simp add: start_blocking_def run_defs sample_defs)
  then show ?thesis by (metis prod.collapse)
qed


definition hosts_machine :: machine where
  "hosts_machine = sample_machine\<lparr>hostsf := \<lparr>data = Some (bytes_of sample_hosts), read_ok = True, readonly = True, set_perm_ok = True, write_fails = None\<rparr>\<rparr>"

definition listen_group :: "group list" where
  "listen_group = [\<lparr>g_name = ''Github'', icon_url = None, g_order = 1, g_state = Some True,
     g_items = [Project (default_attrs\<lparr>p_id := ''gh-website'', listen_domain_names := ''github.com'', three_state := Some True\<rparr>) []]\<rparr>]"


text \<open>The chain ends at the resolver of the system, which the hosts file and the DNS hook answer with the loopback address for exactly the hosts
  the proxy serves: when no DoH endpoint and no DNS server answers, the proxy dials its own listener.\<close>

definition steered_env :: env where
  "steered_env = Fwd.sample_env\<lparr>net := quiet_net\<lparr>sys_lookup := (\<lambda>h t. (Some [loopback4], 10))\<rparr>\<rparr>"

lemma last_resort_dials_itself:
  "events (snd (dial_tunnel_upstream steered_env Fwd.sample_runtime ''github.com'' 443 Fwd.sample_world)) =
     [Resolved ''github.com'' [loopback4], Dialled (loopback4, 443)]"
  by code_simp

end
