(* ===== verification/Pages.thy ===== *)
theory Pages
  imports Data "HOL-Library.AList"
begin

text \<open>
  The two trees with check boxes of the acceleration page (\<open>crates/ui/src/pages/accelerator.rs\<close>), with the parts of
  \<open>win32/controls.rs\<close> and \<open>lib.rs\<close> they rest on. The trees are widgets of the system: what is kept here is which item
  stands for which leaf or group and the check mark each item shows. A tree reports every change of a mark, its own
  and the program's alike, so a notification counts as the user's only when it follows a click.
  The order in which a hash map is walked does not matter, its model is an association list without double keys.
\<close>

section \<open>The tree widget\<close>

datatype node_ref = GroupNode string | LeafNode string

record tree =
  nodes :: "(nat \<times> node_ref) list"
  group_items :: "(string \<times> nat) list"
  leaf_items :: "(string \<times> nat) list"
  marks :: "nat \<rightharpoonup> bool"
  inserted :: nat

text \<open>The items are numbered from 1 in the order of insertion; the \<open>n\<close>-th insertion may fail, which gives 0.\<close>

definition tree_insert :: "(nat \<Rightarrow> bool) \<Rightarrow> bool option \<Rightarrow> tree \<Rightarrow> nat \<times> tree" where
  "tree_insert ok mark t =
     (if ok (inserted t) then (Suc (inserted t), t\<lparr>marks := (marks t)(Suc (inserted t) := mark), inserted := Suc (inserted t)\<rparr>)
      else (0, t\<lparr>inserted := Suc (inserted t)\<rparr>))"

definition tree_clear :: tree where
  "tree_clear = \<lparr>nodes = [], group_items = [], leaf_items = [], marks = Map.empty, inserted = 0\<rparr>"

definition tree_set_check :: "nat \<Rightarrow> bool \<Rightarrow> tree \<Rightarrow> tree" where
  "tree_set_check item on t = (if item = 0 then t else t\<lparr>marks := (marks t)(item \<mapsto> on)\<rparr>)"

definition tree_check :: "nat \<Rightarrow> tree \<Rightarrow> bool option" where
  "tree_check item t = (if item = 0 then None else marks t item)"

section \<open>Building the trees\<close>

definition add_leaf :: "(nat \<Rightarrow> bool) \<Rightarrow> bool \<Rightarrow> attrs \<Rightarrow> tree \<Rightarrow> tree" where
  "add_leaf ok noded a t = (case tree_insert ok (Some (is_on a)) t of (i, t) \<Rightarrow>
     if i = 0 then t
     else t\<lparr>nodes := (if noded then (i, LeafNode (p_id a)) # nodes t else nodes t), leaf_items := AList.update (p_id a) i (leaf_items t)\<rparr>)"

fun insert_project :: "(nat \<Rightarrow> bool) \<Rightarrow> project \<Rightarrow> tree \<Rightarrow> tree" where
  "insert_project ok (Project a cs) t =
     (if cs = [] then add_leaf ok True a t
      else (case tree_insert ok None t of (_, t) \<Rightarrow> fold (insert_project ok) cs t))"

fun insert_service_leaves :: "(nat \<Rightarrow> bool) \<Rightarrow> project \<Rightarrow> tree \<Rightarrow> tree" where
  "insert_service_leaves ok (Project a cs) t =
     (if cs = [] then add_leaf ok False a t else fold (insert_service_leaves ok) cs t)"

declare insert_project.simps [simp del] insert_service_leaves.simps [simp del]

definition platform_group :: "(nat \<Rightarrow> bool) \<Rightarrow> group \<Rightarrow> tree \<Rightarrow> tree" where
  "platform_group ok g t = (case tree_insert ok (Some (group_enabled g)) t of (i, t) \<Rightarrow>
     if i = 0 then t
     else fold (insert_project ok) (g_items g)
       (t\<lparr>nodes := (i, GroupNode (g_name g)) # nodes t, group_items := AList.update (g_name g) i (group_items t)\<rparr>))"

definition service_group :: "(nat \<Rightarrow> bool) \<Rightarrow> group \<Rightarrow> tree \<Rightarrow> tree" where
  "service_group ok g t = (case tree_insert ok None t of (i, t) \<Rightarrow>
     if i = 0 then t else fold (insert_service_leaves ok) (g_items g) t)"

definition rebuild_platform :: "(nat \<Rightarrow> bool) \<Rightarrow> group list \<Rightarrow> tree" where
  "rebuild_platform ok gs = fold (platform_group ok) gs tree_clear"

definition rebuild_services :: "(nat \<Rightarrow> bool) \<Rightarrow> group list \<Rightarrow> tree" where
  "rebuild_services ok gs = fold (service_group ok) gs tree_clear"

section \<open>The page\<close>

text \<open>The window a mouse button went down on, and when (milliseconds).\<close>

datatype window = PlatformTree | ServicesTree | OtherWindow

record page =
  pg_groups :: "group list"
  pg_accel :: service
  platform :: tree
  services :: tree
  last_down :: "window option \<times> nat"

definition sync_leaves :: "group list \<Rightarrow> tree \<Rightarrow> tree" where
  "sync_leaves gs t = fold (\<lambda>(i, item) t. case leaf_states gs i of Some on \<Rightarrow> tree_set_check item on t | None \<Rightarrow> t) (leaf_items t) t"

definition sync_groups :: "group list \<Rightarrow> tree \<Rightarrow> tree" where
  "sync_groups gs t = fold (\<lambda>g t. case map_of (group_items t) (g_name g) of
     Some item \<Rightarrow> tree_set_check item (group_enabled g) t | None \<Rightarrow> t) gs t"

definition sync_checks :: "page \<Rightarrow> page" where
  "sync_checks p = p\<lparr>platform := sync_groups (pg_groups p) (sync_leaves (pg_groups p) (platform p)),
     services := sync_leaves (pg_groups p) (services p)\<rparr>"

definition commit :: "page \<Rightarrow> page" where
  "commit p = sync_checks (p\<lparr>pg_accel := apply_enabled (groups_enabled_ids (pg_groups p)) (pg_accel p)\<rparr>)"

definition note_mouse_down :: "window \<Rightarrow> nat \<Rightarrow> page \<Rightarrow> page" where
  "note_mouse_down w now p = p\<lparr>last_down := (Some w, now)\<rparr>"

definition take_tree_click :: "window \<Rightarrow> nat \<Rightarrow> page \<Rightarrow> bool \<times> page" where
  "take_tree_click w now p = (case last_down p of (lw, at) \<Rightarrow>
     if lw = Some w \<and> now - at < 2000 then (True, p\<lparr>last_down := (None, now)\<rparr>) else (False, p))"

definition put_groups :: "page \<Rightarrow> group list \<times> bool \<Rightarrow> page" where
  "put_groups p r = (case r of (gs, changed) \<Rightarrow> if changed then commit (p\<lparr>pg_groups := gs\<rparr>) else p\<lparr>pg_groups := gs\<rparr>)"

definition on_platform_check :: "nat \<Rightarrow> nat \<Rightarrow> page \<Rightarrow> page" where
  "on_platform_check now item p = (case take_tree_click PlatformTree now p of (clicked, p) \<Rightarrow>
     (case map_of (nodes (platform p)) item of
       None \<Rightarrow> p
     | Some node \<Rightarrow> (case tree_check item (platform p) of
         None \<Rightarrow> p
       | Some ctrl \<Rightarrow> (case node of
           GroupNode name \<Rightarrow>
             if map_option group_enabled (find (\<lambda>g. g_name g = name) (pg_groups p)) = Some ctrl \<or> \<not> clicked then p
             else put_groups p (set_group (pg_groups p) name ctrl)
         | LeafNode i \<Rightarrow>
             if leaf_states (pg_groups p) i = Some ctrl \<or> \<not> clicked then p
             else put_groups p (set_leaf (pg_groups p) i ctrl)))))"

definition on_service_check :: "nat \<Rightarrow> nat \<Rightarrow> page \<Rightarrow> page" where
  "on_service_check now item p = (case take_tree_click ServicesTree now p of (clicked, p) \<Rightarrow>
     (case find (\<lambda>(i, h). h = item) (leaf_items (services p)) of
       None \<Rightarrow> p
     | Some (i, _) \<Rightarrow> (case tree_check item (services p) of
         None \<Rightarrow> p
       | Some ctrl \<Rightarrow>
           if leaf_states (pg_groups p) i = Some ctrl \<or> \<not> clicked then p
           else put_groups p (set_leaf (pg_groups p) i ctrl))))"

definition build_page :: "(nat \<Rightarrow> bool) \<Rightarrow> page \<Rightarrow> page" where
  "build_page ok p = sync_checks (p\<lparr>platform := rebuild_platform ok (pg_groups p), services := rebuild_services ok (pg_groups p)\<rparr>)"

section \<open>Well-formed trees\<close>

definition items_of :: "tree \<Rightarrow> nat list" where
  "items_of t = map snd (leaf_items t) @ map snd (group_items t)"

text \<open>Every item with a mark stands for one leaf or one group, and the node of the platform tree says which.\<close>

definition tree_wf :: "bool \<Rightarrow> tree \<Rightarrow> bool" where
  "tree_wf noded t \<longleftrightarrow> distinct (map fst (leaf_items t)) \<and> distinct (map fst (group_items t)) \<and> distinct (items_of t) \<and>
     0 \<notin> set (items_of t) \<and> set (items_of t) \<union> fst ` set (nodes t) \<subseteq> {..inserted t} \<and> dom (marks t) \<subseteq> set (items_of t) \<and>
     (noded \<longrightarrow> map_of (nodes t) = map_of (map (\<lambda>(i, x). (x, LeafNode i)) (leaf_items t) @ map (\<lambda>(n, x). (x, GroupNode n)) (group_items t)))"

lemma tree_clear_wf: "tree_wf noded tree_clear"
  by (simp add: tree_wf_def tree_clear_def items_of_def)

text \<open>An insertion that fails or shows no mark keeps a tree well formed.\<close>

lemma plain_insert_wf: "tree_wf noded t \<Longrightarrow> \<not> ok (inserted t) \<or> mark = None \<Longrightarrow> tree_wf noded (snd (tree_insert ok mark t))"
proof -
  have a: "s \<subseteq> {..n} \<Longrightarrow> s \<subseteq> {..Suc n}" for s :: "nat set" and n by auto
  show "tree_wf noded t \<Longrightarrow> \<not> ok (inserted t) \<or> mark = None \<Longrightarrow> tree_wf noded (snd (tree_insert ok mark t))"
    by (auto simp: tree_wf_def items_of_def tree_insert_def dest: a)
qed

lemma alist_update_new: "k \<notin> fst ` set al \<Longrightarrow> AList.update k v al = al @ [(k, v)]"
  by (induction al) auto

lemma add_leaf_wf:
  assumes "tree_wf noded t" "p_id a \<notin> fst ` set (leaf_items t)"
  shows "tree_wf noded (add_leaf ok noded a t) \<and> group_items (add_leaf ok noded a t) = group_items t \<and>
    fst ` set (leaf_items (add_leaf ok noded a t)) \<subseteq> insert (p_id a) (fst ` set (leaf_items t))"
proof (cases "ok (inserted t)")
  case False
  then show ?thesis using plain_insert_wf [OF assms(1), of ok] by (auto simp: add_leaf_def tree_insert_def)
next
  case True
  let ?i = "Suc (inserted t)"
  define t' where "t' = add_leaf ok noded a t"
  have t': "t' = t\<lparr>marks := (marks t)(?i \<mapsto> is_on a), inserted := ?i,
      nodes := (if noded then (?i, LeafNode (p_id a)) # nodes t else nodes t), leaf_items := leaf_items t @ [(p_id a, ?i)]\<rparr>"
    using True assms(2) by (simp add: t'_def add_leaf_def tree_insert_def alist_update_new)
  have b: "set (items_of t) \<union> fst ` set (nodes t) \<subseteq> {..inserted t}" using assms(1) by (simp add: tree_wf_def)
  then have fresh: "?i \<notin> set (items_of t)" "?i \<notin> fst ` set (nodes t)" by auto
  have "set (items_of t') = insert ?i (set (items_of t))" by (auto simp: t' items_of_def)
  moreover have "distinct (items_of t')" using assms(1) fresh(1) by (auto simp: t' items_of_def tree_wf_def)
  moreover have "set (items_of t') \<union> fst ` set (nodes t') \<subseteq> {..inserted t'}"
    using b by (auto simp: t' items_of_def split: if_splits)
  moreover have "map_of (nodes t') = map_of (map (\<lambda>(i, x). (x, LeafNode i)) (leaf_items t') @ map (\<lambda>(n, x). (x, GroupNode n)) (group_items t'))"
    if noded
  proof -
    let ?gs = "map (\<lambda>(n, x). (x, GroupNode n)) (group_items t)" and ?ls = "map (\<lambda>(i, x). (x, LeafNode i)) (leaf_items t)"
    have "?i \<notin> fst ` set ?ls" using fresh(1) by (force simp: items_of_def)
    then have l: "map_of ?ls ?i = None" by (simp add: map_of_eq_None_iff)
    have "?i \<notin> fst ` set ?gs" using fresh(1) by (force simp: items_of_def)
    then have g: "map_of ?gs ?i = None" by (simp add: map_of_eq_None_iff)
    have "map_of (nodes t) = map_of (?ls @ ?gs)" using assms(1) that by (simp add: tree_wf_def)
    then show ?thesis using that l g by (auto simp: t' map_add_def split: option.splits)
  qed
  ultimately have "tree_wf noded t'" using assms fresh by (auto simp: tree_wf_def t')
  then show ?thesis unfolding t'_def [symmetric] using t' by auto
qed

abbreviation ids_of :: "project list \<Rightarrow> string list" where
  "ids_of ps \<equiv> map (\<lambda>l. p_id (attrs l)) (concat (map all_leaves ps))"

text \<open>Both walks insert the leaves of a project one after the other.\<close>

definition insert_leaves :: "(nat \<Rightarrow> bool) \<Rightarrow> bool \<Rightarrow> project \<Rightarrow> tree \<Rightarrow> tree" where
  "insert_leaves ok noded = (if noded then insert_project ok else insert_service_leaves ok)"

definition grown :: "bool \<Rightarrow> string list \<Rightarrow> tree \<Rightarrow> tree \<Rightarrow> bool" where
  "grown noded is t t' \<longleftrightarrow> tree_wf noded t' \<and> group_items t' = group_items t \<and>
     fst ` set (leaf_items t') \<subseteq> fst ` set (leaf_items t) \<union> set is"

lemma grown_trans: "grown noded is t t1 \<Longrightarrow> grown noded js t1 t2 \<Longrightarrow> grown noded (is @ js) t t2"
proof -
  assume "grown noded is t t1" "grown noded js t1 t2"
  then have "tree_wf noded t2" "group_items t2 = group_items t" "fst ` set (leaf_items t2) \<subseteq> fst ` set (leaf_items t1) \<union> set js"
    "fst ` set (leaf_items t1) \<subseteq> fst ` set (leaf_items t) \<union> set is" by (simp_all add: grown_def)
  then show ?thesis unfolding grown_def set_append by (intro conjI) (assumption, assumption, blast)
qed

lemma insert_list_grown:
  assumes "\<And>p t. p \<in> set ps \<Longrightarrow> tree_wf noded t \<Longrightarrow> distinct (ids_of [p]) \<Longrightarrow>
      set (ids_of [p]) \<inter> fst ` set (leaf_items t) = {} \<Longrightarrow> grown noded (ids_of [p]) t (f p t)"
    and "tree_wf noded t" "distinct (ids_of ps)" "set (ids_of ps) \<inter> fst ` set (leaf_items t) = {}"
  shows "grown noded (ids_of ps) t (fold f ps t)"
  using assms
proof (induction ps arbitrary: t)
  case Nil
  then show ?case by (simp add: grown_def)
next
  case (Cons p ps)
  have i: "ids_of (p # ps) = ids_of [p] @ ids_of ps" by simp
  have d: "distinct (ids_of [p])" "distinct (ids_of ps)" "set (ids_of [p]) \<inter> set (ids_of ps) = {}"
    "set (ids_of [p]) \<inter> fst ` set (leaf_items t) = {}" "set (ids_of ps) \<inter> fst ` set (leaf_items t) = {}"
    using Cons.prems(3,4) unfolding i by auto
  have p: "grown noded (ids_of [p]) t (f p t)" by (rule Cons.prems(1) [OF _ Cons.prems(2) d(1,4)]) simp
  then have w: "tree_wf noded (f p t)" "fst ` set (leaf_items (f p t)) \<subseteq> fst ` set (leaf_items t) \<union> set (ids_of [p])"
    unfolding grown_def by blast+
  have "set (ids_of ps) \<inter> fst ` set (leaf_items (f p t)) = {}" using w(2) d(3,5) by blast
  then have "grown noded (ids_of ps) (f p t) (fold f ps (f p t))"
    using Cons.IH [OF Cons.prems(1) w(1) d(2)] by simp
  then show ?case using grown_trans [OF p] unfolding i by simp
qed

lemma insert_leaves_grown:
  "tree_wf noded t \<Longrightarrow> distinct (ids_of [p]) \<Longrightarrow> set (ids_of [p]) \<inter> fst ` set (leaf_items t) = {} \<Longrightarrow>
   grown noded (ids_of [p]) t (insert_leaves ok noded p t)"
proof (induction p arbitrary: t)
  case (Project a cs)
  show ?case
  proof (cases "cs = []")
    case True
    then have "insert_leaves ok noded (Project a cs) t = add_leaf ok noded a t"
      by (simp add: insert_leaves_def insert_project.simps insert_service_leaves.simps)
    then show ?thesis using add_leaf_wf [OF Project.prems(1), of a ok] Project.prems(3) True by (auto simp: grown_def)
  next
    case False
    define u where "u = (if noded then snd (tree_insert ok None t) else t)"
    have e: "insert_leaves ok noded (Project a cs) t = fold (insert_leaves ok noded) cs u"
      using False by (simp add: insert_leaves_def u_def insert_project.simps insert_service_leaves.simps split: prod.splits)
    have k: "leaf_items u = leaf_items t" "group_items u = group_items t" by (simp_all add: u_def tree_insert_def)
    have "tree_wf noded u" using plain_insert_wf [OF Project.prems(1), of ok None] Project.prems(1) by (cases noded) (simp_all add: u_def)
    then have "grown noded (ids_of cs) u (fold (insert_leaves ok noded) cs u)"
      using Project False by (intro insert_list_grown) (auto simp: k all_leaves_node)
    then show ?thesis unfolding e using False k by (simp add: grown_def all_leaves_node)
  qed
qed

lemma fold_insert_grown:
  assumes "tree_wf noded t" "distinct (ids_of ps)" "set (ids_of ps) \<inter> fst ` set (leaf_items t) = {}"
  shows "grown noded (ids_of ps) t (fold (insert_leaves ok noded) ps t)"
  by (rule insert_list_grown [OF insert_leaves_grown assms])

abbreviation group_ids :: "group list \<Rightarrow> string list" where
  "group_ids gs \<equiv> ids_of (concat (map g_items gs))"

lemma group_ids_leaf_ids: "group_ids gs = leaf_ids gs"
  by (induction gs) (simp_all add: leaves_of_def)

text \<open>What a tree has after some groups were inserted: their leaves and, in the platform tree, their names.\<close>

definition covers :: "bool \<Rightarrow> group list \<Rightarrow> tree \<Rightarrow> bool" where
  "covers noded gs t \<longleftrightarrow> tree_wf noded t \<and> fst ` set (leaf_items t) \<subseteq> set (leaf_ids gs) \<and>
     fst ` set (group_items t) \<subseteq> g_name ` set gs"

lemma add_group_wf:
  assumes "tree_wf True t" "n \<notin> fst ` set (group_items t)" "ok (inserted t)" "tree_insert ok (Some b) t = (i, u)"
  shows "i \<noteq> 0 \<and> tree_wf True (u\<lparr>nodes := (i, GroupNode n) # nodes u, group_items := AList.update n i (group_items u)\<rparr>)"
proof -
  let ?i = "Suc (inserted t)"
  define t' where "t' = u\<lparr>nodes := (i, GroupNode n) # nodes u, group_items := AList.update n i (group_items u)\<rparr>"
  have i: "i = ?i" and t': "t' = t\<lparr>marks := (marks t)(?i \<mapsto> b), inserted := ?i,
      nodes := (?i, GroupNode n) # nodes t, group_items := group_items t @ [(n, ?i)]\<rparr>"
    using assms(2-4) by (auto simp: t'_def tree_insert_def alist_update_new)
  have b: "set (items_of t) \<union> fst ` set (nodes t) \<subseteq> {..inserted t}" using assms(1) by (simp add: tree_wf_def)
  then have fresh: "?i \<notin> set (items_of t)" "?i \<notin> fst ` set (nodes t)" by auto
  have s: "set (items_of t') = insert ?i (set (items_of t))" by (auto simp: t' items_of_def)
  have "distinct (items_of t')" using assms(1) fresh(1) by (auto simp: t' items_of_def tree_wf_def)
  moreover have "set (items_of t') \<union> fst ` set (nodes t') \<subseteq> {..inserted t'}"
    using b by (auto simp: t' items_of_def)
  moreover have "map_of (nodes t') = map_of (map (\<lambda>(i, x). (x, LeafNode i)) (leaf_items t') @ map (\<lambda>(n, x). (x, GroupNode n)) (group_items t'))"
  proof -
    let ?gs = "map (\<lambda>(n, x). (x, GroupNode n)) (group_items t)" and ?ls = "map (\<lambda>(i, x). (x, LeafNode i)) (leaf_items t)"
    have "?i \<notin> fst ` set ?ls" "?i \<notin> fst ` set ?gs" using fresh(1) by (force simp: items_of_def)+
    then have l: "map_of ?ls ?i = None" "map_of ?gs ?i = None" by (simp_all add: map_of_eq_None_iff)
    have "map_of (nodes t) = map_of (?ls @ ?gs)" using assms(1) by (simp add: tree_wf_def)
    then show ?thesis using l by (auto simp: t' map_add_def split: option.splits)
  qed
  ultimately have "tree_wf True t'" using assms(1,2) s by (auto simp: tree_wf_def t')
  then show ?thesis using i by (simp add: t'_def)
qed

lemma platform_group_covers:
  assumes "covers True gs t" "distinct (leaf_ids (gs @ [g]))" "distinct (map g_name (gs @ [g]))"
  shows "covers True (gs @ [g]) (platform_group ok g t)"
proof -
  obtain i u where u: "tree_insert ok (Some (group_enabled g)) t = (i, u)" by fastforce
  have l: "leaf_ids (gs @ [g]) = leaf_ids gs @ ids_of (g_items g)" by (simp add: leaves_of_def)
  have w: "tree_wf True t" using assms(1) by (simp add: covers_def)
  have n: "g_name g \<notin> fst ` set (group_items t)" using assms(1,3) by (auto simp: covers_def)
  show ?thesis
  proof (cases "ok (inserted t)")
    case False
    then have "i = 0" "tree_wf True u" "leaf_items u = leaf_items t" "group_items u = group_items t"
      using u plain_insert_wf [OF w, of ok "Some (group_enabled g)"] by (auto simp: tree_insert_def)
    then show ?thesis using assms(1) u by (auto simp: platform_group_def covers_def leaves_of_def)
  next
    case True
    define v where "v = u\<lparr>nodes := (i, GroupNode (g_name g)) # nodes u, group_items := AList.update (g_name g) i (group_items u)\<rparr>"
    have i: "i \<noteq> 0" "tree_wf True v" using add_group_wf [OF w n True u] by (simp_all add: v_def)
    have k: "leaf_items v = leaf_items t" "group_items v = group_items t @ [(g_name g, i)]"
      using u n True by (auto simp: v_def tree_insert_def alist_update_new)
    have "platform_group ok g t = fold (insert_leaves ok True) (g_items g) v"
      using i(1) u by (simp add: platform_group_def v_def insert_leaves_def)
    moreover have "grown True (ids_of (g_items g)) v (fold (insert_leaves ok True) (g_items g) v)"
    proof (rule fold_insert_grown [OF i(2)])
      show "distinct (ids_of (g_items g))" using assms(2) unfolding l by simp
      have "fst ` set (leaf_items v) \<subseteq> set (leaf_ids gs)" using assms(1) k by (simp add: covers_def)
      moreover have "set (leaf_ids gs) \<inter> set (ids_of (g_items g)) = {}" using assms(2) unfolding l distinct_append by blast
      ultimately show "set (ids_of (g_items g)) \<inter> fst ` set (leaf_items v) = {}" by blast
    qed
    ultimately show ?thesis using assms(1) k unfolding covers_def grown_def l by auto
  qed
qed

lemma service_group_covers:
  assumes "covers False gs t" "distinct (leaf_ids (gs @ [g]))"
  shows "covers False (gs @ [g]) (service_group ok g t)"
proof -
  obtain i u where u: "tree_insert ok None t = (i, u)" by fastforce
  have l: "leaf_ids (gs @ [g]) = leaf_ids gs @ ids_of (g_items g)" by (simp add: leaves_of_def)
  have w: "tree_wf False u" using u plain_insert_wf [of False t ok None] assms(1) by (simp add: covers_def)
  have k: "leaf_items u = leaf_items t" "group_items u = group_items t" using u by (auto simp: tree_insert_def split: if_splits)
  have "grown False (ids_of (g_items g)) u (fold (insert_leaves ok False) (g_items g) u)"
  proof (rule fold_insert_grown [OF w])
    show "distinct (ids_of (g_items g))" using assms(2) unfolding l by simp
    have "fst ` set (leaf_items u) \<subseteq> set (leaf_ids gs)" using assms(1) k by (simp add: covers_def)
    moreover have "set (leaf_ids gs) \<inter> set (ids_of (g_items g)) = {}" using assms(2) unfolding l distinct_append by blast
    ultimately show "set (ids_of (g_items g)) \<inter> fst ` set (leaf_items u) = {}" by blast
  qed
  moreover have "service_group ok g t = (if i = 0 then u else fold (insert_leaves ok False) (g_items g) u)"
    using u by (simp add: service_group_def insert_leaves_def)
  ultimately show ?thesis using assms(1) k w unfolding covers_def grown_def l by (cases "i = 0") auto
qed

lemma rebuild_covers:
  assumes "distinct (leaf_ids gs)"
  shows "distinct (map g_name gs) \<Longrightarrow> covers True gs (rebuild_platform ok gs)" "covers False gs (rebuild_services ok gs)"
proof -
  have z: "covers noded [] tree_clear" for noded using tree_clear_wf by (simp add: covers_def tree_clear_def)
  show "distinct (map g_name gs) \<Longrightarrow> covers True gs (rebuild_platform ok gs)" using assms
  proof (induction gs rule: rev_induct)
    case (snoc g gs)
    then show ?case using platform_group_covers [of gs "rebuild_platform ok gs" g ok] by (simp add: rebuild_platform_def leaves_of_def)
  qed (simp add: rebuild_platform_def z)
  show "covers False gs (rebuild_services ok gs)" using assms
  proof (induction gs rule: rev_induct)
    case (snoc g gs)
    then show ?case using service_group_covers [of gs "rebuild_services ok gs" g ok] by (simp add: rebuild_services_def leaves_of_def)
  qed (simp add: rebuild_services_def z)
qed

section \<open>What the boxes show\<close>

definition shows_groups :: "group list \<Rightarrow> tree \<Rightarrow> bool" where
  "shows_groups gs t \<longleftrightarrow> (\<forall>(i, x)\<in>set (leaf_items t). marks t x = leaf_states gs i) \<and>
     (\<forall>g\<in>set gs. \<forall>x. map_of (group_items t) (g_name g) = Some x \<longrightarrow> marks t x = Some (group_enabled g))"

definition page_ok :: "page \<Rightarrow> bool" where
  "page_ok p \<longleftrightarrow> distinct (leaf_ids (pg_groups p)) \<and> distinct (map g_name (pg_groups p)) \<and>
     covers True (pg_groups p) (platform p) \<and> covers False (pg_groups p) (services p) \<and>
     shows_groups (pg_groups p) (platform p) \<and> shows_groups (pg_groups p) (services p) \<and> group_items (services p) = []"

lemma leaf_states_dom: "dom (leaf_states gs) = set (leaf_ids gs)"
  by (simp add: leaf_states_leaves fold_states_dom)

lemma fold_set_check:
  assumes "distinct (map snd xs)" "0 \<notin> snd ` set xs"
  shows "fold (\<lambda>(i, x) t. case f i of Some on \<Rightarrow> tree_set_check x on t | None \<Rightarrow> t) xs t =
    t\<lparr>marks := (\<lambda>x. case map_of (map (\<lambda>(i, x). (x, i)) xs) x of Some i \<Rightarrow> (case f i of Some on \<Rightarrow> Some on | None \<Rightarrow> marks t x) | None \<Rightarrow> marks t x)\<rparr>"
  using assms
proof (induction xs arbitrary: t)
  case (Cons y xs)
  obtain i x where y: "y = (i, x)" by fastforce
  have "x \<notin> fst ` set (map (\<lambda>(i, x). (x, i)) xs)" using Cons.prems(1) y by force
  then have n: "map_of (map (\<lambda>(i, x). (x, i)) xs) x = None" by (simp add: map_of_eq_None_iff)
  show ?case using Cons y n by (cases "f i") (auto simp: tree_set_check_def fun_eq_iff split: option.splits)
qed simp

lemma sync_leaves_marks:
  assumes "covers noded gs t"
  shows "\<exists>m. sync_leaves gs t = t\<lparr>marks := m\<rparr> \<and> (\<forall>(i, x)\<in>set (leaf_items t). m x = leaf_states gs i) \<and>
    (\<forall>x. x \<notin> snd ` set (leaf_items t) \<longrightarrow> m x = marks t x)"
proof -
  let ?xs = "map (\<lambda>(i, x). (x, i)) (leaf_items t)"
  have d: "distinct (map snd (leaf_items t))" "0 \<notin> snd ` set (leaf_items t)"
    using assms by (simp_all add: covers_def tree_wf_def items_of_def)
  then have "distinct (map fst ?xs)" by (simp add: comp_def case_prod_beta)
  moreover have "(i, x) \<in> set (leaf_items t) \<Longrightarrow> (x, i) \<in> set ?xs" for i x
    by (simp only: set_map) (rule rev_image_eqI, assumption, simp)
  ultimately have i: "(i, x) \<in> set (leaf_items t) \<Longrightarrow> map_of ?xs x = Some i" for i x by (intro map_of_is_SomeI)
  have o: "x \<notin> snd ` set (leaf_items t) \<Longrightarrow> map_of ?xs x = None" for x by (force simp: map_of_eq_None_iff)
  have "(i, x) \<in> set (leaf_items t) \<Longrightarrow> \<exists>b. leaf_states gs i = Some b" for i x
    using assms leaf_states_dom [of gs] by (force simp: covers_def)
  then show ?thesis unfolding sync_leaves_def fold_set_check [OF d] using i o by (intro exI conjI) (rule refl, fastforce, simp)
qed

lemma sync_groups_marks:
  assumes "distinct (map g_name gs)" "distinct (map snd (group_items t))" "0 \<notin> snd ` set (group_items t)" "distinct (map fst (group_items t))"
  shows "\<exists>m. sync_groups gs t = t\<lparr>marks := m\<rparr> \<and>
    (\<forall>g\<in>set gs. \<forall>x. map_of (group_items t) (g_name g) = Some x \<longrightarrow> m x = Some (group_enabled g)) \<and>
    (\<forall>x. x \<notin> snd ` set (group_items t) \<longrightarrow> m x = marks t x)"
  using assms
proof (induction gs rule: rev_induct)
  case Nil
  then show ?case by (intro exI [of _ "marks t"]) (simp add: sync_groups_def)
next
  case (snoc g gs)
  obtain m where m: "sync_groups gs t = t\<lparr>marks := m\<rparr>"
    "\<forall>g\<in>set gs. \<forall>x. map_of (group_items t) (g_name g) = Some x \<longrightarrow> m x = Some (group_enabled g)"
    "\<forall>x. x \<notin> snd ` set (group_items t) \<longrightarrow> m x = marks t x"
    using snoc by auto
  have st: "sync_groups (gs @ [g]) t = (case map_of (group_items t) (g_name g) of
      Some x \<Rightarrow> tree_set_check x (group_enabled g) (t\<lparr>marks := m\<rparr>) | None \<Rightarrow> t\<lparr>marks := m\<rparr>)"
    using m(1) by (cases "map_of (group_items t) (g_name g)") (simp_all add: sync_groups_def)
  show ?case
  proof (cases "map_of (group_items t) (g_name g)")
    case None
    then show ?thesis using st m by (intro exI [of _ m]) auto
  next
    case (Some x)
    then have x: "(g_name g, x) \<in> set (group_items t)" by (rule map_of_SomeD)
    then have nz: "x \<noteq> 0" "x \<in> snd ` set (group_items t)" using snoc.prems(3) by (force, force)
    have ne: "y \<noteq> x" if "h \<in> set gs" "map_of (group_items t) (g_name h) = Some y" for h y
    proof
      assume "y = x"
      then have "(g_name h, x) \<in> set (group_items t)" using map_of_SomeD [OF that(2)] by simp
      then have "g_name h = g_name g" using x snoc.prems(2) by (metis distinct_map inj_onD prod.inject snd_conv)
      moreover have "g_name g \<notin> g_name ` set gs" using snoc.prems(1) by simp
      ultimately show False using that(1) by (metis image_eqI)
    qed
    have "sync_groups (gs @ [g]) t = t\<lparr>marks := m(x \<mapsto> group_enabled g)\<rparr>"
      using st Some nz(1) by (simp add: tree_set_check_def)
    moreover have "(m(x \<mapsto> group_enabled g)) y = Some (group_enabled h)"
      if "h \<in> set (gs @ [g])" "map_of (group_items t) (g_name h) = Some y" for h y
      using that m(2) ne Some by (cases "h = g") auto
    moreover have "(m(x \<mapsto> group_enabled g)) y = marks t y" if "y \<notin> snd ` set (group_items t)" for y
      using that m(3) nz(2) by auto
    ultimately show ?thesis by blast
  qed
qed

lemma tree_wf_marks:
  "tree_wf noded t \<Longrightarrow> \<forall>x. x \<notin> set (items_of t) \<longrightarrow> m x = marks t x \<Longrightarrow> tree_wf noded (t\<lparr>marks := m\<rparr>)" (is "_ \<Longrightarrow> _ \<Longrightarrow> ?thesis")
proof -
  assume w: "tree_wf noded t" and m: "\<forall>x. x \<notin> set (items_of t) \<longrightarrow> m x = marks t x"
  then have "dom m \<subseteq> set (items_of t)" unfolding tree_wf_def by (metis domIff subset_iff)
  then show ?thesis using w by (simp add: tree_wf_def items_of_def)
qed

lemma sync_tree:
  assumes "covers noded gs t" "distinct (map g_name gs)"
  shows "covers noded gs (sync_groups gs (sync_leaves gs t)) \<and> shows_groups gs (sync_groups gs (sync_leaves gs t))"
proof -
  have w: "distinct (items_of t)" "0 \<notin> set (items_of t)" "distinct (map fst (group_items t))"
    using assms(1) by (simp_all add: covers_def tree_wf_def)
  obtain m where m: "sync_leaves gs t = t\<lparr>marks := m\<rparr>" "\<forall>(i, x)\<in>set (leaf_items t). m x = leaf_states gs i"
    "\<forall>x. x \<notin> snd ` set (leaf_items t) \<longrightarrow> m x = marks t x" using sync_leaves_marks [OF assms(1)] by blast
  have "distinct (map snd (group_items t))" "0 \<notin> snd ` set (group_items t)" using w by (simp_all add: items_of_def)
  then obtain k where k: "sync_groups gs (t\<lparr>marks := m\<rparr>) = t\<lparr>marks := k\<rparr>"
    "\<forall>g\<in>set gs. \<forall>x. map_of (group_items t) (g_name g) = Some x \<longrightarrow> k x = Some (group_enabled g)"
    "\<forall>x. x \<notin> snd ` set (group_items t) \<longrightarrow> k x = m x"
    using sync_groups_marks [OF assms(2), of "t\<lparr>marks := m\<rparr>"] w(3) by auto
  have "(i, x) \<in> set (leaf_items t) \<Longrightarrow> x \<notin> snd ` set (group_items t)" for i x using w(1) by (force simp: items_of_def)
  then have "\<forall>(i, x)\<in>set (leaf_items t). k x = leaf_states gs i" using k(3) m(2) by force
  moreover have "tree_wf noded (t\<lparr>marks := k\<rparr>)"
    using assms(1) m(3) k(3) by (intro tree_wf_marks) (simp_all add: covers_def items_of_def)
  ultimately show ?thesis using assms(1) k(2) unfolding m(1) k(1) by (simp add: covers_def shows_groups_def)
qed

lemma commit_ok:
  assumes "distinct (leaf_ids (pg_groups p))" "distinct (map g_name (pg_groups p))"
    "covers True (pg_groups p) (platform p)" "covers False (pg_groups p) (services p)" "group_items (services p) = []"
  shows "page_ok (sync_checks p)" "page_ok (commit p)"
proof -
  have g: "sync_groups gs t = t" if "group_items t = []" for gs t
    using that by (induction gs rule: rev_induct) (simp_all add: sync_groups_def)
  have l: "group_items (sync_leaves gs t) = group_items t" if "covers noded gs t" for noded gs t
    using sync_leaves_marks [OF that] by auto
  have "group_items (services (sync_checks p)) = []"
    using assms(5) g [of "sync_leaves (pg_groups p) (services p)"] l [OF assms(4)] by (simp add: sync_checks_def)
  then show "page_ok (sync_checks p)"
    using assms sync_tree [OF assms(3,2)] sync_tree [OF assms(4,2)] g [of "sync_leaves (pg_groups p) (services p)"] l [OF assms(4)]
    by (simp_all add: page_ok_def sync_checks_def)
  then show "page_ok (commit p)" by (simp add: commit_def page_ok_def sync_checks_def)
qed

text \<open>In the services tree the groups have no box, so walking the leaves is enough.\<close>

lemma service_items:
  "group_items (fold (insert_service_leaves ok) ps t) = group_items t"
  "group_items (insert_service_leaves ok p t) = group_items t"
proof -
  show one: "group_items (insert_service_leaves ok p t) = group_items t" for p t
  proof (induction p arbitrary: t)
    case (Project a cs)
    have "group_items (fold (insert_service_leaves ok) ds t) = group_items t" if "set ds \<subseteq> set cs" for ds t
      using that Project by (induction ds arbitrary: t) auto
    then show ?case by (auto simp: insert_service_leaves.simps add_leaf_def tree_insert_def)
  qed
  show "group_items (fold (insert_service_leaves ok) ps t) = group_items t" by (induction ps arbitrary: t) (simp_all add: one)
qed

lemma service_tree_groups: "group_items (rebuild_services ok gs) = []"
proof -
  have "group_items (service_group ok g t) = group_items t" for g t
    by (auto simp: service_group_def tree_insert_def service_items)
  then have "group_items (fold (service_group ok) gs t) = group_items t" for t by (induction gs arbitrary: t) simp_all
  then show ?thesis by (simp add: rebuild_services_def tree_clear_def)
qed

section \<open>Toggling keeps the identities\<close>

text \<open>Both kinds of toggle change the state of the leaves of a set of ids and nothing else a tree depends on.\<close>

definition toggled :: "string set \<Rightarrow> bool \<Rightarrow> group list \<Rightarrow> group list \<Rightarrow> bool" where
  "toggled S on gs gs' \<longleftrightarrow> leaf_ids gs' = leaf_ids gs \<and> map g_name gs' = map g_name gs \<and>
     leaf_states gs' = (\<lambda>i. if i \<in> S then Some on else leaf_states gs i)"

lemma leaf_states_iff:
  assumes "distinct (leaf_ids gs)"
  shows "leaf_states gs i = Some v \<longleftrightarrow> (\<exists>l\<in>set (leaves_of gs). has_id i l \<and> is_on (attrs l) = v)"
proof -
  have "fold put_leaf ls m = m ++ map_of (rev (map (\<lambda>l. (p_id (attrs l), is_on (attrs l))) ls))" for ls m
    by (induction ls arbitrary: m) (simp_all add: put_leaf_def)
  then have "leaf_states gs = map_of (rev (map (\<lambda>l. (p_id (attrs l), is_on (attrs l))) (leaves_of gs)))"
    by (simp add: leaf_states_leaves)
  moreover have "distinct (map fst (rev (map (\<lambda>l. (p_id (attrs l), is_on (attrs l))) (leaves_of gs))))"
    using assms by (simp add: rev_map [symmetric] comp_def)
  ultimately show ?thesis by (force simp: image_iff)
qed

lemma toggledI:
  assumes "distinct (leaf_ids gs)" "leaves_of gs' = map (\<lambda>l. if p_id (attrs l) \<in> S then put_state on l else l) (leaves_of gs)"
    "map g_name gs' = map g_name gs" "S \<subseteq> set (leaf_ids gs)"
  shows "toggled S on gs gs'"
proof -
  have ids: "leaf_ids gs' = leaf_ids gs" by (auto simp: assms(2) put_state_def)
  have d': "distinct (leaf_ids gs')" using assms(1) ids by simp
  have "leaf_states gs' i = (if i \<in> S then Some on else leaf_states gs i)" for i
  proof (cases "i \<in> S")
    case True
    then obtain l where "l \<in> set (leaves_of gs)" "has_id i l" using assms(4) by auto
    then have "put_state on l \<in> set (leaves_of gs')" using True by (force simp: assms(2))
    then have "leaf_states gs' i = Some on" unfolding leaf_states_iff [OF d'] using \<open>has_id i l\<close>
      by (intro bexI [of _ "put_state on l"]) (auto simp: put_state_def)
    then show ?thesis using True by simp
  next
    case False
    then have "leaf_states gs' i = Some v \<longleftrightarrow> leaf_states gs i = Some v" for v
      unfolding leaf_states_iff [OF d'] leaf_states_iff [OF assms(1)] by (auto simp: assms(2) put_state_def)
    then show ?thesis using False by (metis option.exhaust)
  qed
  then show ?thesis using ids assms(3) by (simp add: toggled_def fun_eq_iff)
qed

lemma recompute_names [simp]: "map g_name (recompute gs) = map g_name gs"
  by (simp add: recompute_def recompute_group_def case_prod_beta)

lemma set_leaf_groups_names: "set_leaf_groups i on gs = (gs', b) \<Longrightarrow> map g_name gs' = map g_name gs"
  by (induction i on gs arbitrary: gs' b rule: set_leaf_groups.induct) (auto split: prod.splits if_splits)

lemma update_first_distinct:
  "distinct (map (\<lambda>l. p_id (attrs l)) ls) \<Longrightarrow>
   update_first (has_id i) (put_state on) ls = map (\<lambda>l. if p_id (attrs l) \<in> {i} then put_state on l else l) ls"
proof (induction ls)
  case (Cons l ls)
  show ?case
  proof (cases "has_id i l")
    case True
    then have "i \<notin> (\<lambda>l. p_id (attrs l)) ` set ls" using Cons.prems by auto
    then have "map (\<lambda>l. if p_id (attrs l) \<in> {i} then put_state on l else l) ls = ls" by (intro map_idI) auto
    then show ?thesis using True by simp
  next
    case False
    then show ?thesis using Cons by simp
  qed
qed simp

lemma set_leaf_toggled:
  assumes "distinct (leaf_ids gs)" "i \<in> set (leaf_ids gs)" "set_leaf gs i on = (gs', b)"
  shows "b \<and> toggled {i} on gs gs'"
proof -
  obtain g1 c where g: "set_leaf_groups i on gs = (g1, c)" by fastforce
  have "c" using set_leaf_groups_leaves [OF g] assms(2) by auto
  then have b: "b" "gs' = recompute g1" using assms(3) g by (simp_all add: set_leaf_def)
  have "leaves_of gs' = map (\<lambda>l. if p_id (attrs l) \<in> {i} then put_state on l else l) (leaves_of gs)"
    unfolding b recompute_leaves using set_leaf_groups_leaves [OF g] update_first_distinct [OF assms(1)] by simp
  then show ?thesis using b set_leaf_groups_names [OF g] assms(2) by (intro conjI toggledI [OF assms(1)]) simp_all
qed

lemma each_leaf_leaves: "all_leaves (each_leaf f p) = map (\<lambda>l. Project (f (attrs l)) []) (all_leaves p)"
proof (induction p)
  case (Project a cs)
  then show ?case
    by (cases "cs = []") (auto simp: each_leaf.simps all_leaves_node map_concat comp_def intro!: arg_cong [of _ _ concat])
qed

lemma set_first_group_map:
  "distinct (map g_name gs) \<Longrightarrow> nm \<in> g_name ` set gs \<Longrightarrow> set_first_group nm on gs =
     Some (map (\<lambda>g. if g_name g = nm then g\<lparr>g_items := map (each_leaf (\<lambda>a. a\<lparr>three_state := Some on\<rparr>)) (g_items g)\<rparr> else g) gs)"
proof (induction gs)
  case (Cons g gs)
  show ?case
  proof (cases "g_name g = nm")
    case True
    then have "nm \<notin> g_name ` set gs" using Cons.prems(1) by auto
    then have "map (\<lambda>g. if g_name g = nm then g\<lparr>g_items := map (each_leaf (\<lambda>a. a\<lparr>three_state := Some on\<rparr>)) (g_items g)\<rparr> else g) gs = gs"
      by (intro map_idI) auto
    then show ?thesis using True by simp
  next
    case False
    then show ?thesis using Cons by auto
  qed
qed simp

lemma set_group_toggled:
  assumes "distinct (leaf_ids gs)" "distinct (map g_name gs)" "g \<in> set gs" "set_group gs (g_name g) on = (gs', b)"
  shows "b \<and> toggled (set (ids_of (g_items g))) on gs gs'"
proof -
  let ?S = "set (ids_of (g_items g))" and ?mark = "map (each_leaf (\<lambda>a. a\<lparr>three_state := Some on\<rparr>))"
  let ?put = "\<lambda>l. if p_id (attrs l) \<in> ?S then put_state on l else l"
  let ?gs = "map (\<lambda>h. if g_name h = g_name g then h\<lparr>g_items := ?mark (g_items h)\<rparr> else h) gs"
  have b: "b" "gs' = recompute ?gs"
    using assms(4) set_first_group_map [OF assms(2), of "g_name g" on] assms(3) by (auto simp: set_group_def)
  have each: "concat (map all_leaves (?mark ps)) = map (put_state on) (concat (map all_leaves ps))" for ps
    by (induction ps) (auto simp: each_leaf_leaves put_state_def dest: all_leaves_are_leaves)
  have leaves: "concat (map all_leaves (g_items (if g_name h = g_name g then h\<lparr>g_items := ?mark (g_items h)\<rparr> else h))) =
      map ?put (concat (map all_leaves (g_items h)))" if h: "h \<in> set gs" for h
  proof (cases "g_name h = g_name g")
    case True
    then have "h = g" using assms(2,3) h by (simp add: distinct_map inj_on_def)
    then have "g_name h = g_name g" "map (put_state on) (concat (map all_leaves (g_items h))) = map ?put (concat (map all_leaves (g_items h)))"
      by (simp, intro map_cong) auto
    then show ?thesis using each by simp
  next
    case False
    then have "set (ids_of (g_items h)) \<inter> ?S = {}"
    proof -
      obtain us vs where gs: "gs = us @ h # vs" using split_list [OF h] by blast
      have "leaf_ids gs = leaf_ids us @ ids_of (g_items h) @ leaf_ids vs" by (simp add: gs leaves_of_def)
      then have d: "distinct (leaf_ids us @ ids_of (g_items h) @ leaf_ids vs)" using assms(1) by simp
      have "g \<in> set us \<or> g \<in> set vs" using assms(3) False by (auto simp: gs)
      moreover have "set (ids_of (g_items h)) \<inter> set (leaf_ids us) = {}" "set (ids_of (g_items h)) \<inter> set (leaf_ids vs) = {}"
        using d unfolding distinct_append set_append by blast+
      moreover have "x \<in> set us \<Longrightarrow> set (ids_of (g_items x)) \<subseteq> set (leaf_ids us)" "x \<in> set vs \<Longrightarrow> set (ids_of (g_items x)) \<subseteq> set (leaf_ids vs)" for x
        by (auto simp: leaves_of_def)
      ultimately show ?thesis by blast
    qed
    then have "map ?put (concat (map all_leaves (g_items h))) = concat (map all_leaves (g_items h))" by (intro map_idI) auto
    then show ?thesis using False by simp
  qed
  have "leaves_of gs' = leaves_of ?gs" unfolding b(2) by (rule recompute_leaves)
  also have "\<dots> = concat (map (\<lambda>h. map ?put (concat (map all_leaves (g_items h)))) gs)"
    unfolding leaves_of_def map_map comp_def by (rule arg_cong [of _ _ concat], rule map_cong [OF refl], rule leaves)
  also have "\<dots> = map ?put (leaves_of gs)" by (simp add: leaves_of_def map_concat comp_def)
  finally have "leaves_of gs' = map ?put (leaves_of gs)" .
  moreover have "map g_name gs' = map g_name gs" unfolding b(2) recompute_names by simp
  moreover have "?S \<subseteq> set (leaf_ids gs)" using assms(3) by (auto simp: leaves_of_def)
  ultimately show ?thesis using b(1) toggledI [OF assms(1)] by blast
qed

section \<open>Clicks\<close>

definition tree_of :: "window \<Rightarrow> page \<Rightarrow> tree" where
  "tree_of w p = (if w = PlatformTree then platform p else services p)"

text \<open>The widget toggles the mark itself and then notifies; a click is preceded by a mouse-down, a key press is not.\<close>

definition flip :: "window \<Rightarrow> nat \<Rightarrow> page \<Rightarrow> page" where
  "flip w x p = (case marks (tree_of w p) x of
     None \<Rightarrow> p
   | Some b \<Rightarrow> (case w of PlatformTree \<Rightarrow> p\<lparr>platform := (platform p)\<lparr>marks := (marks (platform p))(x \<mapsto> \<not> b)\<rparr>\<rparr>
       | ServicesTree \<Rightarrow> p\<lparr>services := (services p)\<lparr>marks := (marks (services p))(x \<mapsto> \<not> b)\<rparr>\<rparr>
       | OtherWindow \<Rightarrow> p))"

definition notify :: "window \<Rightarrow> nat \<Rightarrow> nat \<Rightarrow> page \<Rightarrow> page" where
  "notify w now x p = (case w of PlatformTree \<Rightarrow> on_platform_check now x p | ServicesTree \<Rightarrow> on_service_check now x p | OtherWindow \<Rightarrow> p)"

definition click :: "window \<Rightarrow> nat \<Rightarrow> nat \<Rightarrow> page \<Rightarrow> page" where
  "click w now x p = notify w now x (flip w x (note_mouse_down w now p))"

text \<open>The leaves an item stands for.\<close>

definition controlled :: "page \<Rightarrow> tree \<Rightarrow> nat \<Rightarrow> string set" where
  "controlled p t x = set (concat (map (\<lambda>(i, y). if y = x then [i] else []) (leaf_items t))) \<union>
     set (concat (map (\<lambda>g. if map_of (group_items t) (g_name g) = Some x then ids_of (g_items g) else []) (pg_groups p)))"

lemma unclicked: "fst (last_down p) = None \<Longrightarrow> notify w now x p = p"
  by (auto simp: notify_def on_platform_check_def on_service_check_def take_tree_click_def
      split: prod.splits option.splits node_ref.splits window.splits)

lemma covers_cong:
  "covers noded gs t \<Longrightarrow> leaf_ids gs' = leaf_ids gs \<Longrightarrow> map g_name gs' = map g_name gs \<Longrightarrow> covers noded gs' t"
proof -
  assume a: "covers noded gs t" "leaf_ids gs' = leaf_ids gs" "map g_name gs' = map g_name gs"
  have "set (leaf_ids gs') = set (leaf_ids gs)" "g_name ` set gs' = g_name ` set gs"
    using arg_cong [OF a(2), of set] arg_cong [OF a(3), of set] by simp_all
  then show ?thesis using a(1) by (simp only: covers_def)
qed

lemma covers_marks: "covers noded gs t \<Longrightarrow> dom m = dom (marks t) \<Longrightarrow> covers noded gs (t\<lparr>marks := m\<rparr>)"
  by (simp add: covers_def tree_wf_def items_of_def)

text \<open>What applying a toggle gives, whichever branch of the handlers asked for it.\<close>

lemma put_groups_toggled:
  assumes "toggled S on (pg_groups p) gs'" "distinct (leaf_ids (pg_groups p))" "distinct (map g_name (pg_groups p))"
    "covers True (pg_groups p) (platform p)" "covers False (pg_groups p) (services p)" "group_items (services p) = []"
  shows "page_ok (put_groups p (gs', True)) \<and> leaf_states (pg_groups (put_groups p (gs', True))) =
      (\<lambda>i. if i \<in> S then Some on else leaf_states (pg_groups p) i) \<and>
    s_ids (pg_accel (put_groups p (gs', True))) = groups_enabled_ids (pg_groups (put_groups p (gs', True))) \<and>
    last_down (put_groups p (gs', True)) = last_down p"
proof -
  have t: "leaf_ids gs' = leaf_ids (pg_groups p)" "map g_name gs' = map g_name (pg_groups p)"
    using assms(1) by (simp_all add: toggled_def)
  have "page_ok (commit (p\<lparr>pg_groups := gs'\<rparr>))"
    using assms(2-6) covers_cong [OF assms(4) t] covers_cong [OF assms(5) t] t by (intro commit_ok(2)) simp_all
  then show ?thesis using assms(1) by (simp add: put_groups_def toggled_def commit_def sync_checks_def apply_enabled_def)
qed

lemma snd_unique: "distinct (map snd xs) \<Longrightarrow> (a, x) \<in> set xs \<Longrightarrow> (b, x) \<in> set xs \<Longrightarrow> a = b"
  by (metis distinct_map inj_onD prod.inject snd_conv)

lemma map_of_leaf:
  assumes "distinct (items_of t)" "(i, x) \<in> set (leaf_items t)"
  shows "map_of (map (\<lambda>(i, x). (x, f i)) (leaf_items t) @ map (\<lambda>(n, x). (x, h n)) (group_items t)) x = Some (f i)"
proof -
  have "distinct (map fst (map (\<lambda>(i, x). (x, f i)) (leaf_items t) @ map (\<lambda>(n, x). (x, h n)) (group_items t)))"
    using assms(1) by (simp add: items_of_def comp_def case_prod_beta image_image)
  then show ?thesis by (rule map_of_is_SomeI) (use assms(2) in \<open>force simp: image_iff\<close>)
qed

lemma map_of_group:
  assumes "distinct (items_of t)" "(n, x) \<in> set (group_items t)"
  shows "map_of (map (\<lambda>(i, x). (x, f i)) (leaf_items t) @ map (\<lambda>(n, x). (x, h n)) (group_items t)) x = Some (h n)"
proof -
  have "distinct (map fst (map (\<lambda>(i, x). (x, f i)) (leaf_items t) @ map (\<lambda>(n, x). (x, h n)) (group_items t)))"
    using assms(1) by (simp add: items_of_def comp_def case_prod_beta image_image)
  then show ?thesis by (rule map_of_is_SomeI) (use assms(2) in \<open>force simp: image_iff\<close>)
qed

lemma controlled_sets:
  "controlled p t x = {i. (i, x) \<in> set (leaf_items t)} \<union>
     (\<Union>g\<in>{g \<in> set (pg_groups p). map_of (group_items t) (g_name g) = Some x}. set (ids_of (g_items g)))"
proof -
  have a: "set (concat (map (\<lambda>(i, y). if y = x then [i] else []) xs)) = {i. (i, x) \<in> set xs}" for xs :: "(string \<times> nat) list"
    by (induction xs) auto
  have b: "set (concat (map (\<lambda>g. if P g then f g else []) gs)) = (\<Union>g\<in>{g \<in> set gs. P g}. set (f g))"
    for P and f :: "group \<Rightarrow> string list" and gs by (induction gs) auto
  show ?thesis unfolding controlled_def a b ..
qed

lemma controlled_leaf:
  assumes "distinct (items_of t)" "(i, x) \<in> set (leaf_items t)"
  shows "controlled p t x = {i}"
proof -
  have "(j, x) \<in> set (leaf_items t) \<Longrightarrow> j = i" for j
    using assms snd_unique [of "leaf_items t" j x i] by (simp add: items_of_def)
  moreover have "map_of (group_items t) n \<noteq> Some x" for n
  proof
    assume "map_of (group_items t) n = Some x"
    then have "x \<in> snd ` set (group_items t)" by (metis image_eqI map_of_SomeD snd_conv)
    moreover have "x \<in> snd ` set (leaf_items t)" using assms(2) by (metis image_eqI snd_conv)
    ultimately show False using assms(1) by (auto simp: items_of_def)
  qed
  ultimately show ?thesis using assms(2) unfolding controlled_sets by blast
qed

lemma controlled_group:
  assumes "distinct (items_of t)" "distinct (map fst (group_items t))" "(n, x) \<in> set (group_items t)"
    "distinct (map g_name (pg_groups p))" "g \<in> set (pg_groups p)" "g_name g = n"
  shows "controlled p t x = set (ids_of (g_items g))"
proof -
  have "(j, x) \<notin> set (leaf_items t)" for j using assms(1,3) by (force simp: items_of_def)
  moreover have "map_of (group_items t) (g_name h) = Some x \<longleftrightarrow> h = g" if "h \<in> set (pg_groups p)" for h
  proof
    assume "map_of (group_items t) (g_name h) = Some x"
    then have "(g_name h, x) \<in> set (group_items t)" by (rule map_of_SomeD)
    then have "g_name h = n" using assms(1,3) snd_unique [of "group_items t"] by (simp add: items_of_def)
    then show "h = g" using assms(4-6) that by (simp add: distinct_map inj_on_def)
  next
    assume "h = g"
    then show "map_of (group_items t) (g_name h) = Some x" using assms(2,3,6) by simp
  qed
  ultimately have "{i. (i, x) \<in> set (leaf_items t)} = {}" "{h \<in> set (pg_groups p). map_of (group_items t) (g_name h) = Some x} = {g}"
    using assms(5) by blast+
  then show ?thesis unfolding controlled_sets by simp
qed

text \<open>The handlers, once the click is taken, agree with the toggle of the leaves the item stands for.\<close>

lemma notify_toggles:
  assumes "page_ok p" "w \<noteq> OtherWindow" "marks (tree_of w p) x = Some b"
  shows "\<exists>gs'. toggled (controlled p (tree_of w p) x) (\<not> b) (pg_groups p) gs' \<and>
    click w now x p = put_groups ((flip w x p)\<lparr>last_down := (None, now)\<rparr>) (gs', True)"
proof -
  let ?t = "tree_of w p" and ?gs = "pg_groups p"
  define r where "r = (flip w x p)\<lparr>last_down := (None, now)\<rparr>"
  have ok: "distinct (leaf_ids ?gs)" "distinct (map g_name ?gs)" "covers True ?gs (platform p)" "covers False ?gs (services p)"
    "shows_groups ?gs (platform p)" "shows_groups ?gs (services p)" "group_items (services p) = []"
    using assms(1) by (simp_all add: page_ok_def)
  have t: "covers (w = PlatformTree) ?gs ?t" "shows_groups ?gs ?t" using ok by (simp_all add: tree_of_def)
  then have wf: "distinct (items_of ?t)" "distinct (map fst (group_items ?t))" "0 \<notin> set (items_of ?t)" "dom (marks ?t) \<subseteq> set (items_of ?t)"
    by (simp_all add: covers_def tree_wf_def)
  then have "x \<in> set (items_of ?t)" using assms(3) by blast
  then have x: "x \<in> set (items_of ?t)" "x \<noteq> 0" using wf(3) by metis+
  have r: "pg_groups r = ?gs" "leaf_items (tree_of w r) = leaf_items ?t" "nodes (platform r) = nodes (platform p)" "marks (tree_of w r) x = Some (\<not> b)"
    using assms(2,3) by (cases w; simp add: r_def flip_def tree_of_def)+
  have taken: "take_tree_click w now (flip w x (note_mouse_down w now p)) = (True, r)"
    using assms(2,3) by (cases w) (simp_all add: take_tree_click_def note_mouse_down_def flip_def tree_of_def r_def)
  have mark: "tree_check x (tree_of w r) = Some (\<not> b)" using r(4) x(2) by (simp add: tree_check_def)
  show ?thesis
  proof (cases "\<exists>i. (i, x) \<in> set (leaf_items ?t)")
    case True
    then obtain i where i: "(i, x) \<in> set (leaf_items ?t)" by blast
    obtain gs' c where g: "set_leaf ?gs i (\<not> b) = (gs', c)" by fastforce
    have "i \<in> set (leaf_ids ?gs)" using t(1) i by (force simp: covers_def)
    then have s: "c" "toggled {i} (\<not> b) ?gs gs'" using set_leaf_toggled [OF ok(1) _ g] by blast+
    have m: "leaf_states ?gs i = Some b" using t(2) i assms(3) by (auto simp: shows_groups_def)
    have "click w now x p = put_groups r (gs', True)"
    proof (cases "w = PlatformTree")
      case True
      then have "map_of (nodes (platform p)) x = Some (LeafNode i)"
        using t(1) map_of_leaf [OF wf(1) i, of LeafNode GroupNode] by (simp add: covers_def tree_wf_def tree_of_def)
      then show ?thesis using True taken r mark m g s(1) by (simp add: click_def notify_def on_platform_check_def tree_of_def)
    next
      case False
      then have w: "w = ServicesTree" using assms(2) by (cases w) simp_all
      have "find (\<lambda>(i, h). h = x) (leaf_items ?t) \<noteq> None" using i by (auto simp: find_None_iff)
      then obtain j y where j: "find (\<lambda>(i, h). h = x) (leaf_items ?t) = Some (j, y)" by fastforce
      then have "(j, x) \<in> set (leaf_items ?t)" by (auto simp: find_Some_iff) (metis nth_mem)
      then have "j = i" using wf(1) i snd_unique [of "leaf_items ?t" j x i] by (simp add: items_of_def)
      then show ?thesis using w taken r mark m g s(1) j by (simp add: click_def notify_def on_service_check_def tree_of_def)
    qed
    then show ?thesis using s(2) controlled_leaf [OF wf(1) i] unfolding r_def by auto
  next
    case False
    then obtain n where n: "(n, x) \<in> set (group_items ?t)" using x(1) by (auto simp: items_of_def)
    then have w: "w = PlatformTree" using ok(7) by (auto simp: tree_of_def split: if_splits)
    obtain g where g: "g \<in> set ?gs" "g_name g = n" using t(1) n by (force simp: covers_def)
    obtain gs' c where s: "set_group ?gs (g_name g) (\<not> b) = (gs', c)" by fastforce
    note tg = set_group_toggled [OF ok(1,2) g(1) s]
    have f: "find (\<lambda>g. g_name g = n) ?gs = Some g"
    proof -
      have "find (\<lambda>g. g_name g = n) ?gs \<noteq> None" using g by (auto simp: find_None_iff)
      then obtain h where h: "find (\<lambda>g. g_name g = n) ?gs = Some h" by blast
      then have "h \<in> set ?gs" "g_name h = n" by (auto simp: find_Some_iff)
      then show ?thesis using h g ok(2) by (simp add: distinct_map inj_on_def)
    qed
    have "map_of (group_items ?t) (g_name g) = Some x" using n g(2) wf(2) by simp
    then have m: "group_enabled g = b" using t(2) g(1) assms(3) by (auto simp: shows_groups_def)
    have "map_of (nodes (platform p)) x = Some (GroupNode n)"
      using t(1) w map_of_group [OF wf(1) n, of LeafNode GroupNode] by (simp add: covers_def tree_wf_def tree_of_def)
    then have "click w now x p = put_groups r (gs', True)"
      using w taken r mark m s tg f g(2) by (simp add: click_def notify_def on_platform_check_def tree_of_def)
    then show ?thesis using tg controlled_group [OF wf(1,2) n ok(2) g] unfolding r_def by auto
  qed
qed

lemma build_page_ok:
  assumes "distinct (leaf_ids (pg_groups p))" "distinct (map g_name (pg_groups p))"
  shows "page_ok (build_page ok p)"
  unfolding build_page_def by (rule commit_ok(1)) (use assms rebuild_covers [OF assms(1), of ok] service_tree_groups in simp_all)

section \<open>Properties\<close>

text \<open>C18. The boxes and the selection stay together: a click on any box of either tree sets exactly the leaves the box stands for to what
  the box then shows, the service learns the new selection, afterwards every box of both trees shows the selection again, and
  the notifications the program's own changes of the boxes cause change nothing.\<close>

theorem click_updates_selection:
  assumes "page_ok p" "w \<noteq> OtherWindow" "marks (tree_of w p) x = Some b"
  shows "page_ok (click w now x p) \<and>
    leaf_states (pg_groups (click w now x p)) =
      (\<lambda>i. if i \<in> controlled p (tree_of w p) x then Some (\<not> b) else leaf_states (pg_groups p) i) \<and>
    s_ids (pg_accel (click w now x p)) = groups_enabled_ids (pg_groups (click w now x p)) \<and>
    notify w' now' y (click w now x p) = click w now x p"
proof -
  let ?r = "(flip w x p)\<lparr>last_down := (None, now)\<rparr>"
  obtain gs' where g: "toggled (controlled p (tree_of w p) x) (\<not> b) (pg_groups p) gs'" "click w now x p = put_groups ?r (gs', True)"
    using notify_toggles [OF assms] by blast
  have d: "dom ((marks t)(x \<mapsto> v)) = dom (marks t)" if "marks t x = Some b" for t v using that by auto
  have "covers True (pg_groups p) (platform ?r)" "covers False (pg_groups p) (services ?r)"
    using assms covers_marks [OF _ d] by (cases w; simp add: page_ok_def flip_def tree_of_def)+
  then have "page_ok (put_groups ?r (gs', True)) \<and> leaf_states (pg_groups (put_groups ?r (gs', True))) =
      (\<lambda>i. if i \<in> controlled p (tree_of w p) x then Some (\<not> b) else leaf_states (pg_groups ?r) i) \<and>
    s_ids (pg_accel (put_groups ?r (gs', True))) = groups_enabled_ids (pg_groups (put_groups ?r (gs', True))) \<and>
    last_down (put_groups ?r (gs', True)) = last_down ?r"
    using g(1) assms(1) by (intro put_groups_toggled) (auto simp: page_ok_def flip_def split: option.splits window.splits)
  moreover have e: "pg_groups ?r = pg_groups p" by (simp add: flip_def split: option.split window.split)
  ultimately show ?thesis unfolding e g(2) using unclicked [of "put_groups ?r (gs', True)"] by simp
qed

section \<open>Examples\<close>

definition sample_page :: page where
  "sample_page = build_page (\<lambda>_. True) \<lparr>pg_groups = sample_groups, pg_accel = store sample_groups LocalCache new_service, platform = tree_clear,
     services = tree_clear, last_down = (None, 0)\<rparr>"

lemma sample_page_ok: "page_ok sample_page"
proof -
  have "distinct (leaf_ids sample_groups)" "distinct (map g_name sample_groups)" by code_simp+
  then show ?thesis unfolding sample_page_def by (intro build_page_ok) simp_all
qed

lemma click_updates_selection_witness:
  "page_ok (click PlatformTree 10 3 sample_page) \<and>
   leaf_states (pg_groups (click PlatformTree 10 3 sample_page)) ''a'' = Some False"
proof -
  have "marks (tree_of PlatformTree sample_page) 3 = Some True" by code_simp
  from click_updates_selection [OF sample_page_ok _ this] have
    "page_ok (click PlatformTree 10 3 sample_page)" "leaf_states (pg_groups (click PlatformTree 10 3 sample_page)) ''a'' =
      (if ''a'' \<in> controlled sample_page (tree_of PlatformTree sample_page) 3 then Some (\<not> True)
       else leaf_states (pg_groups sample_page) ''a'')" by simp_all
  moreover have "''a'' \<in> controlled sample_page (tree_of PlatformTree sample_page) 3" by code_simp
  ultimately show ?thesis by simp
qed

text \<open>A box toggled with the space bar has no mouse-down before it: the box shows the new value, the selection keeps the old one.\<close>

lemma keyboard_toggle_ignored:
  "let p = notify PlatformTree 10 3 (flip PlatformTree 3 sample_page) in
   tree_check 3 (platform p) = Some False \<and> leaf_states (pg_groups p) ''a'' = Some True"
  by code_simp

end
