(* ===== verification/App.thy ===== *)
theory App
  imports Pages Manager
begin

text \<open>
  The user interface as a state machine (\<open>crates/ui/src/app.rs\<close>, with \<open>actions.rs\<close>, \<open>lib.rs\<close>, \<open>types.rs\<close>, \<open>tray.rs\<close>,
  the proxy dialog of \<open>dialogs/mod.rs\<close>, the other pages of \<open>pages/accelerator.rs\<close> and the settings file of \<open>settings.rs\<close>). One thread
  handles the messages of the windows one after the other; side effects that need other windows are queued and run when the
  message is done. Starting the proxy runs on threads of its own, whose phases (theory \<open>Manager\<close>) come between messages.
  What the system answers while one event is handled (the clock, writes, other programs) is the parameter \<open>ui_env\<close>. Of the
  texts the user sees those that reach the log are kept; toasts are constructors.
\<close>

section \<open>Settings and pages\<close>

record general_settings =
  auto_run_on_startup :: bool
  minimize_on_startup :: bool
  tray_icon :: bool
  gpu :: bool

definition default_general :: general_settings where
  "default_general = \<lparr>auto_run_on_startup = False, minimize_on_startup = False, tray_icon = True, gpu = True\<rparr>"

record settings =
  general :: general_settings
  proxy :: proxy_settings

text \<open>The settings file, as the settings it holds; nothing when it is missing or cannot be read as settings.\<close>

type_synonym settings_file = "settings option"

definition load_settings :: "settings_file \<Rightarrow> settings" where
  "load_settings f = (case f of Some s \<Rightarrow> s | None \<Rightarrow> \<lparr>general = default_general, proxy = default_settings\<rparr>)"

datatype main_tab = Accelerator | SettingsTab

datatype acc_tab = Platform | Services | Scripts | Logs | Traffic | NetTest

datatype settings_tab = General | Accelerate | About

definition acc_tab_from_index :: "int \<Rightarrow> acc_tab" where
  "acc_tab_from_index i = (if i = 1 then Services else if i = 2 then Scripts else if i = 3 then Logs
     else if i = 4 then Traffic else if i = 5 then NetTest else Platform)"

definition settings_tab_from_index :: "int \<Rightarrow> settings_tab" where
  "settings_tab_from_index i = (if i = 1 then Accelerate else if i = 2 then About else General)"

fun settings_tab_index :: "settings_tab \<Rightarrow> int" where
  "settings_tab_index General = 0"
| "settings_tab_index Accelerate = 1"
| "settings_tab_index About = 2"

section \<open>State\<close>

datatype notice = Starting proxy_mode | Stopped | StartFailed start_error | ModeChosen proxy_mode | DialogSaved
  | SettingsSaved bool | AutorunSet bool | TrayFailed | CertInstalled "install_error + unit" | CertRemoved "install_error + unit"
  | HostsWereReset "hosts_error + unit"

datatype action = ShellOpen | TrayMenu | RestoreWindow | HideToTray | Exit | CertInstall | CertRemove | HostsReset
  | OpenHostsEditor | RevealHosts | OpenProxyDialog dialog_data | OpenCertDialog cert_info

record tray_state =
  t_enabled :: bool
  t_icon :: bool

text \<open>The network test: its thread is running, has sent its results, or ended without.\<close>

datatype probe = Waiting | Sent "(string \<times> string) list" | Lost

record app =
  page :: page
  settings_of :: settings
  disk :: settings_file
  run_key :: bool
  machine :: machine
  threads :: "(call \<times> phase) list"
  start_failed :: "start_error option"
  log_rx :: "string list"
  logs :: "string list"
  logs_dirty :: bool
  logs_edit :: string
  main_tab :: main_tab
  acc_tab :: acc_tab
  settings_tab :: settings_tab
  toast :: "(notice \<times> nat) option"
  status :: bool
  tray_enabled :: bool
  tray :: "tray_state option"
  hidden :: bool
  testing :: bool
  net_results :: "(string \<times> string) list"
  test_rx :: "probe option"
  traffic :: "nat \<times> (string \<times> nat) list"
  last_traffic :: nat
  last_logs :: nat
  actions :: "action list"
  dialog :: "dialog_data option"
  cert_window :: "cert_info option"
  open_window :: bool

record ui_env =
  e_start :: start_env
  e_now :: nat
  save_fails :: "settings_file option"
  run_key_ok :: bool
  run_delete_ok :: bool
  add_icon_ok :: bool
  menu_choice :: nat
  certutil :: "bytes option \<Rightarrow> tool"
  powershell :: tool
  stats :: "nat \<times> (string \<times> nat) list"
  error_text :: "start_error \<Rightarrow> string"
  cert_text :: "install_error + unit \<Rightarrow> string"
  hosts_text :: "hosts_error + unit \<Rightarrow> string"

abbreviation is_running :: "app \<Rightarrow> bool" where
  "is_running a \<equiv> running (mgr (machine a))"

section \<open>Small steps\<close>

definition push_log :: "string \<Rightarrow> app \<Rightarrow> app" where
  "push_log line a = (let ls = logs a @ [line] in a\<lparr>logs := drop (length ls - 1000) ls, logs_dirty := True\<rparr>)"

definition show_toast :: "ui_env \<Rightarrow> notice \<Rightarrow> app \<Rightarrow> app" where
  "show_toast e n a = a\<lparr>toast := Some (n, e_now e)\<rparr>"

definition queue :: "action \<Rightarrow> app \<Rightarrow> app" where
  "queue x a = a\<lparr>actions := actions a @ [x]\<rparr>"

definition refresh_status :: "app \<Rightarrow> app" where
  "refresh_status a = a\<lparr>status := is_running a\<rparr>"

definition refresh_logs :: "app \<Rightarrow> app" where
  "refresh_logs a = a\<lparr>logs_edit := logs_text (logs a), logs_dirty := False\<rparr>"

definition refresh_traffic :: "ui_env \<Rightarrow> app \<Rightarrow> app" where
  "refresh_traffic e a = (case stats e of (tot, rows) \<Rightarrow> a\<lparr>traffic := traffic_snapshot tot rows\<rparr>)"

definition save :: "ui_env \<Rightarrow> app \<Rightarrow> bool \<times> app" where
  "save e a = (case save_fails e of None \<Rightarrow> (True, a\<lparr>disk := Some (settings_of a)\<rparr>) | Some left \<Rightarrow> (False, a\<lparr>disk := left\<rparr>))"

definition set_proxy :: "(proxy_settings \<Rightarrow> proxy_settings) \<Rightarrow> app \<Rightarrow> app" where
  "set_proxy f a = a\<lparr>settings_of := (settings_of a)\<lparr>proxy := f (proxy (settings_of a))\<rparr>\<rparr>"

definition set_general :: "(general_settings \<Rightarrow> general_settings) \<Rightarrow> app \<Rightarrow> app" where
  "set_general f a = a\<lparr>settings_of := (settings_of a)\<lparr>general := f (general (settings_of a))\<rparr>\<rparr>"

definition set_auto_run_on_startup :: "ui_env \<Rightarrow> bool \<Rightarrow> app \<Rightarrow> bool \<times> app" where
  "set_auto_run_on_startup e on a = (if run_key_ok e then (True, a\<lparr>run_key := on \<or> run_key a \<and> \<not> run_delete_ok e\<rparr>) else (False, a))"

section \<open>The tray icon\<close>

definition tray_init :: "ui_env \<Rightarrow> bool \<Rightarrow> app \<Rightarrow> bool \<times> app" where
  "tray_init e want a = (let on = want \<and> add_icon_ok e in (on, a\<lparr>tray := Some \<lparr>t_enabled = on, t_icon = on\<rparr>\<rparr>))"

definition set_enabled :: "ui_env \<Rightarrow> bool \<Rightarrow> app \<Rightarrow> bool \<times> app" where
  "set_enabled e want a = (case tray a of
     None \<Rightarrow> (False, a)
   | Some t \<Rightarrow> (let t' = (if want then (if t_enabled t then t else \<lparr>t_enabled = add_icon_ok e, t_icon = add_icon_ok e\<rparr>)
         else if t_enabled t then \<lparr>t_enabled = False, t_icon = False\<rparr> else t) in (t_enabled t', a\<lparr>tray := Some t'\<rparr>)))"

definition readd_if_enabled :: "ui_env \<Rightarrow> app \<Rightarrow> app" where
  "readd_if_enabled e a = (case tray a of
     Some t \<Rightarrow> a\<lparr>tray := Some (t\<lparr>t_icon := t_enabled t \<and> add_icon_ok e\<rparr>)\<rparr> | None \<Rightarrow> a)"

definition show_menu :: "ui_env \<Rightarrow> app \<Rightarrow> nat" where
  "show_menu e a = (if tray a = None then 0 else menu_choice e)"

definition cleanup :: "app \<Rightarrow> app" where
  "cleanup a = a\<lparr>tray := None\<rparr>"

definition apply_tray_pref :: "ui_env \<Rightarrow> app \<Rightarrow> app" where
  "apply_tray_pref e a = (let want = tray_icon (general (settings_of a)) in
     if want = tray_enabled a then a
     else (case set_enabled e want a of (actual, a) \<Rightarrow>
       let a = a\<lparr>tray_enabled := actual\<rparr> in if want \<and> \<not> actual then show_toast e TrayFailed a else a))"

section \<open>Starting and stopping\<close>

definition start_blocking_thread :: "ui_env \<Rightarrow> proxy_mode \<Rightarrow> app \<Rightarrow> app" where
  "start_blocking_thread e mode a = a\<lparr>threads := threads a @
     [(\<lparr>c_env = e_start e, c_mode = mode, c_settings = proxy (settings_of a), c_groups = pg_groups (page a)\<rparr>, Fresh)]\<rparr>"

definition start_accel :: "ui_env \<Rightarrow> app \<Rightarrow> app" where
  "start_accel e a = (if is_running a then a
     else (let ids = groups_enabled_ids (pg_groups (page a));
         a = set_proxy (\<lambda>s. s\<lparr>support_proxy_services_status := ids\<rparr>) a;
         a = snd (save e a);
         mode = proxy_mode_of (proxy (settings_of a))
       in show_toast e (Starting mode) (start_blocking_thread e mode a)))"

definition stop_proxy :: "ui_env \<Rightarrow> app \<Rightarrow> app" where
  "stop_proxy e a = a\<lparr>machine := stop (e_start e) (machine a)\<rparr>"

definition stop_accel :: "ui_env \<Rightarrow> app \<Rightarrow> app" where
  "stop_accel e a = refresh_status (show_toast e Stopped (stop_proxy e a))"

definition switch_proxy_mode :: "ui_env \<Rightarrow> proxy_mode \<Rightarrow> app \<Rightarrow> app" where
  "switch_proxy_mode e mode a = (if proxy_mode_of (proxy (settings_of a)) = mode then a
     else (let was = is_running a;
         a = snd (save e (set_proxy (\<lambda>s. s\<lparr>proxy_mode_of := mode\<rparr>) a))
       in if was then start_accel e (stop_proxy e a) else show_toast e (ModeChosen mode) a))"

definition apply_proxy_dialog :: "ui_env \<Rightarrow> dialog_data \<Rightarrow> app \<Rightarrow> app" where
  "apply_proxy_dialog e d a = show_toast e DialogSaved (snd (save e (set_proxy (apply_to d) a)))"

text \<open>A thread goes on by one phase; when its start failed it leaves the error for the next tick.\<close>

definition thread_error :: "phase \<Rightarrow> phase \<Rightarrow> start_error option" where
  "thread_error ph ph' = (case ph of
     Fresh \<Rightarrow> if ph' = Done then Some RuntimeFailed else None
   | Ran rt r \<Rightarrow> (case r of Inl er \<Rightarrow> Some er | Inr _ \<Rightarrow> None)
   | _ \<Rightarrow> None)"

definition thread_runs :: "nat \<Rightarrow> app \<Rightarrow> app" where
  "thread_runs i a = (if i < length (threads a) then
     (case threads a ! i of (c, ph) \<Rightarrow> (case advance c (held (map snd (threads a))) ph (machine a) of (ph', m) \<Rightarrow>
       a\<lparr>machine := m, threads := (threads a)[i := (c, ph')],
         start_failed := (case thread_error ph ph' of Some er \<Rightarrow> Some er | None \<Rightarrow> start_failed a)\<rparr>)) else a)"

section \<open>The network test\<close>

definition start_nettest :: "app \<Rightarrow> app" where
  "start_nettest a = (if testing a then a else a\<lparr>testing := True, test_rx := Some Waiting\<rparr>)"

definition poll_nettest :: "app \<Rightarrow> app" where
  "poll_nettest a = (case test_rx a of
     None \<Rightarrow> a
   | Some Waiting \<Rightarrow> a
   | Some (Sent rs) \<Rightarrow> a\<lparr>net_results := rs, testing := False, test_rx := None\<rparr>
   | Some Lost \<Rightarrow> a\<lparr>testing := False, test_rx := None\<rparr>)"

section \<open>The timer\<close>

definition error_line :: "ui_env \<Rightarrow> start_error \<Rightarrow> string" where
  "error_line e er = ''[ERROR] '' @ str_of [0xE5, 0x90, 0xAF, 0xE5, 0x8A, 0xA8, 0xE5, 0x8A, 0xA0, 0xE9, 0x80, 0x9F, 0xE5, 0xA4, 0xB1, 0xE8, 0xB4, 0xA5] @ '': '' @ error_text e er"

definition drain_logs :: "app \<Rightarrow> app" where
  "drain_logs a = fold push_log (take 2000 (log_rx a)) (a\<lparr>log_rx := drop 2000 (log_rx a)\<rparr>)"

definition report_start_error :: "ui_env \<Rightarrow> app \<Rightarrow> app" where
  "report_start_error e a = (case start_failed a of
     Some er \<Rightarrow> show_toast e (StartFailed er) (push_log (error_line e er) (a\<lparr>start_failed := None\<rparr>))
   | None \<Rightarrow> a)"

definition tick_logs :: "ui_env \<Rightarrow> app \<Rightarrow> app" where
  "tick_logs e a = (if main_tab a = Accelerator \<and> acc_tab a = Logs \<and> logs_dirty a \<and> 400 \<le> e_now e - last_logs a
     then (refresh_logs a)\<lparr>last_logs := e_now e\<rparr> else a)"

definition tick_traffic :: "ui_env \<Rightarrow> app \<Rightarrow> app" where
  "tick_traffic e a = (if main_tab a = Accelerator \<and> acc_tab a = Traffic \<and> 1000 \<le> e_now e - last_traffic a
     then (refresh_traffic e a)\<lparr>last_traffic := e_now e\<rparr> else a)"

definition expire_toast :: "ui_env \<Rightarrow> app \<Rightarrow> app" where
  "expire_toast e a = (case toast a of Some (n, t) \<Rightarrow> if 3000 < e_now e - t then a\<lparr>toast := None\<rparr> else a | None \<Rightarrow> a)"

definition tick :: "ui_env \<Rightarrow> app \<Rightarrow> app" where
  "tick e a = (let a = poll_nettest (tick_logs e (report_start_error e (drain_logs a)));
       a = (if is_running a \<noteq> status a then refresh_status a else a)
     in expire_toast e (tick_traffic e a))"

section \<open>The proxy dialog\<close>

text \<open>What the controls of the dialog hold.\<close>

record dialog_fields =
  f_mode :: int
  f_port :: string
  f_dns :: string
  f_use_doh :: bool
  f_doh :: string
  f_http_https :: bool
  f_tls :: bool
  f_two_level :: bool
  f_two_type :: int
  f_two_ip :: string
  f_two_port :: string
  f_two_user :: string
  f_two_pass :: string

definition create_proxy_ui :: "dialog_data \<Rightarrow> dialog_fields" where
  "create_proxy_ui d = \<lparr>f_mode = mode_index (d_mode d), f_port = show_nat (unat (d_port d)), f_dns = d_dns d, f_use_doh = d_use_doh d,
     f_doh = d_doh_address d, f_http_https = d_http_to_https d, f_tls = d_tls_decryption d, f_two_level = d_two_level_enable d,
     f_two_type = external_proxy_index (d_two_level_type d), f_two_ip = d_two_level_ip d,
     f_two_port = show_nat (unat (d_two_level_port d)), f_two_user = d_two_level_user d, f_two_pass = d_two_level_password d\<rparr>"

definition read_proxy :: "dialog_data \<Rightarrow> dialog_fields \<Rightarrow> dialog_data" where
  "read_proxy initial f = \<lparr>d_mode = mode_from_index (f_mode f), d_port = parse_port (f_port f) (d_port initial), d_dns = f_dns f,
     d_use_doh = f_use_doh f, d_doh_address = f_doh f, d_http_to_https = f_http_https f, d_tls_decryption = f_tls f,
     d_two_level_enable = f_two_level f, d_two_level_type = external_proxy_from_index (f_two_type f), d_two_level_ip = f_two_ip f,
     d_two_level_port = parse_port (f_two_port f) (d_two_level_port initial), d_two_level_user = f_two_user f,
     d_two_level_password = f_two_pass f\<rparr>"

text \<open>A dialog that is open already is brought to the front as it is.\<close>

definition open_proxy :: "dialog_data \<Rightarrow> app \<Rightarrow> app" where
  "open_proxy d a = (if dialog a \<noteq> None then a else a\<lparr>dialog := Some d\<rparr>)"

definition open_cert :: "cert_info \<Rightarrow> app \<Rightarrow> app" where
  "open_cert i a = (if cert_window a \<noteq> None then a else a\<lparr>cert_window := Some i\<rparr>)"

section \<open>Commands\<close>

datatype command = START | MODE_COMBO int | PROXY_SETTINGS | CERT_INSTALL | CERT_REMOVE | CERT_VIEW | CERT_OPEN_DIR
  | HOSTS_EDIT | HOSTS_OPEN | HOSTS_RESET | OPEN_LOG_DIR | LOGS_CLEAR | NETTEST_START | SCRIPT_ENABLE bool | ACCEL_SCRIPT bool
  | GEN_AUTORUN bool | GEN_MINIMIZE bool | GEN_TRAY bool | GEN_GPU bool | GEN_SAVE | ACCEL_MODE_COMBO int | ACCEL_STARTUP_RUN bool
  | ACCEL_HTTP_HTTPS bool | ACCEL_SAVE | ABOUT_UPSTREAM | ABOUT_SECONDARY

definition save_pressed :: "ui_env \<Rightarrow> (app \<Rightarrow> app) \<Rightarrow> app \<Rightarrow> app" where
  "save_pressed e f a = (case save e a of (saved, a) \<Rightarrow> show_toast e (SettingsSaved saved) (f a))"

fun on_command :: "ui_env \<Rightarrow> command \<Rightarrow> app \<Rightarrow> app" where
  "on_command e START a = (if is_running a then stop_accel e a else start_accel e a)"
| "on_command e (MODE_COMBO i) a = switch_proxy_mode e (mode_from_index i) a"
| "on_command e PROXY_SETTINGS a = queue (OpenProxyDialog (from_settings (proxy (settings_of a)))) a"
| "on_command e CERT_INSTALL a = queue CertInstall a"
| "on_command e CERT_REMOVE a = queue CertRemove a"
| "on_command e CERT_VIEW a = (case info (cert_env_of (e_start e)) (certs (machine a)) of (i, c) \<Rightarrow>
     queue (OpenCertDialog i) (a\<lparr>machine := (machine a)\<lparr>certs := c\<rparr>\<rparr>))"
| "on_command e CERT_OPEN_DIR a = queue ShellOpen a"
| "on_command e HOSTS_EDIT a = queue OpenHostsEditor a"
| "on_command e HOSTS_OPEN a = queue RevealHosts a"
| "on_command e HOSTS_RESET a = queue HostsReset a"
| "on_command e OPEN_LOG_DIR a = queue ShellOpen a"
| "on_command e LOGS_CLEAR a = refresh_logs (a\<lparr>logs := [], logs_dirty := False\<rparr>)"
| "on_command e NETTEST_START a = start_nettest a"
| "on_command e (SCRIPT_ENABLE on) a = set_proxy (\<lambda>s. s\<lparr>is_enable_script := on\<rparr>) a"
| "on_command e (ACCEL_SCRIPT on) a = set_proxy (\<lambda>s. s\<lparr>is_enable_script := on\<rparr>) a"
| "on_command e (GEN_AUTORUN on) a = (case set_auto_run_on_startup e on (set_general (\<lambda>g. g\<lparr>auto_run_on_startup := on\<rparr>) a) of
     (done', a) \<Rightarrow> show_toast e (AutorunSet done') a)"
| "on_command e (GEN_MINIMIZE on) a = set_general (\<lambda>g. g\<lparr>minimize_on_startup := on\<rparr>) a"
| "on_command e (GEN_TRAY on) a = set_general (\<lambda>g. g\<lparr>tray_icon := on\<rparr>) a"
| "on_command e (GEN_GPU on) a = set_general (\<lambda>g. g\<lparr>gpu := on\<rparr>) a"
| "on_command e GEN_SAVE a = save_pressed e (apply_tray_pref e) a"
| "on_command e (ACCEL_MODE_COMBO i) a = set_proxy (\<lambda>s. s\<lparr>proxy_mode_of := mode_from_index i\<rparr>) a"
| "on_command e (ACCEL_STARTUP_RUN on) a = set_proxy (\<lambda>s. s\<lparr>program_startup_run_proxy := on\<rparr>) a"
| "on_command e (ACCEL_HTTP_HTTPS on) a = set_proxy (\<lambda>s. s\<lparr>enable_http_proxy_to_https := on\<rparr>) a"
| "on_command e ACCEL_SAVE a = save_pressed e (\<lambda>a. a) a"
| "on_command e ABOUT_UPSTREAM a = queue ShellOpen a"
| "on_command e ABOUT_SECONDARY a = queue ShellOpen a"

section \<open>Tabs and windows\<close>

definition refresh_active_acc_page :: "ui_env \<Rightarrow> app \<Rightarrow> app" where
  "refresh_active_acc_page e a = (case acc_tab a of
     Platform \<Rightarrow> a\<lparr>page := sync_checks (page a)\<rparr>
   | Services \<Rightarrow> a\<lparr>page := sync_checks (page a)\<rparr>
   | Logs \<Rightarrow> (refresh_logs a)\<lparr>last_logs := e_now e\<rparr>
   | Traffic \<Rightarrow> (refresh_traffic e a)\<lparr>last_traffic := e_now e\<rparr>
   | _ \<Rightarrow> a)"

definition select_main_tab :: "ui_env \<Rightarrow> int \<Rightarrow> app \<Rightarrow> app" where
  "select_main_tab e i a = (if i = 1 then a\<lparr>main_tab := SettingsTab\<rparr>
     else refresh_active_acc_page e (refresh_status (a\<lparr>main_tab := Accelerator\<rparr>)))"

definition select_acc_tab :: "ui_env \<Rightarrow> int \<Rightarrow> app \<Rightarrow> app" where
  "select_acc_tab e i a = refresh_active_acc_page e (a\<lparr>acc_tab := acc_tab_from_index i\<rparr>)"

definition select_settings_tab :: "int \<Rightarrow> app \<Rightarrow> app" where
  "select_settings_tab i a = a\<lparr>settings_tab := settings_tab_from_index i\<rparr>"

definition on_close :: "app \<Rightarrow> app" where
  "on_close a = queue (if tray_enabled a then HideToTray else Exit) a"

definition hide_to_tray :: "app \<Rightarrow> app" where
  "hide_to_tray a = a\<lparr>hidden := True\<rparr>"

definition restore_window :: "app \<Rightarrow> app" where
  "restore_window a = a\<lparr>hidden := False\<rparr>"

definition request_exit :: "ui_env \<Rightarrow> app \<Rightarrow> app" where
  "request_exit e a = (cleanup (stop_proxy e a))\<lparr>open_window := False\<rparr>"

section \<open>Actions\<close>

definition cert_action :: "ui_env \<Rightarrow> string \<Rightarrow> (install_error + unit \<Rightarrow> notice) \<Rightarrow> (install_error + unit) \<times> cert_state \<Rightarrow> app \<Rightarrow> app" where
  "cert_action e what n r a = (case r of (r, c) \<Rightarrow> show_toast e (n r)
     (push_log (''[cert] '' @ what @ '': '' @ cert_text e r) (a\<lparr>machine := (machine a)\<lparr>certs := c\<rparr>\<rparr>)))"

fun execute :: "ui_env \<Rightarrow> action \<Rightarrow> app \<Rightarrow> app" where
  "execute e ShellOpen a = a"
| "execute e TrayMenu a = (if show_menu e a = 9001 then restore_window a else if show_menu e a = 9002 then request_exit e a else a)"
| "execute e RestoreWindow a = restore_window a"
| "execute e HideToTray a = hide_to_tray a"
| "execute e Exit a = request_exit e a"
| "execute e CertInstall a = cert_action e ''install'' CertInstalled (install (cert_env_of (e_start e)) (certutil e) (certs (machine a))) a"
| "execute e CertRemove a = cert_action e ''remove'' CertRemoved (remove (powershell e), certs (machine a)) a"
| "execute e HostsReset a = (case reset_file (hostsf (machine a)) of (r, f) \<Rightarrow> show_toast e (HostsWereReset r)
     (push_log (''[hosts] '' @ hosts_text e r) (a\<lparr>machine := (machine a)\<lparr>hostsf := f\<rparr>\<rparr>)))"
| "execute e OpenHostsEditor a = a"
| "execute e RevealHosts a = a"
| "execute e (OpenProxyDialog d) a = open_proxy d a"
| "execute e (OpenCertDialog i) a = open_cert i a"

text \<open>The queue is emptied in batches, since an action may queue others.\<close>

fun drain_actions :: "nat \<Rightarrow> ui_env \<Rightarrow> app \<Rightarrow> app" where
  "drain_actions 0 e a = a"
| "drain_actions (Suc n) e a = (if actions a = [] then a
     else drain_actions n e (fold (execute e) (actions a) (a\<lparr>actions := []\<rparr>)))"

section \<open>Messages\<close>

datatype tray_click = LeftUp | LeftDouble | RightUp | OtherClick

datatype message = WmTimer | WmCommand command | MainTabs int | AccTabs int | SettingsTabs int | TreeChanged window nat
  | WmClose | InitSync | TrayEvent tray_click | TaskbarCreated | DialogOk dialog_fields | DialogClosed | CertClosed

fun main_proc :: "ui_env \<Rightarrow> message \<Rightarrow> app \<Rightarrow> app" where
  "main_proc e WmTimer a = tick e a"
| "main_proc e (WmCommand c) a = on_command e c a"
| "main_proc e (MainTabs i) a = select_main_tab e i a"
| "main_proc e (AccTabs i) a = select_acc_tab e i a"
| "main_proc e (SettingsTabs i) a = select_settings_tab i a"
| "main_proc e (TreeChanged w x) a = a\<lparr>page := notify w (e_now e) x (page a)\<rparr>"
| "main_proc e WmClose a = on_close a"
| "main_proc e InitSync a = a\<lparr>page := sync_checks (page a)\<rparr>"
| "main_proc e (TrayEvent c) a = (case c of RightUp \<Rightarrow> queue TrayMenu a | OtherClick \<Rightarrow> a | _ \<Rightarrow> queue RestoreWindow a)"
| "main_proc e TaskbarCreated a = readd_if_enabled e a"
| "main_proc e (DialogOk f) a = (case dialog a of
     Some d \<Rightarrow> (apply_proxy_dialog e (read_proxy d f) a)\<lparr>dialog := None\<rparr> | None \<Rightarrow> a)"
| "main_proc e DialogClosed a = a\<lparr>dialog := None\<rparr>"
| "main_proc e CertClosed a = a\<lparr>cert_window := None\<rparr>"

text \<open>Everything that can happen next: a message, which is dispatched and its actions run; a mouse-down, noted before it is
  dispatched; a box that toggles itself; a phase of a start; a line of the log; the end of the network test.\<close>

datatype event = Message message | MouseDown window | BoxFlips window nat | ThreadRuns nat | LogLine string | TestEnds probe

fun step :: "ui_env \<Rightarrow> event \<Rightarrow> app \<Rightarrow> app" where
  "step e (Message m) a = (if open_window a then drain_actions 64 e (main_proc e m a) else a)"
| "step e (MouseDown w) a = a\<lparr>page := note_mouse_down w (e_now e) (page a)\<rparr>"
| "step e (BoxFlips w x) a = a\<lparr>page := flip w x (page a)\<rparr>"
| "step e (ThreadRuns i) a = thread_runs i a"
| "step e (LogLine l) a = a\<lparr>log_rx := log_rx a @ [l]\<rparr>"
| "step e (TestEnds p) a = (if test_rx a = Some Waiting then a\<lparr>test_rx := Some p\<rparr> else a)"

section \<open>Starting the program\<close>

definition new_app :: "(bytes \<Rightarrow> group list option) \<Rightarrow> cache_file \<Rightarrow> settings_file \<Rightarrow> bool \<Rightarrow> machine \<Rightarrow> app" where
  "new_app parse f file autorun m =
     (let s = load_settings file;
          svc = apply_enabled (support_proxy_services_status (proxy s)) (snd (Data.load parse f new_service))
      in \<lparr>page = \<lparr>pg_groups = s_groups svc, pg_accel = svc, platform = tree_clear, services = tree_clear, last_down = (None, 0)\<rparr>,
        settings_of = s, disk = file, run_key = autorun, machine = m, threads = [], start_failed = None, log_rx = [], logs = [],
        logs_dirty = False, logs_edit = [], main_tab = Accelerator, acc_tab = Platform, settings_tab = General, toast = None, status = False,
        tray_enabled = False, tray = None, hidden = False, testing = False, net_results = [], test_rx = None, traffic = (0, []),
        last_traffic = 0, last_logs = 0, actions = [], dialog = None, cert_window = None, open_window = False\<rparr>)"

definition build_ui :: "ui_env \<Rightarrow> (nat \<Rightarrow> bool) \<Rightarrow> app \<Rightarrow> app" where
  "build_ui e ok a = refresh_active_acc_page e (refresh_status
     (a\<lparr>page := build_page ok (page a), logs_edit := str_of [0x28, 0xE7, 0xA9, 0xBA, 0x29], open_window := True\<rparr>))"

definition run :: "ui_env \<Rightarrow> (nat \<Rightarrow> bool) \<Rightarrow> app \<Rightarrow> app" where
  "run e ok a = (case tray_init e (tray_icon (general (settings_of a))) (build_ui e ok a) of (on, a) \<Rightarrow>
     let a = a\<lparr>tray_enabled := on\<rparr> in a\<lparr>hidden := minimize_on_startup (general (settings_of a)) \<and> on\<rparr>)"

text \<open>A window that is hidden gets no input.\<close>

fun needs_window :: "event \<Rightarrow> bool" where
  "needs_window (Message m) = (case m of WmTimer \<Rightarrow> False | InitSync \<Rightarrow> False | TrayEvent _ \<Rightarrow> False | TaskbarCreated \<Rightarrow> False | _ \<Rightarrow> True)"
| "needs_window (MouseDown w) = True"
| "needs_window (BoxFlips w x) = True"
| "needs_window _ = False"

inductive reachable :: "app \<Rightarrow> bool" where
  launched: "booted m \<Longrightarrow> reachable (run e ok (new_app parse f file autorun m))"
| next_event: "reachable a \<Longrightarrow> (hidden a \<Longrightarrow> \<not> needs_window ev) \<Longrightarrow> reachable (step e ev a)"

section \<open>What a step does to the proxy\<close>

text \<open>The changes of the machine one event can make.\<close>

inductive touched :: "machine \<Rightarrow> machine \<Rightarrow> bool" where
  same: "touched m m"
| stopped_by: "touched m m' \<Longrightarrow> touched m (stop env m')"
| certs_used: "touched m m' \<Longrightarrow> cert_step m' m'' \<Longrightarrow> touched m m''"
| hosts_reset: "touched m m' \<Longrightarrow> touched m (m'\<lparr>hostsf := f\<rparr>)"
| thread_phase: "touched m m' \<Longrightarrow> advance c h p m' = (p', m'') \<Longrightarrow> touched m m''"

named_theorems ui_defs

lemmas small_steps [ui_defs] = push_log_def show_toast_def queue_def refresh_status_def refresh_logs_def refresh_traffic_def save_def
  set_proxy_def set_general_def set_auto_run_on_startup_def tray_init_def set_enabled_def readd_if_enabled_def cleanup_def apply_tray_pref_def

lemmas start_steps [ui_defs] = start_blocking_thread_def start_accel_def stop_proxy_def stop_accel_def switch_proxy_mode_def apply_proxy_dialog_def

lemmas page_steps [ui_defs] = start_nettest_def poll_nettest_def report_start_error_def tick_logs_def tick_traffic_def
  expire_toast_def open_proxy_def open_cert_def save_pressed_def refresh_active_acc_page_def select_main_tab_def select_acc_tab_def
  select_settings_tab_def on_close_def hide_to_tray_def restore_window_def request_exit_def cert_action_def

lemma push_logs_frame [simp]:
  "machine (fold push_log ls a) = machine a" "actions (fold push_log ls a) = actions a" "tray (fold push_log ls a) = tray a"
  "tray_enabled (fold push_log ls a) = tray_enabled a" "hidden (fold push_log ls a) = hidden a" "open_window (fold push_log ls a) = open_window a"
  "testing (fold push_log ls a) = testing a" "test_rx (fold push_log ls a) = test_rx a" "start_failed (fold push_log ls a) = start_failed a"
  "threads (fold push_log ls a) = threads a" "page (fold push_log ls a) = page a" "settings_of (fold push_log ls a) = settings_of a"
  by (induction ls arbitrary: a) (simp_all add: push_log_def Let_def)

lemma cert_step_certs: "(verdict (certs m) \<noteq> None \<Longrightarrow> verdict c = verdict (certs m)) \<Longrightarrow> cert_step m (m\<lparr>certs := c\<rparr>)"
  by (rule cert_stepI [where c = c and ms = "messages m"]) simp_all

lemma load_verdict: "Cert.load e c = (r, c') \<Longrightarrow> verdict c' = verdict c"
  by (auto simp: Cert.load_def Let_def split: option.splits if_splits)

lemma info_verdict: "verdict (snd (info e c)) = verdict c"
  using load_verdict [of e c] by (auto simp: info_def split: prod.splits option.splits)

lemma install_verdict: "verdict (snd (install e f c)) = verdict c"
  using root_verdict [of e c] by (auto simp: install_def split: prod.splits sum.splits)

lemma touched_certs: "verdict c = verdict (certs m) \<Longrightarrow> touched m (m\<lparr>certs := c\<rparr>)"
  by (rule certs_used [OF same cert_step_certs])

lemma quiet_machine [simp]:
  "machine (push_log l a) = machine a" "machine (show_toast e n a) = machine a" "machine (queue x a) = machine a"
  "machine (refresh_status a) = machine a" "machine (refresh_logs a) = machine a" "machine (refresh_traffic e a) = machine a"
  "machine (snd (save e a)) = machine a" "machine (set_proxy f a) = machine a" "machine (set_general g a) = machine a"
  "machine (snd (set_auto_run_on_startup e on a)) = machine a" "machine (snd (set_enabled e on a)) = machine a"
  "machine (readd_if_enabled e a) = machine a" "machine (cleanup a) = machine a" "machine (start_blocking_thread e mode a) = machine a"
  "machine (start_nettest a) = machine a" "machine (poll_nettest a) = machine a" "machine (open_proxy d a) = machine a"
  "machine (open_cert i a) = machine a" "machine (on_close a) = machine a" "machine (hide_to_tray a) = machine a" "machine (restore_window a) = machine a"
  by (simp_all add: ui_defs split: prod.split option.split probe.split)

lemma later_machine [simp]:
  "machine (apply_tray_pref e a) = machine a" "machine (start_accel e a) = machine a" "machine (report_start_error e a) = machine a"
  "machine (tick_logs e a) = machine a" "machine (tick_traffic e a) = machine a" "machine (expire_toast e a) = machine a"
  "machine (drain_logs a) = machine a" "machine (apply_proxy_dialog e d a) = machine a" "machine (refresh_active_acc_page e a) = machine a"
  "machine (select_main_tab e i a) = machine a" "machine (select_acc_tab e i a) = machine a" "machine (select_settings_tab i a) = machine a"
proof -
  show "machine (apply_tray_pref e a) = machine a"
    using quiet_machine(11) [of e "tray_icon (general (settings_of a))" a] by (simp add: apply_tray_pref_def Let_def case_prod_beta)
  have r: "machine (refresh_active_acc_page e b) = machine b" for b
    by (cases "acc_tab b") (simp_all add: refresh_active_acc_page_def)
  then show "machine (refresh_active_acc_page e a) = machine a" "machine (select_main_tab e i a) = machine a" "machine (select_acc_tab e i a) = machine a"
    by (simp_all add: select_main_tab_def select_acc_tab_def)
qed (simp_all add: start_accel_def report_start_error_def tick_logs_def tick_traffic_def expire_toast_def drain_logs_def
    apply_proxy_dialog_def select_settings_tab_def Let_def split: option.split prod.split)

lemma save_pressed_machine [simp]: "(\<And>b. machine (f b) = machine b) \<Longrightarrow> machine (save_pressed e f a) = machine a"
  by (simp add: save_pressed_def case_prod_beta)

lemma tick_machine [simp]: "machine (tick e a) = machine a"
  by (simp add: tick_def Let_def)

lemma touched_stop: "touched (machine a) (machine (stop_proxy e a))"
  by (simp add: stop_proxy_def stopped_by [OF same])

lemma on_command_touched: "touched (machine a) (machine (on_command e c a))"
proof (cases c)
  case START
  then show ?thesis using touched_stop [of a e] by (simp add: stop_accel_def same)
next
  case (MODE_COMBO i)
  then show ?thesis using touched_stop [of "snd (save e (set_proxy (\<lambda>s. s\<lparr>proxy_mode_of := mode_from_index i\<rparr>) a))" e]
    by (simp add: switch_proxy_mode_def Let_def same)
next
  case CERT_VIEW
  then show ?thesis using info_verdict [of "cert_env_of (e_start e)" "certs (machine a)"]
    by (cases "info (cert_env_of (e_start e)) (certs (machine a))") (simp add: touched_certs)
qed (simp_all add: same case_prod_beta)

lemma main_proc_touched: "touched (machine a) (machine (main_proc e m a))"
proof (cases m)
  case (TrayEvent c)
  then show ?thesis by (cases c) (simp_all add: same)
next
  case (DialogOk f)
  then show ?thesis by (cases "dialog a") (simp_all add: same)
qed (simp_all add: same on_command_touched)

lemma execute_touched: "touched (machine a) (machine (execute e x a))"
proof (cases x)
  case TrayMenu
  then show ?thesis using touched_stop [of a e] by (simp add: request_exit_def same)
next
  case Exit
  then show ?thesis using touched_stop [of a e] by (simp add: request_exit_def)
next
  case CertInstall
  then show ?thesis using install_verdict [of "cert_env_of (e_start e)" "certutil e" "certs (machine a)"]
    by (cases "install (cert_env_of (e_start e)) (certutil e) (certs (machine a))") (simp add: cert_action_def touched_certs)
next
  case HostsReset
  then show ?thesis by (cases "reset_file (hostsf (machine a))") (simp add: hosts_reset [OF same])
qed (simp_all add: same cert_action_def)

lemma touched_trans: "touched m2 m3 \<Longrightarrow> touched m1 m2 \<Longrightarrow> touched m1 m3"
  by (induction rule: touched.induct) (auto intro: touched.intros)

lemma executes_touched: "touched (machine a) (machine (fold (execute e) xs a))"
  by (induction xs arbitrary: a) (auto intro: same touched_trans execute_touched)

lemma drain_touched: "touched (machine a) (machine (drain_actions n e a))"
proof (induction n arbitrary: a)
  case (Suc n)
  show ?case using touched_trans [OF Suc.IH executes_touched [of "a\<lparr>actions := []\<rparr>" e "actions a"]] by (simp add: same)
qed (simp add: same)

lemma step_touched: "touched (machine a) (machine (step e ev a))"
proof (cases ev)
  case (Message m)
  then show ?thesis using touched_trans [OF drain_touched main_proc_touched] by (auto intro: same)
next
  case (ThreadRuns i)
  then show ?thesis by (auto simp: thread_runs_def split: prod.split intro: same thread_phase [OF same])
qed (auto intro: same)

section \<open>The invariant of the window\<close>

text \<open>The log is bounded, the button of the network test is off exactly while a test runs, and a hidden window has its tray icon.\<close>

definition tray_ok :: "app \<Rightarrow> bool" where
  "tray_ok a \<longleftrightarrow> tray a \<noteq> None \<and> t_enabled (the (tray a)) = tray_enabled a \<and> (hidden a \<longrightarrow> tray_enabled a)"

definition ui_ok :: "app \<Rightarrow> bool" where
  "ui_ok a \<longleftrightarrow> length (logs a) \<le> 1000 \<and> testing a = (test_rx a \<noteq> None) \<and> (open_window a \<longrightarrow> tray_ok a)"

text \<open>What most steps leave alone.\<close>

definition shell :: "app \<Rightarrow> action list \<times> bool \<times> tray_state option \<times> bool \<times> bool \<times> bool \<times> probe option" where
  "shell a = (actions a, tray_enabled a, tray a, hidden a, open_window a, testing a, test_rx a)"

lemma shell_ok: "shell b = shell a \<Longrightarrow> length (logs b) \<le> 1000 \<Longrightarrow> ui_ok a \<Longrightarrow> ui_ok b \<and> actions b = actions a \<and> tray_enabled b = tray_enabled a"
  by (cases "tray a") (auto simp: shell_def ui_ok_def tray_ok_def)

lemma quiet_shell [simp]:
  "shell (push_log l a) = shell a" "shell (show_toast e n a) = shell a"
  "shell (refresh_status a) = shell a" "shell (refresh_logs a) = shell a" "shell (refresh_traffic e a) = shell a"
  "shell (snd (save e a)) = shell a" "shell (set_proxy f a) = shell a" "shell (set_general g a) = shell a"
  "shell (snd (set_auto_run_on_startup e on a)) = shell a" "shell (start_blocking_thread e mode a) = shell a"
  "shell (open_proxy d a) = shell a" "shell (open_cert i a) = shell a" "shell (stop_proxy e a) = shell a"
  "shell (a\<lparr>page := p\<rparr>) = shell a" "shell (a\<lparr>machine := m\<rparr>) = shell a"
  by (simp_all add: shell_def ui_defs split: prod.split option.split)

lemma quiet_logs [simp]:
  "logs (show_toast e n a) = logs a" "logs (queue x a) = logs a"
  "logs (refresh_status a) = logs a" "logs (refresh_logs a) = logs a" "logs (refresh_traffic e a) = logs a"
  "logs (snd (save e a)) = logs a" "logs (set_proxy f a) = logs a" "logs (set_general g a) = logs a"
  "logs (snd (set_auto_run_on_startup e on a)) = logs a" "logs (start_blocking_thread e mode a) = logs a"
  "logs (open_proxy d a) = logs a" "logs (open_cert i a) = logs a" "logs (stop_proxy e a) = logs a" "logs (snd (set_enabled e on a)) = logs a"
  by (simp_all add: ui_defs Let_def split: prod.split option.split)

lemma push_log_length: "length (logs (push_log l a)) \<le> 1000"
  by (simp add: push_log_def Let_def)

lemma push_logs_shell [simp]: "shell (fold push_log ls a) = shell a"
  by (simp add: shell_def)

definition latest :: "'a list \<Rightarrow> 'a list" where
  "latest xs = drop (length xs - 1000) xs"

lemma latest_latest: "latest (latest xs @ ys) = latest (xs @ ys)"
proof (cases "length xs \<le> 1000")
  case False
  then have "length (latest xs) = 1000" by (simp add: latest_def)
  then have "latest (latest xs @ ys) = drop (length ys) (latest xs @ ys)" by (simp add: latest_def)
  also have "\<dots> = drop (length ys) (drop (length xs - 1000) (xs @ ys))" using False by (simp add: latest_def)
  also have "\<dots> = latest (xs @ ys)" using False by (simp add: latest_def add.commute)
  finally show ?thesis .
qed (simp add: latest_def)

lemma latest_all [simp]: "length xs \<le> 1000 \<Longrightarrow> latest xs = xs" and latest_length: "length (latest xs) \<le> 1000"
  by (simp_all add: latest_def)

lemma push_log_latest: "logs (push_log l a) = latest (logs a @ [l])"
  by (simp add: push_log_def Let_def latest_def)

lemma push_logs_latest: "length (logs a) \<le> 1000 \<Longrightarrow> logs (fold push_log ls a) = latest (logs a @ ls)"
proof (induction ls arbitrary: a)
  case (Cons l ls)
  then show ?case using Cons.IH [of "push_log l a"] by (simp add: push_log_latest latest_length latest_latest)
qed simp

lemma page_shell [simp]:
  "shell (start_accel e a) = shell a" "shell (stop_accel e a) = shell a" "shell (switch_proxy_mode e mode a) = shell a"
  "shell (apply_proxy_dialog e d a) = shell a" "shell (refresh_active_acc_page e a) = shell a"
  "shell (report_start_error e a) = shell a" "shell (tick_logs e a) = shell a" "shell (tick_traffic e a) = shell a"
  "shell (expire_toast e a) = shell a" "shell (drain_logs a) = shell a"
proof -
  have u: "shell (b\<lparr>last_logs := n\<rparr>) = shell b" "shell (b\<lparr>last_traffic := n\<rparr>) = shell b" "shell (b\<lparr>log_rx := r\<rparr>) = shell b"
    "shell (b\<lparr>start_failed := f\<rparr>) = shell b" "shell (b\<lparr>toast := ts\<rparr>) = shell b" for b n r f ts
    by (simp_all add: shell_def)
  have s: "shell (start_accel e b) = shell b" for b by (simp add: start_accel_def Let_def)
  then show "shell (start_accel e a) = shell a" "shell (stop_accel e a) = shell a" "shell (switch_proxy_mode e mode a) = shell a"
    "shell (apply_proxy_dialog e d a) = shell a" by (simp_all add: stop_accel_def switch_proxy_mode_def apply_proxy_dialog_def Let_def)
  show "shell (refresh_active_acc_page e a) = shell a"
    by (cases "acc_tab a") (simp_all add: refresh_active_acc_page_def u)
  show "shell (report_start_error e a) = shell a" by (cases "start_failed a") (simp_all add: report_start_error_def u)
  show "shell (tick_logs e a) = shell a" "shell (tick_traffic e a) = shell a" "shell (drain_logs a) = shell a"
    by (simp_all add: tick_logs_def tick_traffic_def drain_logs_def u)
  show "shell (expire_toast e a) = shell a" by (simp add: expire_toast_def u split: option.split)
qed

lemma page_logs [simp]:
  "logs (start_accel e a) = logs a" "logs (stop_accel e a) = logs a" "logs (switch_proxy_mode e mode a) = logs a"
  "logs (apply_proxy_dialog e d a) = logs a" "logs (refresh_active_acc_page e a) = logs a"
  "logs (tick_logs e a) = logs a" "logs (tick_traffic e a) = logs a" "logs (expire_toast e a) = logs a" "logs (poll_nettest a) = logs a"
proof -
  have s: "logs (start_accel e b) = logs b" for b by (simp add: start_accel_def Let_def)
  then show "logs (start_accel e a) = logs a" "logs (stop_accel e a) = logs a" "logs (switch_proxy_mode e mode a) = logs a"
    "logs (apply_proxy_dialog e d a) = logs a" by (simp_all add: stop_accel_def switch_proxy_mode_def apply_proxy_dialog_def Let_def)
  show "logs (refresh_active_acc_page e a) = logs a"
    by (cases "acc_tab a") (simp_all add: refresh_active_acc_page_def)
qed (simp_all add: tick_logs_def tick_traffic_def expire_toast_def poll_nettest_def split: option.split probe.split)

text \<open>After a tick the log holds the newest thousand lines of what was there, what the proxy sent, and the error of a start.\<close>

lemma tick_latest:
  assumes "length (logs a) \<le> 1000"
  shows "logs (tick e a) = latest (logs a @ take 2000 (log_rx a) @ (case start_failed a of Some er \<Rightarrow> [error_line e er] | None \<Rightarrow> []))"
proof -
  have t: "logs (tick e a) = logs (report_start_error e (drain_logs a))" by (simp add: tick_def Let_def)
  have d: "logs (drain_logs a) = latest (logs a @ take 2000 (log_rx a))" "start_failed (drain_logs a) = start_failed a"
    using assms push_logs_latest [of "a\<lparr>log_rx := drop 2000 (log_rx a)\<rparr>" "take 2000 (log_rx a)"] by (simp_all add: drain_logs_def)
  show ?thesis using latest_latest [of "logs a @ take 2000 (log_rx a)"]
    by (cases "start_failed a") (simp_all add: t d report_start_error_def push_log_latest)
qed

text \<open>A step that is safe for the window: the invariant holds again and hiding is queued only with a tray icon.\<close>

definition steps_to :: "app \<Rightarrow> app \<Rightarrow> bool" where
  "steps_to a b \<longleftrightarrow> ui_ok b \<and> (HideToTray \<in> set (actions b) \<longrightarrow> HideToTray \<in> set (actions a) \<or> tray_enabled b)"

lemma quiet_steps: "ui_ok a \<Longrightarrow> shell b = shell a \<Longrightarrow> length (logs b) \<le> 1000 \<Longrightarrow> steps_to a b"
  using shell_ok [of b a] by (simp add: steps_to_def)

lemma ui_ok_logs: "ui_ok a \<Longrightarrow> length (logs a) \<le> 1000"
  by (simp add: ui_ok_def)

lemma queue_steps: "ui_ok a \<Longrightarrow> x \<noteq> HideToTray \<or> tray_enabled a \<Longrightarrow> steps_to a (queue x a)"
  by (auto simp: steps_to_def ui_ok_def tray_ok_def queue_def)

lemma tray_pref_steps:
  assumes "ui_ok a" "\<not> hidden a"
  shows "ui_ok (apply_tray_pref e a) \<and> actions (apply_tray_pref e a) = actions a \<and> logs (apply_tray_pref e a) = logs a"
proof -
  let ?want = "tray_icon (general (settings_of a))"
  obtain on b where s: "set_enabled e ?want a = (on, b)" by fastforce
  have "ui_ok (b\<lparr>tray_enabled := on\<rparr>)" "actions b = actions a" "logs b = logs a"
    using assms s by (cases "tray a"; auto simp: set_enabled_def ui_ok_def tray_ok_def Let_def)+
  moreover have "apply_tray_pref e a = (if ?want = tray_enabled a then a
      else if ?want \<and> \<not> on then show_toast e TrayFailed (b\<lparr>tray_enabled := on\<rparr>) else b\<lparr>tray_enabled := on\<rparr>)"
    by (simp only: apply_tray_pref_def Let_def s prod.case)
  ultimately show ?thesis using assms(1) by (auto simp: show_toast_def ui_ok_def tray_ok_def)
qed

lemma nettest_steps: "ui_ok a \<Longrightarrow> steps_to a (start_nettest a)" "ui_ok a \<Longrightarrow> ui_ok (poll_nettest a) \<and> actions (poll_nettest a) = actions a"
  by (auto simp: steps_to_def ui_ok_def tray_ok_def start_nettest_def poll_nettest_def split: option.split probe.split)

lemma tick_steps:
  assumes "ui_ok a"
  shows "steps_to a (tick e a)"
proof -
  define b where "b = tick_logs e (report_start_error e (drain_logs a))"
  have "length (logs (drain_logs a)) \<le> 1000"
    using ui_ok_logs [OF assms] push_logs_latest [of "a\<lparr>log_rx := drop 2000 (log_rx a)\<rparr>"] by (simp add: drain_logs_def latest_length)
  then have "length (logs b) \<le> 1000"
    by (cases "start_failed (drain_logs a)") (simp_all add: b_def report_start_error_def push_log_length)
  moreover have "shell b = shell a" by (simp add: b_def)
  ultimately have b: "ui_ok b" "actions b = actions a" using shell_ok [OF _ _ assms] by blast+
  note c = nettest_steps(2) [OF b(1), THEN conjunct1] nettest_steps(2) [OF b(1), THEN conjunct2]
  define d where "d = expire_toast e (tick_traffic e (if is_running (poll_nettest b) \<noteq> status (poll_nettest b) then refresh_status (poll_nettest b) else poll_nettest b))"
  have "shell d = shell (poll_nettest b)" "logs d = logs (poll_nettest b)" by (simp_all add: d_def)
  then have "ui_ok d" "actions d = actions a" using shell_ok [of d "poll_nettest b"] c ui_ok_logs [OF c(1)] b(2) by simp_all
  moreover have "tick e a = d" by (simp add: tick_def Let_def d_def b_def)
  ultimately show ?thesis by (simp add: steps_to_def)
qed

lemma on_command_steps:
  assumes "ui_ok a" "\<not> hidden a"
  shows "steps_to a (on_command e c a)"
proof -
  note q = quiet_steps [OF assms(1)] and l = ui_ok_logs [OF assms(1)]
  show ?thesis
  proof (cases c)
    case CERT_VIEW
    obtain i cs where i: "info (cert_env_of (e_start e)) (certs (machine a)) = (i, cs)" by fastforce
    let ?b = "a\<lparr>machine := (machine a)\<lparr>certs := cs\<rparr>\<rparr>"
    have "steps_to ?b (queue (OpenCertDialog i) ?b)" using shell_ok [of ?b a] assms(1) l by (intro queue_steps) simp_all
    then show ?thesis using CERT_VIEW i by (simp add: steps_to_def)
  next
    case LOGS_CLEAR
    then show ?thesis using assms(1) by (simp add: steps_to_def ui_ok_def tray_ok_def refresh_logs_def)
  next
    case NETTEST_START
    then show ?thesis using nettest_steps(1) [OF assms(1)] by simp
  next
    case (GEN_AUTORUN on)
    let ?s = "set_auto_run_on_startup e on (set_general (\<lambda>g. g\<lparr>auto_run_on_startup := on\<rparr>) a)"
    show ?thesis using q [of "show_toast e (AutorunSet (fst ?s)) (snd ?s)"] l GEN_AUTORUN by (simp add: case_prod_beta)
  next
    case GEN_SAVE
    have s: "ui_ok (snd (save e a))" "\<not> hidden (snd (save e a))" "actions (snd (save e a)) = actions a"
      using shell_ok [of "snd (save e a)" a] assms l quiet_shell(6) [of e a] by (simp_all add: shell_def)
    note p = tray_pref_steps [OF s(1,2), of e]
    have "ui_ok (show_toast e (SettingsSaved (fst (save e a))) (apply_tray_pref e (snd (save e a))))"
      "actions (show_toast e (SettingsSaved (fst (save e a))) (apply_tray_pref e (snd (save e a)))) = actions a"
      using p s(3) shell_ok [OF quiet_shell(2), of e _ "apply_tray_pref e (snd (save e a))"] ui_ok_logs [of "apply_tray_pref e (snd (save e a))"]
      by simp_all
    then show ?thesis using GEN_SAVE by (simp add: save_pressed_def case_prod_beta steps_to_def)
  next
    case ACCEL_SAVE
    show ?thesis using q [of "show_toast e (SettingsSaved (fst (save e a))) (snd (save e a))"] l ACCEL_SAVE
      by (simp add: save_pressed_def case_prod_beta)
  qed (use q l queue_steps [OF assms(1)] in simp_all)
qed

lemma main_proc_steps:
  assumes "ui_ok a" "hidden a \<Longrightarrow> \<not> needs_window (Message m)"
  shows "steps_to a (main_proc e m a)"
proof -
  note q = quiet_steps [OF assms(1)] and l = ui_ok_logs [OF assms(1)]
  have u: "shell (b\<lparr>main_tab := x\<rparr>) = shell b" "shell (b\<lparr>acc_tab := y\<rparr>) = shell b" "shell (b\<lparr>settings_tab := z\<rparr>) = shell b"
    "shell (b\<lparr>dialog := d\<rparr>) = shell b" "shell (b\<lparr>cert_window := i\<rparr>) = shell b" for b x y z d i by (simp_all add: shell_def)
  show ?thesis
  proof (cases m)
    case WmTimer
    then show ?thesis using tick_steps [OF assms(1)] by simp
  next
    case (WmCommand c)
    then have "\<not> hidden a" using assms(2) by auto
    then show ?thesis using on_command_steps [OF assms(1)] WmCommand by simp
  next
    case (MainTabs i)
    then show ?thesis using q l u by (simp add: select_main_tab_def)
  next
    case (AccTabs i)
    then show ?thesis using q l u by (simp add: select_acc_tab_def)
  next
    case (SettingsTabs i)
    then show ?thesis using q l u by (simp add: select_settings_tab_def)
  next
    case WmClose
    then show ?thesis using queue_steps [OF assms(1)] by (simp add: on_close_def)
  next
    case (TrayEvent c)
    then show ?thesis using queue_steps [OF assms(1)] q [of a] l by (cases c) simp_all
  next
    case TaskbarCreated
    have "ui_ok (readd_if_enabled e a) \<and> actions (readd_if_enabled e a) = actions a"
      using assms(1) by (cases "tray a") (auto simp: readd_if_enabled_def ui_ok_def tray_ok_def)
    then show ?thesis using TaskbarCreated by (simp add: steps_to_def)
  next
    case (DialogOk f)
    then show ?thesis using q [of a] q l u by (cases "dialog a") simp_all
  qed (use q l u in simp_all)
qed

text \<open>Actions queue nothing, so one batch empties the queue.\<close>

lemma execute_frame: "actions (execute e x a) = actions a" "tray_enabled (execute e x a) = tray_enabled a" "open_window (execute e x a) \<Longrightarrow> open_window a"
proof -
  have s: "shell (show_toast e n (push_log l b)) = shell b" for n l b by simp
  have k: "actions (show_toast e n (push_log l b)) = actions b \<and> tray_enabled (show_toast e n (push_log l b)) = tray_enabled b \<and>
      open_window (show_toast e n (push_log l b)) = open_window b" for n l b
    using s [of n l b] by (simp add: shell_def)
  show "actions (execute e x a) = actions a" "tray_enabled (execute e x a) = tray_enabled a" "open_window (execute e x a) \<Longrightarrow> open_window a"
    by (cases x; simp add: request_exit_def cleanup_def stop_proxy_def restore_window_def hide_to_tray_def cert_action_def
      open_proxy_def open_cert_def case_prod_beta k split: if_splits)+
qed

lemma execute_ok:
  assumes "ui_ok a" "x = HideToTray \<Longrightarrow> open_window a \<Longrightarrow> tray_enabled a"
  shows "ui_ok (execute e x a)"
proof -
  have log: "ui_ok (show_toast e n (push_log l (a\<lparr>machine := m\<rparr>)))" for n l m
    using shell_ok [of "show_toast e n (push_log l (a\<lparr>machine := m\<rparr>))" a] assms(1) push_log_length by simp
  have log': "ui_ok (show_toast e n (push_log l a))" for n l
    using shell_ok [of "show_toast e n (push_log l a)" a] assms(1) push_log_length by simp
  have ex: "ui_ok (request_exit e a)" "ui_ok (restore_window a)"
    using assms(1) by (auto simp: ui_ok_def tray_ok_def request_exit_def cleanup_def stop_proxy_def restore_window_def split: option.splits)
  show ?thesis
  proof (cases x)
    case HideToTray
    then show ?thesis using assms by (auto simp: ui_ok_def tray_ok_def hide_to_tray_def split: option.splits)
  next
    case (OpenProxyDialog d)
    then show ?thesis using assms(1) by (simp add: open_proxy_def ui_ok_def tray_ok_def)
  next
    case (OpenCertDialog i)
    then show ?thesis using assms(1) by (simp add: open_cert_def ui_ok_def tray_ok_def)
  qed (use assms(1) log log' ex in \<open>simp_all add: cert_action_def case_prod_beta\<close>)
qed

lemma executes_ok:
  "ui_ok a \<Longrightarrow> (HideToTray \<in> set xs \<Longrightarrow> open_window a \<Longrightarrow> tray_enabled a) \<Longrightarrow>
   ui_ok (fold (execute e) xs a) \<and> actions (fold (execute e) xs a) = actions a"
proof (induction xs arbitrary: a)
  case (Cons x xs)
  have "ui_ok (execute e x a)" using Cons.prems by (intro execute_ok) auto
  moreover have "HideToTray \<in> set xs \<Longrightarrow> open_window (execute e x a) \<Longrightarrow> tray_enabled (execute e x a)"
    using Cons.prems(2) execute_frame(2) [of e x a] execute_frame(3) [of e x a] by auto
  ultimately show ?case using Cons.IH [of "execute e x a"] execute_frame(1) [of e x a] by simp
qed simp

lemma drain_once: "drain_actions (Suc (Suc n)) e a = fold (execute e) (actions a) (a\<lparr>actions := []\<rparr>)"
proof -
  have n: "actions (fold (execute e) xs b) = actions b" for xs b by (induction xs arbitrary: b) (simp_all add: execute_frame)
  show ?thesis using n [of "actions a" "a\<lparr>actions := []\<rparr>"] by simp
qed

lemma drain_ok:
  assumes "steps_to a b" "actions a = []"
  shows "ui_ok (drain_actions 64 e b) \<and> actions (drain_actions 64 e b) = []"
proof -
  have "ui_ok (b\<lparr>actions := []\<rparr>)" using assms(1) by (simp add: steps_to_def ui_ok_def tray_ok_def)
  moreover have "HideToTray \<in> set (actions b) \<Longrightarrow> tray_enabled (b\<lparr>actions := []\<rparr>)" using assms by (auto simp: steps_to_def)
  ultimately show ?thesis using executes_ok [of "b\<lparr>actions := []\<rparr>" "actions b" e] drain_once [of 62 e b] by simp
qed

lemma step_ok:
  assumes "ui_ok a \<and> actions a = []" "hidden a \<Longrightarrow> \<not> needs_window ev"
  shows "ui_ok (step e ev a) \<and> actions (step e ev a) = []"
proof (cases ev)
  case (Message m)
  then have "steps_to a (main_proc e m a)" using assms by (intro main_proc_steps) simp_all
  then show ?thesis using Message assms drain_ok [of a "main_proc e m a" e] by simp
next
  case (ThreadRuns i)
  then show ?thesis using assms(1) by (simp add: thread_runs_def ui_ok_def tray_ok_def case_prod_beta)
qed (use assms(1) in \<open>auto simp: ui_ok_def tray_ok_def\<close>)

section \<open>The proxy in all reachable states\<close>

text \<open>What a start thread and a stop keep is kept by every event of the user interface.\<close>

locale machine_kept =
  fixes kept :: "machine \<Rightarrow> bool"
  assumes kept_boot: "booted m \<Longrightarrow> kept m"
    and kept_stop: "kept m \<Longrightarrow> kept (stop env m)"
    and kept_advance: "kept m \<Longrightarrow> advance c h p m = (p', m') \<Longrightarrow> kept m'"
    and kept_certs: "kept m \<Longrightarrow> cert_step m m' \<Longrightarrow> kept m'"
    and kept_hosts: "kept m \<Longrightarrow> kept (m\<lparr>hostsf := f\<rparr>)"
begin

lemma kept_touched: "touched m m' \<Longrightarrow> kept m \<Longrightarrow> kept m'"
  by (induction rule: touched.induct) (auto intro: kept_stop kept_certs kept_hosts kept_advance)

lemma kept_step: "kept (machine a) \<Longrightarrow> kept (machine (step e ev a))"
  by (rule kept_touched [OF step_touched])

lemma kept_reachable: "reachable a \<Longrightarrow> kept (machine a)"
proof (induction rule: reachable.induct)
  case (launched m e ok parse f stored autorun)
  have "machine (run e ok (new_app parse f stored autorun m)) = m"
    by (simp add: run_def new_app_def build_ui_def tray_init_def Let_def)
  then show ?case using kept_boot [OF launched] by simp
next
  case (next_event a ev e)
  then show ?case using kept_step by simp
qed

end

interpretation safely: machine_kept safe
proof unfold_locales
  show "booted m \<Longrightarrow> safe m" for m by (simp add: booted_def safe_def)
  show "safe m \<Longrightarrow> safe (m\<lparr>hostsf := f\<rparr>)" for m f by simp
qed (auto intro: safe_stop safe_advance safe_cert_step)

lemma reachable_ok: "reachable a \<Longrightarrow> ui_ok a \<and> actions a = []"
proof (induction rule: reachable.induct)
  case (launched m e ok parse f stored autorun)
  then show ?case
    by (simp add: run_def new_app_def build_ui_def refresh_active_acc_page_def refresh_status_def tray_init_def Let_def ui_ok_def tray_ok_def)
next
  case (next_event a ev e)
  then show ?case using step_ok by simp
qed

section \<open>A start and its thread\<close>

text \<open>A thread that nothing interrupts does what \<open>start_blocking\<close> does.\<close>

definition complete :: "nat \<Rightarrow> app \<Rightarrow> app" where
  "complete i a = thread_runs i (thread_runs i (thread_runs i (thread_runs i a)))"

lemma held_done: "list_all (\<lambda>p. held_by p = []) ps \<Longrightarrow> held (ps @ [p]) = held_by p"
  by (auto simp: held_def list_all_iff)

lemma thread_phase_runs:
  assumes "threads a = ts @ [(c, p)]" "list_all (\<lambda>x. held_by (snd x) = []) ts" "advance c (held_by p) p (machine a) = (p', m)"
  shows "machine (thread_runs (length ts) a) = m \<and> threads (thread_runs (length ts) a) = ts @ [(c, p')] \<and>
    start_failed (thread_runs (length ts) a) = (case thread_error p p' of Some er \<Rightarrow> Some er | None \<Rightarrow> start_failed a)"
proof -
  have "held (map snd (threads a)) = held_by p"
    using held_done [of "map snd ts" p] assms(1,2) by (simp add: list.pred_map comp_def case_prod_beta)
  then show ?thesis using assms by (simp add: thread_runs_def nth_append)
qed

lemma thread_completes:
  assumes "threads a = ts @ [(c, Fresh)]" "list_all (\<lambda>x. held_by (snd x) = []) ts"
    and "start_blocking (c_env c) (c_mode c) (c_settings c) (c_groups c) (machine a) = (r, m)" "start_failed a = None"
  shows "machine (complete (length ts) a) = m \<and> start_failed (complete (length ts) a) = (case r of Inl er \<Rightarrow> Some er | Inr _ \<Rightarrow> None)"
proof (cases "can_runtime (c_env c)")
  case False
  note 1 = thread_phase_runs [OF assms(1,2), of Done "machine a"]
  let ?a = "thread_runs (length ts) a"
  have a: "threads ?a = ts @ [(c, Done)]" "machine ?a = machine a" "start_failed ?a = Some RuntimeFailed" using 1 False by (simp_all add: thread_error_def)
  have idle: "machine (thread_runs (length ts) b) = machine b \<and> threads (thread_runs (length ts) b) = threads b \<and> start_failed (thread_runs (length ts) b) = start_failed b"
    if "threads b = ts @ [(c, Done)]" for b
    using thread_phase_runs [OF that assms(2), of Done "machine b"] that by (simp add: thread_error_def)
  show ?thesis using idle a False assms(3) by (auto simp: complete_def start_blocking_def)
next
  case True
  obtain rt m1 where q: "acquire (machine a) = (rt, m1)" by fastforce
  obtain x m2 where b: "begin_start (c_env c) (c_mode c) (c_settings c) (c_groups c) m1 = (x, m2)" by fastforce
  let ?a1 = "thread_runs (length ts) a"
  have a1: "machine ?a1 = m1" "threads ?a1 = ts @ [(c, Acquired rt)]" "start_failed ?a1 = None"
    using thread_phase_runs [OF assms(1,2), of "Acquired rt" m1] True q assms(4) by (simp_all add: thread_error_def)
  let ?a2 = "thread_runs (length ts) ?a1" and ?a3 = "thread_runs (length ts) (thread_runs (length ts) ?a1)"
  show ?thesis
  proof (cases x)
    case (Inl er)
    have a2: "machine ?a2 = m2" "threads ?a2 = ts @ [(c, Ran rt (Inl er))]" "start_failed ?a2 = None"
      using thread_phase_runs [OF a1(2) assms(2), of "Ran rt (Inl er)" m2] b Inl a1 by (simp_all add: thread_error_def)
    have a3: "machine ?a3 = finish (Inl er) m2" "threads ?a3 = ts @ [(c, Done)]" "start_failed ?a3 = Some er"
      using thread_phase_runs [OF a2(2) assms(2), of Done "finish (Inl er) m2"] a2 by (simp_all add: thread_error_def)
    have "machine (thread_runs (length ts) ?a3) = machine ?a3" "start_failed (thread_runs (length ts) ?a3) = start_failed ?a3"
      using thread_phase_runs [OF a3(2) assms(2), of Done "machine ?a3"] by (simp_all add: thread_error_def)
    then show ?thesis using a3 assms(3) True q b Inl by (auto simp: complete_def start_blocking_def)
  next
    case (Inr y)
    obtain z m3 where s: "serve (c_env c) [rt] rt (c_mode c) (c_settings c) m2 = (z, m3)" by fastforce
    have a2: "machine ?a2 = m2" "threads ?a2 = ts @ [(c, Begun rt)]" "start_failed ?a2 = None"
      using thread_phase_runs [OF a1(2) assms(2), of "Begun rt" m2] b Inr a1 by (simp_all add: thread_error_def)
    have a3: "machine ?a3 = m3" "threads ?a3 = ts @ [(c, Ran rt z)]" "start_failed ?a3 = None"
      using thread_phase_runs [OF a2(2) assms(2), of "Ran rt z" m3] s a2 by (simp_all add: thread_error_def)
    have "machine (thread_runs (length ts) ?a3) = finish z m3"
      "start_failed (thread_runs (length ts) ?a3) = (case z of Inl er \<Rightarrow> Some er | Inr _ \<Rightarrow> None)"
      using thread_phase_runs [OF a3(2) assms(2), of Done "finish z m3"] a3 by (cases z; simp add: thread_error_def)+
    then show ?thesis using assms(3) True q b Inr s by (auto simp: complete_def start_blocking_def)
  qed
qed

text \<open>A start with nothing running hands the thread the selection the trees show, and saves it.\<close>

lemma start_accel_frame:
  assumes "\<not> is_running a" "save_fails e = None"
  shows "disk (start_accel e a) = Some (settings_of (start_accel e a))"
    "support_proxy_services_status (proxy (settings_of (start_accel e a))) = groups_enabled_ids (pg_groups (page a))"
    "page (start_accel e a) = page a"
  using assms by (simp_all add: start_accel_def Let_def set_proxy_def save_def show_toast_def start_blocking_thread_def)

lemma switch_frame:
  assumes "proxy_mode_of (proxy (settings_of a)) \<noteq> mode" "is_running a" "\<not> running (mgr (stop (e_start e) (machine a)))"
  shows "\<exists>s. machine (switch_proxy_mode e mode a) = stop (e_start e) (machine a) \<and> start_failed (switch_proxy_mode e mode a) = start_failed a \<and>
    threads (switch_proxy_mode e mode a) = threads a @ [(\<lparr>c_env = e_start e, c_mode = mode, c_settings = s, c_groups = pg_groups (page a)\<rparr>, Fresh)] \<and>
    on_switches mode s = on_switches mode (proxy (settings_of a))"
  using assms by (cases "save_fails e"; cases mode)
    (simp_all add: switch_proxy_mode_def start_accel_def Let_def set_proxy_def save_def show_toast_def start_blocking_thread_def stop_proxy_def)

lemma restored_leaves:
  "leaves_of (map (\<lambda>g. g\<lparr>g_items := map (restore_enable en) (g_items g)\<rparr>) gs) = map (mark_leaf en) (leaves_of gs)"
  by (induction gs) (simp_all add: leaves_of_def map_concat comp_def restore_enable_leaves)

lemma enabled_ids_states:
  assumes "distinct (leaf_ids gs)"
  shows "i \<in> set (groups_enabled_ids gs) \<longleftrightarrow> leaf_states gs i = Some True"
  unfolding leaf_states_iff [OF assms] by (auto simp: groups_enabled_ids_def enabled_ids_leaves leaves_of_def)

section \<open>Properties\<close>

text \<open>C16. In every state the program can reach the log holds at most a thousand lines, the button of the network test is off exactly while a
  test runs, no queued action is left over, a window is hidden only while its tray icon counts as shown, and the listeners are within
  the bounds of the proxy manager whatever was clicked while starts were under way.\<close>

theorem window_invariant:
  assumes "reachable a"
  shows "length (logs a) \<le> 1000 \<and> (testing a \<longleftrightarrow> test_rx a \<noteq> None) \<and> actions a = [] \<and>
    (open_window a \<and> hidden a \<longrightarrow> (\<exists>t. tray a = Some t \<and> t_enabled t)) \<and>
    list_all (\<lambda>l. safe_role (verdict (certs (machine a)) = Some True) (l_addr l) (l_role l)) (listening h (machine a))"
proof -
  have "ui_ok a \<and> actions a = []" by (rule reachable_ok [OF assms])
  moreover have "safe (machine a)" by (rule safely.kept_reachable [OF assms])
  ultimately show ?thesis by (auto simp: ui_ok_def tray_ok_def safe_def list_all_iff listening_def)
qed


text \<open>C23. A restart shows what was chosen: after a start that could save the settings, the program launched anew on the same manifest shows
  every leaf as it was.\<close>

theorem restart_shows_selection:
  assumes "\<not> is_running a" "save_fails e = None" "distinct (leaf_ids (pg_groups (page a)))"
    and "leaf_ids (s_groups (snd (Data.load parse f new_service))) = leaf_ids (pg_groups (page a))"
  shows "leaf_states (pg_groups (page (new_app parse f (disk (start_accel e a)) autorun m))) = leaf_states (pg_groups (page a))"
proof
  fix i
  let ?gs = "s_groups (snd (Data.load parse f new_service))" and ?en = "set (groups_enabled_ids (pg_groups (page a)))"
  let ?hs = "pg_groups (page (new_app parse f (disk (start_accel e a)) autorun m))"
  have hs: "?hs = map (\<lambda>g. g\<lparr>g_items := map (restore_enable ?en) (g_items g)\<rparr>) ?gs"
    using start_accel_frame [OF assms(1,2)] by (simp add: new_app_def Let_def load_settings_def apply_enabled_def)
  have ids: "leaf_ids ?hs = leaf_ids ?gs" unfolding hs restored_leaves by (simp add: mark_leaf_def comp_def)
  have d: "distinct (leaf_ids ?hs)" using ids assms(3,4) by simp
  show "leaf_states ?hs i = leaf_states (pg_groups (page a)) i"
  proof (cases "i \<in> set (leaf_ids (pg_groups (page a)))")
    case False
    then have "i \<notin> dom (leaf_states ?hs)" "i \<notin> dom (leaf_states (pg_groups (page a)))"
      unfolding leaf_states_dom ids assms(4) by blast+
    then show ?thesis by (metis domIff)
  next
    case True
    then obtain v where v: "leaf_states (pg_groups (page a)) i = Some v" using leaf_states_dom by (metis domD)
    have "i \<in> set (leaf_ids ?gs)" using True assms(4) by simp
    then obtain l where l: "l \<in> set (leaves_of ?gs)" "has_id i l" by auto
    have "v = (i \<in> ?en)" using enabled_ids_states [OF assms(3), of i] v by simp
    moreover have "mark_leaf ?en l \<in> set (leaves_of ?hs)" unfolding hs restored_leaves using l(1) by simp
    ultimately have "leaf_states ?hs i = Some v" unfolding leaf_states_iff [OF d] using l(2)
      by (intro bexI [of _ "mark_leaf ?en l"]) (simp_all add: mark_leaf_def)
    then show ?thesis using v by simp
  qed
qed

text \<open>Confirming the proxy dialog unchanged changes nothing: opened from the settings and confirmed with every control as it was filled, in
  whatever order other windows are used in between, the dialog writes back exactly the proxy settings it was opened with.\<close>

theorem dialog_confirms_unchanged:
  assumes "open_window a" "actions a = []" "dialog a = None" "settings_of b = settings_of a"
    and "dialog b = dialog (step e (Message (WmCommand PROXY_SETTINGS)) a)" "open_window b" "actions b = []"
  shows "\<exists>d. dialog b = Some d \<and> settings_of (step e' (Message (DialogOk (create_proxy_ui d))) b) = settings_of a"
proof -
  let ?d = "from_settings (proxy (settings_of a))"
  have d: "dialog b = Some ?d" using assms(1-3,5) drain_once [of 62 e "queue (OpenProxyDialog ?d) a"] by (simp add: queue_def open_proxy_def)
  have port: "parse_port (show_nat (unat p)) q = p" for p q :: u16
    using parse_u16_show [of p] by (simp add: parse_port_def show_u16_def show_nat_facts)
  have r: "read_proxy ?d (create_proxy_ui ?d) = ?d"
    by (simp add: read_proxy_def create_proxy_ui_def port cfg_simps)
  have m: "main_proc e' (DialogOk (create_proxy_ui ?d)) b = (apply_proxy_dialog e' ?d b)\<lparr>dialog := None\<rparr>" using d r by simp
  have q: "settings_of (apply_proxy_dialog e' ?d b) = settings_of a" "actions (apply_proxy_dialog e' ?d b) = []"
    using assms(4,7) by (cases "save_fails e'"; simp add: apply_proxy_dialog_def set_proxy_def save_def show_toast_def apply_to_from_settings)+
  then show ?thesis using d m assms(6) drain_once [of 62 e' "(apply_proxy_dialog e' ?d b)\<lparr>dialog := None\<rparr>"] by simp
qed

section \<open>Examples\<close>

definition sample_ui :: ui_env where
  "sample_ui = \<lparr>e_start = granting, e_now = 5000, save_fails = None, run_key_ok = True, run_delete_ok = True, add_icon_ok = True, menu_choice = 0,
     certutil = (\<lambda>_. Exited True), powershell = Exited True, stats = (0, []), error_text = (\<lambda>_. ''failed''),
     cert_text = (\<lambda>_. ''done''), hosts_text = (\<lambda>_. ''done'')\<rparr>"

definition fresh_app :: "settings_file \<Rightarrow> machine \<Rightarrow> app" where
  "fresh_app saved m = new_app (\<lambda>_. Some sample_groups) (Contents []) saved False m"

abbreviation sample_app :: app where
  "sample_app \<equiv> run sample_ui (\<lambda>_. True) (fresh_app None sample_machine)"

lemmas app_defs = run_def build_ui_def new_app_def tray_init_def refresh_status_def refresh_active_acc_page_def load_settings_def
  default_general_def

lemma sample_reachable: "reachable sample_app"
  unfolding fresh_app_def by (rule reachable.launched [OF sample_booted])

lemma sample_app_fields: "\<not> hidden sample_app" "open_window sample_app" "tray_enabled sample_app" "actions sample_app = []"
  "machine sample_app = sample_machine" "dialog sample_app = None" "threads sample_app = []" "start_failed sample_app = None"
  by (simp_all add: fresh_app_def app_defs sample_ui_def Let_def)

lemma window_invariant_witness:
  "let a = step sample_ui (Message WmClose) sample_app in hidden a \<and> (\<exists>t. tray a = Some t \<and> t_enabled t)"
proof -
  let ?a = "step sample_ui (Message WmClose) sample_app"
  have "reachable ?a" by (rule reachable.next_event [OF sample_reachable]) (simp add: sample_app_fields)
  from window_invariant [OF this] have i: "open_window ?a \<and> hidden ?a \<longrightarrow> (\<exists>t. tray ?a = Some t \<and> t_enabled t)" by blast
  have "?a = hide_to_tray (sample_app\<lparr>actions := []\<rparr>)"
    using drain_once [of 62 sample_ui "on_close sample_app"] by (simp add: sample_app_fields on_close_def queue_def)
  then have "open_window ?a" "hidden ?a" using sample_app_fields by (simp_all add: hide_to_tray_def)
  then show ?thesis using i by (simp add: Let_def)
qed

abbreviation serving_app :: app where
  "serving_app \<equiv> (fresh_app None started_machine)\<lparr>settings_of := \<lparr>general = default_general, proxy = default_settings\<lparr>proxy_mode_of := System\<rparr>\<rparr>\<rparr>"

lemma started_serving: "serving System started_machine" "reg_ok (reg started_machine)"
  "registry_view (reg started_machine) = (Some (format_host_port (show_ip loopback4) 26561), None)"
proof -
  have st: "stopped sample_machine" by (rule booted_stopped [OF sample_booted])
  show "serving System started_machine" using start_blocking_ok [OF sample_start st] by simp
  have r: "run_switches (map (\<lambda>sw. (access granting, sw)) (on_switches System default_settings)) (reg sample_machine) = (Inr (), reg started_machine)"
    using start_blocking_registry [OF sample_start st] by (simp add: registry_started_def)
  have "list_all (\<lambda>(_, sw). switch_short sw) (map (\<lambda>sw. (access granting, sw)) (on_switches System default_settings))"
    using sample_switches_short by (simp add: list.pred_map comp_def)
  note s = run_switches_steps [OF r sample_registry(1) this]
  show "reg_ok (reg started_machine)" using s by blast
  have "proxy_bind_ip (system_proxy_ip default_settings) = loopback4" "system_proxy_port default_settings = 26561" by code_simp+
  then show "registry_view (reg started_machine) = (Some (format_host_port (show_ip loopback4) 26561), None)"
    using s sample_registry(2) by simp
qed

lemma granting_starts:
  assumes "stopped m"
  shows "fst (start_blocking granting Pac s gs m) = Inr ()"
proof -
  obtain rt m1 where a: "acquire m = (rt, m1)" by fastforce
  obtain x m2 where b: "begin_start granting Pac s gs m1 = (x, m2)" by fastforce
  have "\<not> running (mgr m1)" using a assms by (auto simp: acquire_def stopped_def)
  then obtain y where x: "x = Inr y" using b begin_start_refused [of granting Pac s gs m1] by (cases x) auto
  have s2: "starting Pac rt m2"
    using starting_cert_step [OF begin_start_ok(2) [OF b [unfolded x]] begun_starting [OF assms a]] .
  obtain mitm m3 where g: "gate granting Pac s m2 = (mitm, m3)" by fastforce
  have "starting Pac rt m3" using starting_cert_step [OF gate_step(1) [OF g] s2] .
  then have "can_bind granting [rt] [] addr m3" for addr by (simp add: can_bind_def listening_def starting_def granting_def)
  moreover obtain g' where "set_pac_proxy (access granting) True (pac_url (proxy_bind_ip (system_proxy_ip s)) (system_proxy_port s)) (reg m3) = (Inr (), g')"
    using grants_run [OF granting_grants, of "PacOn (pac_url (proxy_bind_ip (system_proxy_ip s)) (system_proxy_port s))" "reg m3"] by auto
  ultimately have "fst (serve granting [rt] rt Pac s m2) = Inr ()"
    using g by (simp add: serve_def serve_pac_mode_def serve_forward_def Let_def spawn_def)
  moreover have "can_runtime granting" by (simp add: granting_def)
  ultimately show ?thesis using a b x by (simp add: start_blocking_def case_prod_beta)
qed


lemma restart_shows_selection_witness:
  "leaf_states (pg_groups (page (fresh_app (disk (start_accel sample_ui sample_app)) sample_machine))) = leaf_states (pg_groups (page sample_app))"
proof -
  have g: "pg_groups (page sample_app) = map (\<lambda>g. g\<lparr>g_items := map (restore_enable {}) (g_items g)\<rparr>) sample_groups"
    by (simp add: fresh_app_def app_defs Let_def Data.load_def store_def apply_enabled_def default_settings_def sample_groups_def
        build_page_def sync_checks_def)
  have l: "s_groups (snd (Data.load (\<lambda>_. Some sample_groups) (Contents []) new_service)) = sample_groups"
    by (simp add: Data.load_def store_def sample_groups_def)
  have i: "leaf_ids (pg_groups (page sample_app)) = leaf_ids sample_groups"
    unfolding g restored_leaves by (simp add: mark_leaf_def comp_def)
  have "distinct (leaf_ids sample_groups)" by code_simp
  moreover have "\<not> is_running sample_app" unfolding sample_app_fields by (simp add: sample_machine_def new_proxy_def)
  moreover have "save_fails sample_ui = None" by (simp add: sample_ui_def)
  ultimately show ?thesis unfolding fresh_app_def [of "disk _"] by (intro restart_shows_selection) (simp_all add: i l)
qed

lemma dialog_confirms_unchanged_witness:
  "let b = step sample_ui (Message (WmCommand PROXY_SETTINGS)) sample_app in
   \<exists>d. dialog b = Some d \<and> settings_of (step sample_ui (Message (DialogOk (create_proxy_ui d))) b) = settings_of sample_app"
proof -
  let ?b = "step sample_ui (Message (WmCommand PROXY_SETTINGS)) sample_app"
  have "?b = open_proxy (from_settings (proxy (settings_of sample_app))) (sample_app\<lparr>actions := []\<rparr>)"
    using drain_once [of 62 sample_ui "on_command sample_ui PROXY_SETTINGS sample_app"] by (simp add: sample_app_fields queue_def)
  then have "settings_of ?b = settings_of sample_app" "open_window ?b" "actions ?b = []"
    using sample_app_fields by (simp_all add: open_proxy_def)
  then show ?thesis unfolding Let_def
    by (intro dialog_confirms_unchanged [OF sample_app_fields(2,4,6)]) simp_all
qed

text \<open>A second click before the first thread holds its lock starts a second thread; theory \<open>Manager\<close> shows what the two do.\<close>

lemma two_clicks_two_threads:
  "\<not> is_running a \<Longrightarrow> length (threads (on_command e START (on_command e START a))) = length (threads a) + 2" (is "_ \<Longrightarrow> ?thesis")
proof -
  have n: "length (threads (start_accel e b)) = length (threads b) + 1" "machine (start_accel e b) = machine b" if "\<not> is_running b" for b
    using that by (cases "save_fails e"; simp add: start_accel_def Let_def start_blocking_thread_def show_toast_def save_def set_proxy_def)+
  assume "\<not> is_running a"
  then show ?thesis using n [of a] n [of "start_accel e a"] by simp
qed

text \<open>The setting to run the acceleration when the program starts is kept but, as README.md says, never acted on.\<close>

lemma startup_run_ignored: "threads (run e ok (new_app parse f saved autorun m)) = []"
  by (simp add: app_defs Let_def)

text \<open>When the taskbar comes back and the icon cannot be added again, a hidden window has lost it and nothing notices.\<close>

lemma icon_lost_while_hidden:
  "tray a = Some t \<Longrightarrow> t_enabled t \<Longrightarrow> tray (readd_if_enabled (e\<lparr>add_icon_ok := False\<rparr>) a) = Some \<lparr>t_enabled = True, t_icon = False\<rparr>"
  by (cases t) (simp add: readd_if_enabled_def)

end
