(* ===== verification/Layout.thy ===== *)
theory Layout
  imports App
begin

text \<open>
  Where the controls of the windows are (\<open>crates/ui/src/ui.rs\<close>, with \<open>Rect\<close>, \<open>scale\<close> and the smallest window of \<open>win32/mod.rs\<close>, the placements
  of \<open>dialogs/mod.rs\<close> and the rectangle of \<open>toast.rs\<close>): the layout pass and the visibility pass as functions of the resolution, the client
  area and the tabs. Coordinates are integers; with a client area below \<open>2 ^ 15\<close> pixels and a resolution below \<open>2 ^ 16\<close> every one of them fits the
  32 bits of the code. What the system draws inside a control is not modelled.
\<close>

section \<open>Rectangles\<close>

record rect =
  rx :: int
  ry :: int
  rw :: int
  rh :: int

definition rect_new :: "int \<Rightarrow> int \<Rightarrow> int \<Rightarrow> int \<Rightarrow> rect" where
  "rect_new x y w h = \<lparr>rx = x, ry = y, rw = w, rh = h\<rparr>"

definition right_of :: "rect \<Rightarrow> int" where "right_of r = rx r + rw r"
definition bottom_of :: "rect \<Rightarrow> int" where "bottom_of r = ry r + rh r"

definition inset :: "rect \<Rightarrow> int \<Rightarrow> rect" where
  "inset r d = rect_new (rx r + d) (ry r + d) (max (rw r - d * 2) 0) (max (rh r - d * 2) 0)"

definition scale :: "int \<Rightarrow> int \<Rightarrow> int" where
  "scale dpi v = v * dpi div 96"

text \<open>The client area the smallest window has: the system adds the frame around it.\<close>

definition min_client :: "int \<Rightarrow> int \<times> int" where
  "min_client dpi = (scale dpi 528, scale dpi 508)"

text \<open>A window is given no negative size.\<close>

definition placed :: "rect \<Rightarrow> rect" where
  "placed r = r\<lparr>rw := max (rw r) 0, rh := max (rh r) 0\<rparr>"

section \<open>The main window\<close>

datatype control = Title | Status | MainTabs
  | AccelHeading | Start | ModeLabel | ModeCombo | ProxySettings | CertHeading | CertInstall | CertRemove | CertView | CertOpenDir
  | HostsHeading | HostsEdit | HostsReset | HostsOpen | OpenLogDir
  | AccTabs | PlatformTree | ServicesTree | ScriptEnable | ScriptDesc | LogsClear | LogsLabel | LogsEdit | TrafficTotal | TrafficList
  | NettestStart | NettestHint | NettestList
  | SettingsTabs | GenAutorun | GenMinimize | GenTray | GenGpu | GenSave
  | AccelModeLabel | AccelModeCombo | AccelStartupRun | AccelHttpHttps | AccelScript | AccelSave
  | AboutIcon | AboutName | AboutVersion | AboutLicenseLabel | AboutLicense | AboutUpstreamLabel | AboutUpstream
  | AboutSecondaryLabel | AboutSecondary | AboutDesc

definition place_right_panel :: "(int \<Rightarrow> int) \<Rightarrow> int \<Rightarrow> int \<Rightarrow> (control \<times> rect) list" where
  "place_right_panel s x y = (let w = s 280 in [
     (AccelHeading, rect_new (x + s 8) (y + s 8) (w - s 16) (s 22)),
     (Start, rect_new (x + s 20) (y + s 36) (w - s 40) (s 38)),
     (ModeLabel, rect_new (x + s 8) (y + s 90) (s 70) (s 24)),
     (ModeCombo, rect_new (x + s 80) (y + s 88) (w - s 96) (s 200)),
     (ProxySettings, rect_new (x + s 20) (y + s 124) (w - s 40) (s 28)),
     (CertHeading, rect_new (x + s 8) (y + s 164) (w - s 16) (s 22)),
     (CertInstall, rect_new (x + s 8) (y + s 190) (s 128) (s 26)),
     (CertRemove, rect_new (x + s 144) (y + s 190) (s 128) (s 26)),
     (CertView, rect_new (x + s 8) (y + s 222) (s 128) (s 26)),
     (CertOpenDir, rect_new (x + s 144) (y + s 222) (s 128) (s 26)),
     (HostsHeading, rect_new (x + s 8) (y + s 260) (w - s 16) (s 22)),
     (HostsEdit, rect_new (x + s 8) (y + s 286) (s 80) (s 26)),
     (HostsReset, rect_new (x + s 96) (y + s 286) (s 80) (s 26)),
     (HostsOpen, rect_new (x + s 184) (y + s 286) (s 80) (s 26)),
     (OpenLogDir, rect_new (x + s 20) (y + s 324) (w - s 40) (s 28))])"

definition place_acc_pages :: "(int \<Rightarrow> int) \<Rightarrow> rect \<Rightarrow> (control \<times> rect) list" where
  "place_acc_pages s r = [
     (PlatformTree, inset r (s 4)),
     (ServicesTree, inset r (s 4)),
     (ScriptEnable, rect_new (rx r + s 16) (ry r + s 16) (s 260) (s 26)),
     (ScriptDesc, rect_new (rx r + s 16) (ry r + s 48) (max (rw r - s 32) 0) (s 60)),
     (LogsClear, rect_new (rx r + s 8) (ry r + s 8) (s 90) (s 28)),
     (LogsLabel, rect_new (rx r + s 110) (ry r + s 12) (max (rw r - s 120) 0) (s 22)),
     (LogsEdit, rect_new (rx r + s 8) (ry r + s 42) (max (rw r - s 16) 0) (max (rh r - s 50) 0)),
     (TrafficTotal, rect_new (rx r + s 8) (ry r + s 10) (max (rw r - s 16) 0) (s 22)),
     (TrafficList, rect_new (rx r + s 8) (ry r + s 38) (max (rw r - s 16) 0) (max (rh r - s 46) 0)),
     (NettestStart, rect_new (rx r + s 8) (ry r + s 8) (s 120) (s 28)),
     (NettestHint, rect_new (rx r + s 136) (ry r + s 12) (max (rw r - s 144) 0) (s 22)),
     (NettestList, rect_new (rx r + s 8) (ry r + s 44) (max (rw r - s 16) 0) (max (rh r - s 52) 0))]"

definition place_settings_pages :: "(int \<Rightarrow> int) \<Rightarrow> rect \<Rightarrow> rect \<Rightarrow> (control \<times> rect) list" where
  "place_settings_pages s r display =
     (let w = max (rw r - s 40) (s 180); cx = rx display + rw display div 2; row_x = rx r + s 20; row_w = max (rw r - s 40) (s 180) in [
     (GenAutorun, rect_new (rx r + s 20) (ry r + s 20) w (s 26)),
     (GenMinimize, rect_new (rx r + s 20) (ry r + s 52) w (s 26)),
     (GenTray, rect_new (rx r + s 20) (ry r + s 84) w (s 26)),
     (GenGpu, rect_new (rx r + s 20) (ry r + s 116) w (s 26)),
     (GenSave, rect_new (rx r + s 20) (ry r + s 160) (s 90) (s 30)),
     (AccelModeLabel, rect_new (rx r + s 20) (ry r + s 22) (s 120) (s 24)),
     (AccelModeCombo, rect_new (rx r + s 146) (ry r + s 20) (s 190) (s 200)),
     (AccelStartupRun, rect_new (rx r + s 20) (ry r + s 60) w (s 26)),
     (AccelHttpHttps, rect_new (rx r + s 20) (ry r + s 92) w (s 26)),
     (AccelScript, rect_new (rx r + s 20) (ry r + s 124) w (s 26)),
     (AccelSave, rect_new (rx r + s 20) (ry r + s 168) (s 90) (s 30)),
     (AboutIcon, rect_new (cx - s 32) (ry r + s 16) (s 64) (s 64)),
     (AboutName, rect_new (cx - s 150) (ry r + s 92) (s 300) (s 26)),
     (AboutVersion, rect_new (cx - s 150) (ry r + s 120) (s 300) (s 22)),
     (AboutLicenseLabel, rect_new row_x (ry r + s 156) (s 110) (s 22)),
     (AboutLicense, rect_new (row_x + s 110) (ry r + s 156) (row_w - s 110) (s 22)),
     (AboutUpstreamLabel, rect_new row_x (ry r + s 184) (s 110) (s 22)),
     (AboutUpstream, rect_new (row_x + s 110) (ry r + s 184) (row_w - s 110) (s 22)),
     (AboutSecondaryLabel, rect_new row_x (ry r + s 212) (s 110) (s 22)),
     (AboutSecondary, rect_new (row_x + s 110) (ry r + s 212) (row_w - s 110) (s 22)),
     (AboutDesc, rect_new row_x (ry r + s 248) row_w (min (max (rh r - s 256) (s 40)) (s 80)))])"

text \<open>The calls of \<open>place\<close> one pass of the layout makes, in order. When nothing of the display is left, the controls below the heading stay
  where they were.\<close>

definition layout :: "int \<Rightarrow> rect \<Rightarrow> (control \<times> rect) list" where
  "layout dpi c =
     (let s = scale dpi;
          head = [(Title, rect_new (s 16) (s 10) (max (rw c div 2) (s 200)) (s 28)),
            (Status, rect_new (rw c - s 136) (s 10) (s 120) (s 28)),
            (MainTabs, rect_new (s 12) (s 44) (max (rw c - s 24) 0) (max (rh c - s 52) 0))];
          display = rect_new (s 16) (s (44 + 26 + 4)) (max (rw c - s 32) 0) (max (rh c - s (74 + 8)) 0) in
      if rw display \<le> 0 \<or> rh display \<le> 0 then head
      else (let left = rect_new (rx display) (ry display) (max (rw display - s 288) 0) (rh display);
          acc_page = rect_new (rx left + s 4) (ry left + s 28) (max (rw left - s 8) 0) (max (rh left - s 32) 0);
          set_page = rect_new (rx display + s 4) (ry display + s 28) (max (rw display - s 8) 0) (max (rh display - s 32) 0) in
        head @ place_right_panel s (right_of display - s 280) (ry display) @ (AccTabs, left) # place_acc_pages s acc_page @
          (SettingsTabs, display) # place_settings_pages s set_page display))"

definition after_layout :: "int \<Rightarrow> rect \<Rightarrow> (control \<Rightarrow> rect) \<Rightarrow> control \<Rightarrow> rect" where
  "after_layout dpi c p = fold (\<lambda>(k, r) p. p(k := placed r)) (layout dpi c) p"

text \<open>The widths of the two columns of the traffic and of the test list.\<close>

definition column_widths :: "int \<Rightarrow> rect \<Rightarrow> int \<Rightarrow> int \<Rightarrow> int \<times> int" where
  "column_widths dpi acc_page num den =
     (let w = max (rw acc_page - scale dpi 16 - scale dpi 24) 0; c0 = w * num div den in (c0, w - c0))"

definition right_panel :: "control list" where
  "right_panel = [AccelHeading, Start, ModeLabel, ModeCombo, ProxySettings, CertHeading, CertInstall, CertRemove, CertView, CertOpenDir,
     HostsHeading, HostsEdit, HostsReset, HostsOpen, OpenLogDir]"

definition apply_visibility :: "main_tab \<Rightarrow> acc_tab \<Rightarrow> settings_tab \<Rightarrow> control \<Rightarrow> bool" where
  "apply_visibility main at se k =
     (let acc = (main = Accelerator); set_tab = (main = SettingsTab) in
      if k \<in> set [Title, Status, MainTabs] then True
      else if k \<in> set (AccTabs # right_panel) then acc
      else if k = PlatformTree then acc \<and> at = Platform
      else if k = ServicesTree then acc \<and> at = Services
      else if k \<in> set [ScriptEnable, ScriptDesc] then acc \<and> at = Scripts
      else if k \<in> set [LogsClear, LogsLabel, LogsEdit] then acc \<and> at = Logs
      else if k \<in> set [TrafficTotal, TrafficList] then acc \<and> at = Traffic
      else if k \<in> set [NettestStart, NettestHint, NettestList] then acc \<and> at = NetTest
      else if k = SettingsTabs then set_tab
      else if k \<in> set [GenAutorun, GenMinimize, GenTray, GenGpu, GenSave] then set_tab \<and> se = General
      else if k \<in> set [AccelModeLabel, AccelModeCombo, AccelStartupRun, AccelHttpHttps, AccelScript, AccelSave] then set_tab \<and> se = Accelerate
      else set_tab \<and> se = About)"

section \<open>Facts\<close>

text \<open>Rounding loses less than a pixel.\<close>

lemma scale_bounds: "96 * scale dpi v \<le> v * dpi \<and> v * dpi < 96 * scale dpi v + 96"
  by (simp add: scale_def minus_mod_eq_mult_div [symmetric])

lemma scale_sum: "0 \<le> dpi \<Longrightarrow> a + b \<le> c \<Longrightarrow> scale dpi a + scale dpi b \<le> scale dpi c"
proof -
  assume d: "0 \<le> dpi" "a + b \<le> c"
  then have "a * dpi + b * dpi \<le> c * dpi" by (metis distrib_right mult_right_mono)
  then show ?thesis using scale_bounds [of dpi a] scale_bounds [of dpi b] scale_bounds [of dpi c] by linarith
qed

lemma scale_mono: "0 \<le> dpi \<Longrightarrow> a \<le> c \<Longrightarrow> scale dpi a \<le> scale dpi c"
  using scale_sum [of dpi a 0 c] by (simp add: scale_def)

lemma scale_nonneg: "0 \<le> dpi \<Longrightarrow> 0 \<le> v \<Longrightarrow> 0 \<le> scale dpi v"
  using scale_mono [of dpi 0 v] by (simp add: scale_def)

definition apart :: "rect \<Rightarrow> rect \<Rightarrow> bool" where
  "apart a b \<longleftrightarrow> right_of a \<le> rx b \<or> right_of b \<le> rx a \<or> bottom_of a \<le> ry b \<or> bottom_of b \<le> ry a"

definition within :: "rect \<Rightarrow> rect \<Rightarrow> bool" where
  "within a b \<longleftrightarrow> rx b \<le> rx a \<and> right_of a \<le> right_of b \<and> ry b \<le> ry a \<and> bottom_of a \<le> bottom_of b"

text \<open>The height given to a drop-down list is that of its open list; closed it is as high as its field.\<close>

definition on_screen :: "int \<Rightarrow> control \<times> rect \<Rightarrow> rect" where
  "on_screen closed kr = (case kr of (k, r) \<Rightarrow> if k \<in> {ModeCombo, AccelModeCombo} then (placed r)\<lparr>rh := closed\<rparr> else placed r)"

definition parted :: "('k \<times> rect \<Rightarrow> rect) \<Rightarrow> rect \<Rightarrow> ('k \<times> rect) list \<Rightarrow> bool" where
  "parted f b krs \<longleftrightarrow> sorted_wrt (\<lambda>x y. apart (f x) (f y)) krs \<and> list_all (\<lambda>x. within (f x) b) krs"

lemmas rect_simps = rect_new_def right_of_def bottom_of_def inset_def placed_def on_screen_def

text \<open>The panel beside the pages, as wide as it was meant to be.\<close>

lemma panel_parted:
  assumes "96 \<le> dpi" "0 \<le> closed" "closed \<le> scale dpi 26"
  shows "parted (on_screen closed) (rect_new (x + scale dpi 8) y (scale dpi 280 - scale dpi 8) (scale dpi 360)) (place_right_panel (scale dpi) x y)"
proof -
  note b = scale_bounds [of dpi 8] scale_bounds [of dpi 16] scale_bounds [of dpi 20] scale_bounds [of dpi 22] scale_bounds [of dpi 24]
    scale_bounds [of dpi 26] scale_bounds [of dpi 28] scale_bounds [of dpi 36] scale_bounds [of dpi 38] scale_bounds [of dpi 40]
    scale_bounds [of dpi 70] scale_bounds [of dpi 80] scale_bounds [of dpi 88] scale_bounds [of dpi 90] scale_bounds [of dpi 96]
    scale_bounds [of dpi 124] scale_bounds [of dpi 128] scale_bounds [of dpi 144] scale_bounds [of dpi 164] scale_bounds [of dpi 184]
    scale_bounds [of dpi 190] scale_bounds [of dpi 222] scale_bounds [of dpi 260] scale_bounds [of dpi 280] scale_bounds [of dpi 286]
    scale_bounds [of dpi 324] scale_bounds [of dpi 360]
  have w: "scale dpi 16 \<le> scale dpi 280" "scale dpi 40 \<le> scale dpi 280" "scale dpi 96 \<le> scale dpi 280" using b assms(1) by linarith+
  have c: "scale dpi a + closed \<le> scale dpi b" "closed + scale dpi a \<le> scale dpi b" if "a + 26 \<le> b" for a b
    using scale_sum [of dpi a 26 b] that assms(1,3) by linarith+
  have m: "max (scale dpi v) 0 = scale dpi v" if "0 \<le> v" for v using scale_nonneg [of dpi v] that assms(1) by simp
  have "sorted_wrt (\<lambda>x y. apart (on_screen closed x) (on_screen closed y)) (place_right_panel (scale dpi) x y)"
    using assms(1) by (simp add: place_right_panel_def Let_def rect_simps apart_def m c scale_sum)
  then show ?thesis using b assms w
    by (simp add: parted_def) (simp add: place_right_panel_def Let_def rect_simps within_def max_def)
qed

lemma acc_pages_parted:
  assumes "96 \<le> dpi" "scale dpi 190 \<le> rw r" "scale dpi 200 \<le> rh r" "at = Scripts \<Longrightarrow> scale dpi 280 \<le> rw r"
  shows "parted (on_screen closed) r (filter (\<lambda>(k, _). apply_visibility Accelerator at se k) (place_acc_pages (scale dpi) r))"
proof -
  note b = scale_bounds [of dpi 4] scale_bounds [of dpi 8] scale_bounds [of dpi 10] scale_bounds [of dpi 12] scale_bounds [of dpi 16]
    scale_bounds [of dpi 22] scale_bounds [of dpi 26] scale_bounds [of dpi 28] scale_bounds [of dpi 32] scale_bounds [of dpi 38]
    scale_bounds [of dpi 42] scale_bounds [of dpi 44] scale_bounds [of dpi 46] scale_bounds [of dpi 48] scale_bounds [of dpi 50]
    scale_bounds [of dpi 52] scale_bounds [of dpi 60] scale_bounds [of dpi 90] scale_bounds [of dpi 110] scale_bounds [of dpi 120]
    scale_bounds [of dpi 136] scale_bounds [of dpi 144] scale_bounds [of dpi 190] scale_bounds [of dpi 200] scale_bounds [of dpi 260]
    scale_bounds [of dpi 280]
  have m: "max (scale dpi v) 0 = scale dpi v" if "0 \<le> v" for v using scale_nonneg [of dpi v] that assms(1) by simp
  have "sorted_wrt (\<lambda>x y. apart (on_screen closed x) (on_screen closed y))
      (filter (\<lambda>(k, _). apply_visibility Accelerator at se k) (place_acc_pages (scale dpi) r))"
    using assms(1) by (cases at) (simp_all add: place_acc_pages_def apply_visibility_def right_panel_def rect_simps apart_def m scale_sum)
  then show ?thesis using b assms unfolding parted_def
    by (cases at) (simp_all add: place_acc_pages_def apply_visibility_def right_panel_def rect_simps within_def max_def)
qed

lemma settings_pages_parted:
  assumes "96 \<le> dpi" "0 \<le> closed" "closed \<le> scale dpi 26" "scale dpi 480 \<le> rw r" "scale dpi 390 \<le> rh r"
    and "rx r = rx d + scale dpi 4" "rw r = rw d - scale dpi 8"
  shows "parted (on_screen closed) r (filter (\<lambda>(k, _). apply_visibility SettingsTab at se k) (place_settings_pages (scale dpi) r d))"
proof -
  note b = scale_bounds [of dpi 4] scale_bounds [of dpi 8] scale_bounds [of dpi 16] scale_bounds [of dpi 20] scale_bounds [of dpi 22]
    scale_bounds [of dpi 24] scale_bounds [of dpi 26] scale_bounds [of dpi 30] scale_bounds [of dpi 32] scale_bounds [of dpi 40]
    scale_bounds [of dpi 52] scale_bounds [of dpi 60] scale_bounds [of dpi 64] scale_bounds [of dpi 80] scale_bounds [of dpi 84]
    scale_bounds [of dpi 90] scale_bounds [of dpi 92] scale_bounds [of dpi 110] scale_bounds [of dpi 116] scale_bounds [of dpi 120]
    scale_bounds [of dpi 124] scale_bounds [of dpi 146] scale_bounds [of dpi 150] scale_bounds [of dpi 156] scale_bounds [of dpi 160]
    scale_bounds [of dpi 168] scale_bounds [of dpi 180] scale_bounds [of dpi 184] scale_bounds [of dpi 190] scale_bounds [of dpi 212]
    scale_bounds [of dpi 248] scale_bounds [of dpi 256] scale_bounds [of dpi 300] scale_bounds [of dpi 390] scale_bounds [of dpi 480]
  define h where "h = rw d div 2"
  have h: "rw d - 1 \<le> 2 * h" "2 * h \<le> rw d" by (simp_all add: h_def)
  have w: "max (rw r - scale dpi 40) (scale dpi 180) = rw r - scale dpi 40" using b assms by linarith
  have e: "min (max (rh r - scale dpi 256) (scale dpi 40)) (scale dpi 80) = scale dpi 80" using b assms by linarith
  have c: "scale dpi a + closed \<le> scale dpi b" "closed + scale dpi a \<le> scale dpi b" if "a + 26 \<le> b" for a b
    using scale_sum [of dpi a 26 b] that assms(1,3) by linarith+
  have m: "max (scale dpi v) 0 = scale dpi v" if "0 \<le> v" for v using scale_nonneg [of dpi v] that assms(1) by simp
  have "sorted_wrt (\<lambda>x y. apart (on_screen closed x) (on_screen closed y))
      (filter (\<lambda>(k, _). apply_visibility SettingsTab at se k) (place_settings_pages (scale dpi) r d))"
    unfolding place_settings_pages_def w e h_def [symmetric] Let_def using assms(1)
    by (cases se) (simp_all add: apply_visibility_def right_panel_def rect_simps apart_def m c scale_sum)
  moreover have "list_all (\<lambda>x. within (on_screen closed x) r)
      (filter (\<lambda>(k, _). apply_visibility SettingsTab at se k) (place_settings_pages (scale dpi) r d))"
    unfolding place_settings_pages_def w e h_def [symmetric] Let_def using b assms h
    by (cases se) (simp_all add: apply_visibility_def right_panel_def rect_simps within_def max_def)
  ultimately show ?thesis by (simp add: parted_def)
qed

section \<open>The whole window\<close>

text \<open>Every control is placed once in a pass.\<close>

lemma placed_once: "distinct (map fst krs) \<Longrightarrow> (k, r) \<in> set krs \<Longrightarrow> fold (\<lambda>(k, r) p. p(k := placed r)) krs p k = placed r"
proof (induction krs arbitrary: p)
  case (Cons kr krs)
  have other: "k \<notin> fst ` set krs \<Longrightarrow> fold (\<lambda>(k, r) p. p(k := placed r)) krs p k = p k" for p
    by (induction krs arbitrary: p) auto
  show ?case
  proof (cases "kr = (k, r)")
    case True
    then have "k \<notin> fst ` set krs" using Cons.prems by simp
    from other [OF this] True show ?thesis by (simp only: fold_simps prod.case) simp
  next
    case False
    then show ?thesis using Cons by (simp add: case_prod_unfold)
  qed
qed simp

lemma placed_idem [simp]: "placed (placed r) = placed r"
  by (simp add: placed_def)

definition frames :: "control set" where
  "frames = {MainTabs, AccTabs, SettingsTabs}"

text \<open>What the user sees: the visible controls, the frames of the tabs aside.\<close>

definition seen :: "int \<Rightarrow> rect \<Rightarrow> main_tab \<Rightarrow> acc_tab \<Rightarrow> settings_tab \<Rightarrow> (control \<times> rect) list" where
  "seen dpi c main at se = filter (\<lambda>(k, _). apply_visibility main at se k \<and> k \<notin> frames) (layout dpi c)"

lemma parted_append:
  assumes "parted f b xs" "parted f b' ys" "\<And>x y. within x b \<Longrightarrow> within y b' \<Longrightarrow> apart x y" "within b c" "within b' c"
  shows "parted f c (xs @ ys)"
proof -
  have "within x b'' \<Longrightarrow> within b'' c \<Longrightarrow> within x c" for x b'' by (auto simp: within_def)
  then show ?thesis using assms unfolding parted_def sorted_wrt_append list_all_append by (auto simp: list_all_iff)
qed

lemma parted_Nil [simp]: "parted f b []"
  by (simp add: parted_def)

lemma panel_keys: "map fst (place_right_panel s x y) = right_panel"
  by (simp add: place_right_panel_def right_panel_def Let_def)

lemma acc_keys: "map fst (place_acc_pages s r) = [PlatformTree, ServicesTree, ScriptEnable, ScriptDesc, LogsClear, LogsLabel, LogsEdit,
    TrafficTotal, TrafficList, NettestStart, NettestHint, NettestList]"
  by (simp add: place_acc_pages_def)

lemma settings_keys: "map fst (place_settings_pages s r d) = [GenAutorun, GenMinimize, GenTray, GenGpu, GenSave, AccelModeLabel, AccelModeCombo,
    AccelStartupRun, AccelHttpHttps, AccelScript, AccelSave, AboutIcon, AboutName, AboutVersion, AboutLicenseLabel, AboutLicense,
    AboutUpstreamLabel, AboutUpstream, AboutSecondaryLabel, AboutSecondary, AboutDesc]"
  by (simp add: place_settings_pages_def Let_def)

lemma filter_some: "(\<And>k. k \<in> fst ` set krs \<Longrightarrow> P k = Q k) \<Longrightarrow> filter (\<lambda>(k, _). P k) krs = filter (\<lambda>(k, _). Q k) krs"
  by (rule filter_cong) (auto simp: rev_image_eqI)

lemma filter_none: "(\<And>k. k \<in> fst ` set krs \<Longrightarrow> \<not> P k) \<Longrightarrow> filter (\<lambda>(k, _). P k) krs = []"
  by (force simp: filter_empty_conv)

lemma filter_all: "(\<And>k. k \<in> fst ` set krs \<Longrightarrow> P k) \<Longrightarrow> filter (\<lambda>(k, _). P k) krs = krs"
  by (force simp: filter_id_conv)

lemma keys_of: "fst ` set (place_right_panel s x y) = set right_panel"
  "fst ` set (place_acc_pages s r) = {PlatformTree, ServicesTree, ScriptEnable, ScriptDesc, LogsClear, LogsLabel, LogsEdit,
    TrafficTotal, TrafficList, NettestStart, NettestHint, NettestList}"
  "fst ` set (place_settings_pages s r d) = {GenAutorun, GenMinimize, GenTray, GenGpu, GenSave, AccelModeLabel, AccelModeCombo,
    AccelStartupRun, AccelHttpHttps, AccelScript, AccelSave, AboutIcon, AboutName, AboutVersion, AboutLicenseLabel, AboutLicense,
    AboutUpstreamLabel, AboutUpstream, AboutSecondaryLabel, AboutSecondary, AboutDesc}"
  by (simp_all add: panel_keys acc_keys settings_keys flip: set_map)

lemmas visibility_simps = apply_visibility_def right_panel_def frames_def

lemma visible_panel: "k \<in> set right_panel \<Longrightarrow> (apply_visibility main at se k \<and> k \<notin> frames) = (main = Accelerator)"
  by (cases k) (simp_all add: visibility_simps)

lemma visible_acc: "k \<in> fst ` set (place_acc_pages s r) \<Longrightarrow>
    (apply_visibility main at se k \<and> k \<notin> frames) = (main = Accelerator \<and> apply_visibility Accelerator at se k)"
  unfolding keys_of by (cases k) (simp_all add: visibility_simps)

lemma visible_settings: "k \<in> fst ` set (place_settings_pages s r d) \<Longrightarrow>
    (apply_visibility main at se k \<and> k \<notin> frames) = (main = SettingsTab \<and> apply_visibility SettingsTab at se k)"
  unfolding keys_of by (cases k) (simp_all add: visibility_simps)

lemma seen_parts:
  assumes "96 \<le> dpi" "scale dpi 528 \<le> rw c" "scale dpi 508 \<le> rh c"
  defines "s \<equiv> scale dpi"
  defines "display \<equiv> rect_new (s 16) (s 74) (rw c - s 32) (rh c - s 82)"
  defines "acc_page \<equiv> rect_new (rx display + s 4) (ry display + s 28) (rw display - s 288 - s 8) (rh display - s 32)"
    and "set_page \<equiv> rect_new (rx display + s 4) (ry display + s 28) (rw display - s 8) (rh display - s 32)"
  shows "seen dpi c main at se =
    [(Title, rect_new (s 16) (s 10) (max (rw c div 2) (s 200)) (s 28)), (Status, rect_new (rw c - s 136) (s 10) (s 120) (s 28))] @
    (if main = Accelerator then place_right_panel s (right_of display - s 280) (ry display) @
        filter (\<lambda>(k, _). apply_visibility Accelerator at se k) (place_acc_pages s acc_page)
      else filter (\<lambda>(k, _). apply_visibility SettingsTab at se k) (place_settings_pages s set_page display))"
proof -
  note b = scale_bounds [of dpi 4] scale_bounds [of dpi 8] scale_bounds [of dpi 32] scale_bounds [of dpi 82] scale_bounds [of dpi 288]
    scale_bounds [of dpi 508] scale_bounds [of dpi 528]
  have m: "max (rw c - s 32) 0 = rw c - s 32" "max (rh c - s 82) 0 = rh c - s 82" "0 < rw c - s 32" "0 < rh c - s 82"
    "max (rw display - s 288) 0 = rw display - s 288" "max (rw display - s 288 - s 8) 0 = rw display - s 288 - s 8"
    "max (rh display - s 32) 0 = rh display - s 32" "max (rw display - s 8) 0 = rw display - s 8"
    using b assms(1-3) unfolding s_def display_def by (simp_all add: rect_new_def)
  let ?P = "\<lambda>k. apply_visibility main at se k \<and> k \<notin> frames"
  have l: "layout dpi c = [(Title, rect_new (s 16) (s 10) (max (rw c div 2) (s 200)) (s 28)),
      (Status, rect_new (rw c - s 136) (s 10) (s 120) (s 28)), (MainTabs, rect_new (s 12) (s 44) (max (rw c - s 24) 0) (max (rh c - s 52) 0))] @
    place_right_panel s (right_of display - s 280) (ry display) @
    (AccTabs, rect_new (rx display) (ry display) (rw display - s 288) (rh display)) # place_acc_pages s acc_page @
    (SettingsTabs, display) # place_settings_pages s set_page display"
    using m unfolding layout_def Let_def s_def [symmetric] acc_page_def set_page_def display_def by (simp add: rect_new_def)
  have t1: "filter (\<lambda>(k, _). ?P k) (place_right_panel s x y) = (if main = Accelerator then place_right_panel s x y else [])" for x y
    using visible_panel [of _ main at se] keys_of(1) [of s x y] by (auto intro!: filter_none filter_all)
  have t2: "filter (\<lambda>(k, _). ?P k) (place_acc_pages s r) =
      (if main = Accelerator then filter (\<lambda>(k, _). apply_visibility Accelerator at se k) (place_acc_pages s r) else [])" for r
    using visible_acc [of _ s r main at se] by (auto intro!: filter_none filter_some)
  have t3: "filter (\<lambda>(k, _). ?P k) (place_settings_pages s r d) =
      (if main = Accelerator then [] else filter (\<lambda>(k, _). apply_visibility SettingsTab at se k) (place_settings_pages s r d))" for r d
    using visible_settings [of _ s r d main at se] main_tab.exhaust [of main] by (auto intro!: filter_none filter_some)
  have t4: "filter (\<lambda>(k, _). ?P k) ((AccTabs, q) # xs) = filter (\<lambda>(k, _). ?P k) xs"
    "filter (\<lambda>(k, _). ?P k) ((SettingsTabs, q) # xs) = filter (\<lambda>(k, _). ?P k) xs"
    "filter (\<lambda>(k, _). ?P k) [(Title, q), (Status, q'), (MainTabs, q'')] = [(Title, q), (Status, q')]" for q q' q'' xs
    by (simp_all add: visibility_simps)
  show ?thesis unfolding seen_def l filter_append t1 t2 t3 t4 by simp
qed

lemma seen_parted:
  assumes "96 \<le> dpi" "0 \<le> closed" "closed \<le> scale dpi 26" "rx c = 0" "ry c = 0" "scale dpi 528 \<le> rw c" "scale dpi 508 \<le> rh c"
    and "main \<noteq> Accelerator \<or> at \<noteq> Scripts \<or> scale dpi 620 \<le> rw c"
  shows "parted (on_screen closed) c (seen dpi c main at se)"
proof -
  let ?s = "scale dpi"
  let ?d = "rect_new (?s 16) (?s 74) (rw c - ?s 32) (rh c - ?s 82)"
  let ?a = "rect_new (rx ?d + ?s 4) (ry ?d + ?s 28) (rw ?d - ?s 288 - ?s 8) (rh ?d - ?s 32)"
  let ?p = "rect_new (rx ?d + ?s 4) (ry ?d + ?s 28) (rw ?d - ?s 8) (rh ?d - ?s 32)"
  let ?h = "rect_new 0 0 (rw c) (?s 44)"
  let ?n = "rect_new (right_of ?d - ?s 280 + ?s 8) (ry ?d) (?s 280 - ?s 8) (?s 360)"
  note b = scale_bounds [of dpi 4] scale_bounds [of dpi 8] scale_bounds [of dpi 10] scale_bounds [of dpi 16] scale_bounds [of dpi 28]
    scale_bounds [of dpi 32] scale_bounds [of dpi 44] scale_bounds [of dpi 74] scale_bounds [of dpi 82] scale_bounds [of dpi 120]
    scale_bounds [of dpi 136] scale_bounds [of dpi 190] scale_bounds [of dpi 200] scale_bounds [of dpi 280] scale_bounds [of dpi 288]
    scale_bounds [of dpi 360] scale_bounds [of dpi 390] scale_bounds [of dpi 480] scale_bounds [of dpi 508] scale_bounds [of dpi 528]
    scale_bounds [of dpi 620]
  define w where "w = rw c div 2"
  have w: "rw c - 1 \<le> 2 * w" "2 * w \<le> rw c" by (simp_all add: w_def)
  have head: "parted (on_screen closed) ?h [(Title, rect_new (?s 16) (?s 10) (max (rw c div 2) (?s 200)) (?s 28)),
      (Status, rect_new (rw c - ?s 136) (?s 10) (?s 120) (?s 28))]"
    unfolding w_def [symmetric] using b assms(1,6) w by (simp add: parted_def rect_simps apart_def within_def max_def)
  have in_c: "within ?h c" "within ?a c" "within ?p c" "within ?n c"
    using b assms(1,4-7) by (simp_all add: within_def rect_new_def right_of_def bottom_of_def)
  have below: "apart x y" if "within x ?h" "within y q" "ry q = ?s 74 \<or> ry q = ?s 74 + ?s 28" for x y q
    using that b assms(1) by (auto simp: apart_def within_def rect_new_def bottom_of_def)
  show ?thesis
  proof (cases "main = Accelerator")
    case True
    have A: "parted (on_screen closed) ?a (filter (\<lambda>(k, _). apply_visibility Accelerator at se k) (place_acc_pages ?s ?a))"
      by (rule acc_pages_parted) (use b assms True in \<open>simp_all add: rect_new_def\<close>)
    have N: "parted (on_screen closed) ?n (place_right_panel ?s (right_of ?d - ?s 280) (ry ?d))"
      by (rule panel_parted [OF assms(1-3)])
    have NA: "apart x y" if "within x ?n" "within y ?a" for x y
      using that b assms(1) by (auto simp: apart_def within_def rect_new_def right_of_def)
    let ?b = "rect_new 0 (?s 74) (rw c) (rh c - ?s 74)"
    have body: "parted (on_screen closed) ?b (place_right_panel ?s (right_of ?d - ?s 280) (ry ?d) @
        filter (\<lambda>(k, _). apply_visibility Accelerator at se k) (place_acc_pages ?s ?a))"
      by (rule parted_append [OF N A NA]) (use b assms in \<open>simp_all add: within_def rect_new_def right_of_def bottom_of_def\<close>)
    have "within ?b c" using assms(4,5) scale_bounds [of dpi 74] assms(1) by (simp add: within_def rect_new_def right_of_def bottom_of_def)
    moreover have "apart x y" if "within x ?h" "within y ?b" for x y by (rule below [OF that]) (simp add: rect_new_def)
    ultimately show ?thesis unfolding seen_parts [OF assms(1,6,7)] True if_True simp_thms using parted_append [OF head body _ in_c(1)] by blast
  next
    case False
    have "parted (on_screen closed) ?p (filter (\<lambda>(k, _). apply_visibility SettingsTab at se k) (place_settings_pages ?s ?p ?d))"
      by (rule settings_pages_parted) (use b assms in \<open>simp_all add: rect_new_def\<close>)
    from parted_append [OF head this _ in_c(1,3)] show ?thesis
      unfolding seen_parts [OF assms(1,6,7)] using False below by (simp add: rect_new_def)
  qed
qed

lemma sorted_wrt_two: "sorted_wrt P xs \<Longrightarrow> x \<in> set xs \<Longrightarrow> y \<in> set xs \<Longrightarrow> x \<noteq> y \<Longrightarrow> P x y \<or> P y x"
  by (induction xs) auto

lemma layout_distinct: "distinct (map fst (layout dpi c))"
  by (simp add: layout_def Let_def panel_keys acc_keys settings_keys right_panel_def)

lemma layout_complete:
  assumes "96 \<le> dpi" "scale dpi 528 \<le> rw c" "scale dpi 508 \<le> rh c"
  shows "k \<in> set (map fst (layout dpi c))"
proof -
  have "0 < rw c - scale dpi 32" "0 < rh c - scale dpi 82"
    using scale_bounds [of dpi 32] scale_bounds [of dpi 82] scale_bounds [of dpi 508] scale_bounds [of dpi 528] assms by simp_all
  then have "map fst (layout dpi c) = [Title, Status, MainTabs] @ right_panel @ AccTabs # map fst (place_acc_pages (scale dpi) undefined) @
      SettingsTabs # map fst (place_settings_pages (scale dpi) undefined undefined)"
    by (simp add: layout_def Let_def panel_keys acc_keys settings_keys rect_new_def)
  then show ?thesis unfolding acc_keys settings_keys right_panel_def by (cases k) simp_all
qed

lemma seen_at:
  assumes "96 \<le> dpi" "scale dpi 528 \<le> rw c" "scale dpi 508 \<le> rh c" "apply_visibility main at se k" "k \<notin> frames"
  shows "\<exists>r. (k, r) \<in> set (seen dpi c main at se) \<and> after_layout dpi c p k = placed r"
proof -
  have "k \<in> fst ` set (seen dpi c main at se)"
    using layout_complete [OF assms(1-3), of k] assms(4,5) by (force simp: seen_def)
  then obtain r where r: "(k, r) \<in> set (seen dpi c main at se)" by auto
  then show ?thesis using placed_once [OF layout_distinct, of k r dpi c p] by (auto simp: seen_def after_layout_def)
qed

section \<open>The proxy dialog\<close>

datatype dialog_control = DMode | DModeLabel | DHint | DPortLabel | DPort | DDnsLabel | DDns | DUseDoh | DDohLabel | DDoh | DHttpHttps | DTls | DTlsHint
  | DTwoLevel | DTypeLabel | DType | DIpLabel | DIp | DPort2Label | DPort2 | DUserLabel | DUser | DPassLabel | DPass | DOk | DCancel

definition place_proxy_dialog :: "(int \<Rightarrow> int) \<Rightarrow> (dialog_control \<times> rect) list" where
  "place_proxy_dialog s = [
     (DModeLabel, rect_new (s 16) (s 18) (s 112) (s 24)),
     (DMode, rect_new (s 136) (s 16) (s 390) (s 200)),
     (DHint, rect_new (s 16) (s 50) (s 510) (s 34)),
     (DPortLabel, rect_new (s 16) (s 94) (s 112) (s 24)),
     (DPort, rect_new (s 136) (s 92) (s 140) (s 26)),
     (DDnsLabel, rect_new (s 16) (s 128) (s 112) (s 24)),
     (DDns, rect_new (s 136) (s 126) (s 390) (s 200)),
     (DUseDoh, rect_new (s 136) (s 160) (s 390) (s 24)),
     (DDohLabel, rect_new (s 16) (s 192) (s 112) (s 24)),
     (DDoh, rect_new (s 136) (s 190) (s 390) (s 200)),
     (DHttpHttps, rect_new (s 16) (s 228) (s 510) (s 24)),
     (DTls, rect_new (s 16) (s 256) (s 510) (s 24)),
     (DTlsHint, rect_new (s 16) (s 286) (s 510) (s 52)),
     (DTwoLevel, rect_new (s 16) (s 348) (s 510) (s 24)),
     (DTypeLabel, rect_new (s 16) (s 382) (s 112) (s 24)),
     (DType, rect_new (s 136) (s 380) (s 150) (s 200)),
     (DIpLabel, rect_new (s 16) (s 414) (s 112) (s 24)),
     (DIp, rect_new (s 136) (s 412) (s 228) (s 26)),
     (DPort2Label, rect_new (s 372) (s 414) (s 52) (s 24)),
     (DPort2, rect_new (s 426) (s 412) (s 100) (s 26)),
     (DUserLabel, rect_new (s 16) (s 446) (s 112) (s 24)),
     (DUser, rect_new (s 136) (s 444) (s 150) (s 26)),
     (DPassLabel, rect_new (s 294) (s 446) (s 44) (s 24)),
     (DPass, rect_new (s 342) (s 444) (s 184) (s 26)),
     (DOk, rect_new (s 560 - s 16 - s 90 - s 10 - s 90) (s 500) (s 90) (s 30)),
     (DCancel, rect_new (s 560 - s 16 - s 90) (s 500) (s 90) (s 30))]"

definition dialog_client :: "int \<Rightarrow> rect" where
  "dialog_client dpi = rect_new 0 0 (scale dpi 560) (scale dpi 560)"

text \<open>The fields of the external proxy and their labels are shown while its box is checked.\<close>

definition toggle_two_level :: "bool \<Rightarrow> dialog_control \<Rightarrow> bool" where
  "toggle_two_level on k = (if k \<in> set [DType, DIp, DPort2, DUser, DPass, DTypeLabel, DIpLabel, DPort2Label, DUserLabel, DPassLabel] then on else True)"

definition dialog_on_screen :: "int \<Rightarrow> dialog_control \<times> rect \<Rightarrow> rect" where
  "dialog_on_screen closed kr = (case kr of (k, r) \<Rightarrow> if k \<in> {DMode, DDns, DDoh, DType} then (placed r)\<lparr>rh := closed\<rparr> else placed r)"

section \<open>The toast\<close>

text \<open>\<open>text_w\<close> is the width of the text on one line, \<open>wrapped\<close> the height of the text broken to a given width.\<close>

definition toast_rect :: "int \<Rightarrow> rect \<Rightarrow> int \<times> int \<Rightarrow> int \<Rightarrow> (int \<Rightarrow> int) \<Rightarrow> rect" where
  "toast_rect dpi client origin text_w wrapped =
     (let s = scale dpi; bar_x = s 10; bar_w = s 4; pad_left = bar_x + bar_w + s 10; pad_right = s 14;
          max_w = max (min (rw client - s 40) (s 560)) (s 260); min_w = min (s 260) max_w;
          desired = text_w + pad_left + pad_right;
          (w, h) = (if desired \<le> max_w then (max desired min_w, s 42)
            else (max_w, min (max (wrapped (max (max_w - pad_left - pad_right) 40) + s 20) (s 42)) (s 96)));
          x = fst origin + (rw client - w) div 2; y = snd origin + rh client - h - s 44 in
      rect_new x y (min w (rw client)) h)"

text \<open>The dialog is drawn without overlaps too, the fields of the external proxy included.\<close>

lemma dialog_parted:
  assumes "96 \<le> dpi" "0 \<le> closed" "closed \<le> scale dpi 26"
  shows "parted (dialog_on_screen closed) (dialog_client dpi) (place_proxy_dialog (scale dpi))"
proof -
  have d: "0 \<le> dpi" using assms(1) by simp
  have c: "scale dpi a + closed \<le> scale dpi b" if "a + 26 \<le> b" for a b using scale_sum [OF d that] assms(3) by linarith
  have m: "max (scale dpi v) 0 = scale dpi v" if "0 \<le> v" for v using scale_nonneg [OF d that] by simp
  define cancel where "cancel = scale dpi 560 - scale dpi 16 - scale dpi 90"
  have o: "scale dpi 90 \<le> cancel - scale dpi 10" "cancel - scale dpi 10 \<le> scale dpi 560" "cancel - scale dpi 10 \<le> cancel"
    "0 \<le> cancel" "cancel + scale dpi 90 \<le> scale dpi 560"
    using scale_bounds [of dpi 10] scale_bounds [of dpi 16] scale_bounds [of dpi 90] scale_bounds [of dpi 560] assms(1)
    unfolding cancel_def by linarith+
  show ?thesis unfolding place_proxy_dialog_def cancel_def [symmetric]
    by (simp add: parted_def dialog_on_screen_def dialog_client_def placed_def rect_new_def right_of_def bottom_of_def apart_def within_def
      m c o scale_sum [OF d] scale_nonneg [OF d] scale_mono [OF d] del: max.absorb1 max.absorb2)
qed

lemma toast_in_window:
  assumes "96 \<le> dpi" "fst (min_client dpi) \<le> rw client" "snd (min_client dpi) \<le> rh client" "rx client = 0" "ry client = 0"
  shows "within (toast_rect dpi client (x, y) text_w wrapped) (client\<lparr>rx := x, ry := y\<rparr>)"
proof -
  let ?s = "scale dpi"
  note b = scale_bounds [of dpi 40] scale_bounds [of dpi 42] scale_bounds [of dpi 44] scale_bounds [of dpi 96] scale_bounds [of dpi 260]
    scale_bounds [of dpi 508] scale_bounds [of dpi 528] scale_bounds [of dpi 560]
  define max_w where "max_w = max (min (rw client - ?s 40) (?s 560)) (?s 260)"
  have m: "?s 260 \<le> max_w" "max_w \<le> rw client"
    using b assms(1,2) by (simp_all add: max_w_def min_client_def, linarith)
  let ?pad = "?s 10 + ?s 4 + ?s 10"
  obtain w h where wh: "(if text_w + ?pad + ?s 14 \<le> max_w then (max (text_w + ?pad + ?s 14) (min (?s 260) max_w), ?s 42)
      else (max_w, min (max (wrapped (max (max_w - ?pad - ?s 14) 40) + ?s 20) (?s 42)) (?s 96))) = (w, h)" by fastforce
  have t: "toast_rect dpi client (x, y) text_w wrapped = rect_new (x + (rw client - w) div 2) (y + rh client - h - ?s 44) (min w (rw client)) h"
    unfolding toast_rect_def Let_def max_w_def [symmetric] wh by simp
  have s: "0 \<le> ?s 42" "?s 42 \<le> ?s 96" using b assms(1) by linarith+
  have w: "?s 260 \<le> w" "w \<le> max_w" "0 \<le> h" "h \<le> ?s 96"
    using wh s m(1) by (auto split: if_splits)
  have "0 \<le> (rw client - w) div 2" "(rw client - w) div 2 + w \<le> rw client" using w m by linarith+
  then show ?thesis using w m b assms unfolding t
    by (simp add: within_def rect_new_def right_of_def bottom_of_def min_client_def)
qed

section \<open>Properties\<close>

text \<open>C35. The smallest window is large enough: at every resolution, in every window at least that large and on every tab, the controls the user
  sees lie inside the window and no two of them overlap; the page of the scripts alone needs a wider window.\<close>

theorem visible_controls_apart:
  assumes "96 \<le> dpi" "rx c = 0" "ry c = 0" "fst (min_client dpi) \<le> rw c" "snd (min_client dpi) \<le> rh c"
    and "main \<noteq> Accelerator \<or> at \<noteq> Scripts \<or> scale dpi 620 \<le> rw c" "0 \<le> closed" "closed \<le> scale dpi 26"
    and "apply_visibility main at se k" "k \<notin> frames" "apply_visibility main at se k'" "k' \<notin> frames" "k \<noteq> k'"
  shows "within (on_screen closed (k, after_layout dpi c p k)) c \<and>
    apart (on_screen closed (k, after_layout dpi c p k)) (on_screen closed (k', after_layout dpi c p k'))"
proof -
  have w: "scale dpi 528 \<le> rw c" "scale dpi 508 \<le> rh c" using assms(4,5) by (simp_all add: min_client_def)
  obtain r where r: "(k, r) \<in> set (seen dpi c main at se)" "after_layout dpi c p k = placed r"
    using seen_at [OF assms(1) w assms(9,10)] by blast
  obtain r' where r': "(k', r') \<in> set (seen dpi c main at se)" "after_layout dpi c p k' = placed r'"
    using seen_at [OF assms(1) w assms(11,12)] by blast
  have e: "on_screen closed (k, placed r) = on_screen closed (k, r)" for k r by (simp add: on_screen_def)
  have s: "parted (on_screen closed) c (seen dpi c main at se)" by (rule seen_parted [OF assms(1,7,8,2,3) w assms(6)])
  have "apart (on_screen closed (k, r)) (on_screen closed (k', r')) \<or> apart (on_screen closed (k', r')) (on_screen closed (k, r))"
    using sorted_wrt_two [OF _ r(1) r'(1)] s assms(13) unfolding parted_def by blast
  moreover have "within (on_screen closed (k, r)) c" using s r(1) by (auto simp: parted_def list_all_iff)
  ultimately show ?thesis unfolding r(2) r'(2) e by (auto simp: apart_def)
qed

section \<open>Examples\<close>

lemma visible_controls_apart_witness:
  "apart (on_screen 24 (Start, after_layout 144 (rect_new 0 0 1200 800) (\<lambda>_. rect_new 0 0 0 0) Start))
     (on_screen 24 (ScriptEnable, after_layout 144 (rect_new 0 0 1200 800) (\<lambda>_. rect_new 0 0 0 0) ScriptEnable))"
proof -
  have v: "apply_visibility Accelerator Scripts General Start" "apply_visibility Accelerator Scripts General ScriptEnable"
    "Start \<notin> frames" "ScriptEnable \<notin> frames" by (simp_all add: visibility_simps)
  have w: "fst (min_client 144) \<le> rw (rect_new 0 0 1200 800)" "snd (min_client 144) \<le> rh (rect_new 0 0 1200 800)"
    "Accelerator \<noteq> Accelerator \<or> Scripts \<noteq> Scripts \<or> scale 144 620 \<le> rw (rect_new 0 0 1200 800)" "24 \<le> scale 144 26"
    by (simp_all add: min_client_def scale_def rect_new_def)
  show ?thesis
    by (rule visible_controls_apart [THEN conjunct2, OF _ _ _ w(1-3) _ w(4) v(1,3) v(2,4)]) (simp_all add: rect_new_def)
qed

text \<open>In the smallest window the box of the scripts page reaches over the button that starts the acceleration.\<close>

lemma script_box_over_start:
  "\<not> apart (after_layout 96 (rect_new 0 0 528 508) p Start) (after_layout 96 (rect_new 0 0 528 508) p ScriptEnable)"
proof -
  let ?c = "rect_new 0 0 528 508"
  have "(Start, rect_new 252 110 240 38) \<in> set (layout 96 ?c)" "(ScriptEnable, rect_new 36 118 260 26) \<in> set (layout 96 ?c)"
    by (simp_all add: layout_def Let_def place_right_panel_def place_acc_pages_def scale_def rect_new_def right_of_def)
  from this [THEN placed_once [OF layout_distinct], of p] show ?thesis
    by (simp add: after_layout_def apart_def placed_def rect_new_def right_of_def bottom_of_def)
qed

end
