(* ===== verification/Nettest.thy ===== *)
theory Nettest
  imports Dns
begin

text \<open>
  The network test (\<open>crates/core/src/nettest.rs\<close>, \<open>doh_latency\<close> of \<open>dns.rs\<close>, the thread of \<open>start_nettest\<close> in
  \<open>crates/ui/src/pages/accelerator.rs\<close>): six measurements, one after the other, each with a colour. Sockets, the system's resolver and the
  tasks of the runtime are parameters (\<open>test_env\<close>); times are in milliseconds.
\<close>

section \<open>Results\<close>

datatype test_color = Green | Orange | Red

text \<open>The texts of a result, one constructor for each; names are the test they stand for.\<close>

datatype detail = Millis nat | DohFailed | LocalV4 ipaddr | NoLocalV4 | NatFailed | V6Available | V6Missing
  | LookupFailed | Timeout | ConnectFailedText | TaskFailed | NoRuntime

datatype test_name = NatType | DohOf string | Ipv6Test | DomainOf string | WholeTest

record test_result =
  tr_name :: test_name
  tr_detail :: detail
  tr_color :: test_color
  tr_latency :: "nat option"

fun color_for :: "nat option \<Rightarrow> test_color" where
  "color_for None = Red"
| "color_for (Some ms) = (if ms \<le> 1000 then Green else Orange)"

section \<open>The outside world\<close>

text \<open>A blocking task ends (\<open>joined\<close>) or panics; \<open>udp_local\<close> is the local address of a socket connected outwards, \<open>udp6\<close> whether an IPv6 socket
  could be bound and connected; \<open>lookup443\<close> is the system's resolver with the time it takes, \<open>connects\<close> whether and when an endpoint
  answers a connection attempt that starts at a time.\<close>

record test_env =
  tnet :: network
  has_runtime :: bool
  joined :: bool
  udp_local :: "ipaddr option"
  udp6 :: bool
  lookup443 :: "string \<Rightarrow> nat \<Rightarrow> ipaddr list option \<times> nat"
  connects :: "ipaddr \<Rightarrow> nat \<Rightarrow> bool \<times> nat"

section \<open>The tests\<close>

definition local_ipv4 :: "test_env \<Rightarrow> ipaddr option" where
  "local_ipv4 e = (case udp_local e of Some (V4 b) \<Rightarrow> Some (V4 b) | _ \<Rightarrow> None)"

definition check_nat :: "test_env \<Rightarrow> test_result" where
  "check_nat e = \<lparr>tr_name = NatType, tr_detail = (if joined e then (case local_ipv4 e of Some ip \<Rightarrow> LocalV4 ip | None \<Rightarrow> NoLocalV4) else NatFailed),
     tr_color = Green, tr_latency = None\<rparr>"

definition doh_latency :: "test_env \<Rightarrow> string \<Rightarrow> string \<Rightarrow> nat \<Rightarrow> dns_state \<Rightarrow> nat option \<times> nat \<times> dns_state" where
  "doh_latency e host doh_address t s = (case resolve_doh_typed (tnet e) host doh_address TypeA t s of (_, t', s') \<Rightarrow> (Some (t' - t), t', s'))"

definition check_doh :: "test_env \<Rightarrow> string \<Rightarrow> string \<Rightarrow> nat \<Rightarrow> dns_state \<Rightarrow> test_result \<times> nat \<times> dns_state" where
  "check_doh e name url t s = (case doh_latency e ''store.steampowered.com'' url t s of (latency, t', s') \<Rightarrow>
     (\<lparr>tr_name = DohOf name, tr_detail = (case latency of Some ms \<Rightarrow> Millis ms | None \<Rightarrow> DohFailed),
       tr_color = color_for latency, tr_latency = latency\<rparr>, t', s'))"

definition check_ipv6 :: "test_env \<Rightarrow> test_result" where
  "check_ipv6 e = (let has = joined e \<and> udp6 e in
     \<lparr>tr_name = Ipv6Test, tr_detail = (if has then V6Available else V6Missing), tr_color = (if has then Green else Orange), tr_latency = None\<rparr>)"

text \<open>\<open>connect_timeout\<close> of the standard library: an attempt that takes longer than its ten seconds fails then.\<close>

definition connect_within :: "test_env \<Rightarrow> ipaddr \<Rightarrow> nat \<Rightarrow> bool \<times> nat" where
  "connect_within e a t = (case connects e a t of (ok, d) \<Rightarrow> if d \<le> 10000 then (ok, t + d) else (False, t + 10000))"

fun try_addrs :: "test_env \<Rightarrow> nat \<Rightarrow> ipaddr list \<Rightarrow> nat \<Rightarrow> (detail + unit) \<times> nat" where
  "try_addrs e deadline [] t = (Inl ConnectFailedText, t)"
| "try_addrs e deadline (a # as) t = (if deadline < t then (Inl Timeout, t)
     else (case connect_within e a t of (ok, t') \<Rightarrow> if ok then (Inr (), t') else try_addrs e deadline as t'))"

definition open_domain :: "test_env \<Rightarrow> string \<Rightarrow> nat \<Rightarrow> (detail + unit) \<times> nat" where
  "open_domain e host t = (case lookup443 e host t of
     (None, d) \<Rightarrow> (Inl LookupFailed, t + d)
   | (Some addrs, d) \<Rightarrow> try_addrs e (t + 20000) addrs (t + d))"

definition check_domain :: "test_env \<Rightarrow> string \<Rightarrow> string \<Rightarrow> nat \<Rightarrow> test_result \<times> nat" where
  "check_domain e name host t = (case open_domain e host t of (r, t') \<Rightarrow>
     let ms = t' - t; ok = (joined e \<and> r = Inr ()) in
     (\<lparr>tr_name = DomainOf name,
       tr_detail = (if joined e then (case r of Inr _ \<Rightarrow> Millis ms | Inl d \<Rightarrow> d) else TaskFailed),
       tr_color = (if ok \<and> ms \<le> 1000 then Green else if ok then Orange else Red),
       tr_latency = (if ok then Some ms else None)\<rparr>, t'))"

definition default_test_domain :: string where "default_test_domain = ''store.steampowered.com''"

text \<open>The thread of the test page.\<close>

definition google_doh :: string where "google_doh = ''https://dns.google/resolve''"

definition run_tests :: "test_env \<Rightarrow> nat \<Rightarrow> dns_state \<Rightarrow> test_result list \<times> nat \<times> dns_state" where
  "run_tests e t s = (if \<not> has_runtime e then ([\<lparr>tr_name = WholeTest, tr_detail = NoRuntime, tr_color = Red, tr_latency = None\<rparr>], t, s)
     else (case check_doh e ''Tencent DoH'' dns_ali_doh t s of (r1, t, s) \<Rightarrow>
       (case check_doh e ''DNSPod DoH'' dnspod_doh t s of (r2, t, s) \<Rightarrow>
       (case check_doh e ''Google DoH'' google_doh t s of (r3, t, s) \<Rightarrow>
       (case check_domain e ''domain'' default_test_domain t of (r5, t) \<Rightarrow>
         ([check_nat e, r1, r2, r3, check_ipv6 e, r5], t, s))))))"

section \<open>Facts\<close>

lemma connect_within_bound: "connect_within e a t = (ok, t') \<Longrightarrow> t \<le> t' \<and> t' \<le> t + 10000 \<and> (ok \<longrightarrow> fst (connects e a t))"
  by (auto simp: connect_within_def split: prod.splits if_splits)

text \<open>No attempt starts after the deadline, so the walk ends at most one attempt later.\<close>

lemma try_addrs_bound:
  "try_addrs e deadline as t = (r, t') \<Longrightarrow> t \<le> t' \<and> t' \<le> max t (deadline + 10000) \<and>
     (r = Inr () \<longrightarrow> (\<exists>a\<in>set as. \<exists>t0. t \<le> t0 \<and> t0 \<le> deadline \<and> fst (connects e a t0)))"
proof (induction as arbitrary: t)
  case (Cons a as)
  show ?case
  proof (cases "deadline < t")
    case False
    obtain ok t1 where c: "connect_within e a t = (ok, t1)" by fastforce
    note b = connect_within_bound [OF c]
    show ?thesis
    proof (cases ok)
      case True
      then show ?thesis using Cons.prems False c b by auto
    next
      case n: False
      then have r: "try_addrs e deadline as t1 = (r, t')" using Cons.prems False c by simp
      note i = Cons.IH [OF r]
      have "r = Inr () \<Longrightarrow> \<exists>x\<in>set (a # as). \<exists>t0. t \<le> t0 \<and> t0 \<le> deadline \<and> fst (connects e x t0)"
        using i b le_trans by (metis list.set_intros(2))
      moreover have "t \<le> t'" "t' \<le> max t (deadline + 10000)" using i b False by auto
      ultimately show ?thesis by blast
    qed
  qed (use Cons.prems in auto)
qed auto

text \<open>A test of a domain ends at most thirty seconds after the lookup that precedes it allows, says red exactly when no endpoint could be
  reached, and otherwise measured the time to the first endpoint that answers.\<close>

lemma check_domain_bounded:
  assumes "check_domain e name host t = (r, t')"
  shows "t \<le> t' \<and> t' \<le> max (t + snd (lookup443 e host t)) (t + 30000) \<and>
    (tr_color r = Red \<longleftrightarrow> tr_latency r = None) \<and>
    (\<forall>ms. tr_latency r = Some ms \<longrightarrow> ms = t' - t \<and> (tr_color r = Green \<longleftrightarrow> ms \<le> 1000) \<and>
      (\<exists>as a t0. fst (lookup443 e host t) = Some as \<and> a \<in> set as \<and> fst (connects e a t0)))"
proof -
  obtain q u where o: "open_domain e host t = (q, u)" by fastforce
  then have t: "t' = u" and r: "r = fst (check_domain e name host t)" using assms by (auto simp: check_domain_def Let_def)
  obtain l d where l: "lookup443 e host t = (l, d)" by fastforce
  have b: "t \<le> u \<and> u \<le> max (t + d) (t + 30000) \<and> (q = Inr () \<longrightarrow> (\<exists>as a t0. l = Some as \<and> a \<in> set as \<and> fst (connects e a t0)))"
  proof (cases l)
    case None
    then show ?thesis using o l by (auto simp: open_domain_def)
  next
    case (Some as)
    then have "try_addrs e (t + 20000) as (t + d) = (q, u)" using o l by (simp add: open_domain_def)
    from try_addrs_bound [OF this] Some show ?thesis by auto
  qed
  show ?thesis unfolding t r using o l b by (auto simp: check_domain_def Let_def)
qed

section \<open>What the DoH test measures\<close>

text \<open>The answer is thrown away: an endpoint that cannot be reached is never red, and a cached answer is measured instead of the endpoint.\<close>

lemma doh_test_never_red: "tr_color (fst (check_doh e name url t s)) \<noteq> Red"
  by (simp add: check_doh_def doh_latency_def case_prod_beta)

lemma doh_test_measures_cache:
  assumes "fst (cache_get (''store.steampowered.com'', Doh url, TypeA) t s) = Some ips"
  shows "tr_latency (fst (check_doh e name url t s)) = Some 0"
proof -
  obtain s' where "cache_get (''store.steampowered.com'', Doh url, TypeA) t s = (Some ips, s')" using assms by (metis prod.collapse)
  then show ?thesis by (simp add: check_doh_def doh_latency_def resolve_doh_typed_def doh_query_once_def)
qed

end
